(* ===== verification/Prelude.thy ===== *)
theory Prelude
  imports Main "HOL-Library.Word"
begin

text \<open>
  Shared vocabulary of the development: the machine types of the x86-64 C code, the result
  type in which a C run-time fault is a value, byte-addressed memory with the accesses the
  sources use (\<open>memcpy\<close>, \<open>memset\<close>, loads and stores of \<open>unsigned long\<close>), C strings with
  \<open>strcmp\<close>, and the lemmas on words, regions and memories that the component theories use.
\<close>

unbundle bit_operations_syntax

section \<open>Machine types\<close>

type_synonym u8 = "8 word"
type_synonym u16 = "16 word"
type_synonym u32 = "32 word"
type_synonym u64 = "64 word"
type_synonym addr = "64 word"

text \<open>A C string without its terminating NUL, as the list of its bytes.\<close>
type_synonym cstring = "u8 list"

type_synonym memory = "addr \<Rightarrow> u8"

named_theorems res_simps \<open>rewriting of the result monad\<close>
named_theorems mem_simps \<open>reading back from copied, filled and stored memory\<close>

section \<open>Faults and results\<close>

text \<open>
  What the C code can run into at run time. \<open>NullDeref\<close> is an access through NULL,
  \<open>BadAccess\<close> one that runs off the end of the address space, \<open>OutOfBounds\<close> one outside
  the array or block it belongs to, \<open>UseAfterFree\<close> one to a freed object, \<open>Uninitialised\<close>
  a read of a field that was never written, \<open>BadFree\<close> a \<open>kfree\<close> or \<open>free\<close> of something that
  is not an allocated block, and \<open>DivByZero\<close> a division by zero.
\<close>

datatype fault =
    NullDeref
  | BadAccess
  | OutOfBounds
  | UseAfterFree
  | Uninitialised
  | BadFree
  | DivByZero

type_synonym 'a res = "fault + 'a"

definition bind_res :: "'a res \<Rightarrow> ('a \<Rightarrow> 'b res) \<Rightarrow> 'b res" where
  "bind_res r f = (case r of Inl e \<Rightarrow> Inl e | Inr x \<Rightarrow> f x)"

lemma bind_res_Inl [simp, res_simps]: "bind_res (Inl e) f = Inl e"
  by (simp add: bind_res_def)

lemma bind_res_Inr [simp, res_simps]: "bind_res (Inr x) f = f x"
  by (simp add: bind_res_def)

lemma bind_res_eq_Inr: "bind_res r f = Inr y \<longleftrightarrow> (\<exists>x. r = Inr x \<and> f x = Inr y)"
  by (cases r) auto

lemma bind_res_eq_Inl:
  "bind_res r f = Inl e \<longleftrightarrow> r = Inl e \<or> (\<exists>x. r = Inr x \<and> f x = Inl e)"
  by (cases r) auto

lemma bind_res_cong [fundef_cong]:
  "r = r' \<Longrightarrow> (\<And>x. r' = Inr x \<Longrightarrow> f x = f' x) \<Longrightarrow> bind_res r f = bind_res r' f'"
  by (cases r') auto

text \<open>An element of an array, by an \<open>int\<close> index.\<close>
definition at_index :: "int \<Rightarrow> 'b list \<Rightarrow> 'b res" where
  "at_index i xs = (if 0 \<le> i \<and> i < int (length xs) then Inr (xs ! nat i) else Inl OutOfBounds)"

lemma replicate_num [simp]: "replicate (numeral k) x = x # replicate (pred_numeral k) x"
  by (simp add: numeral_eq_Suc)

lemma find_append:
  "find P (xs @ ys) = (case find P xs of None \<Rightarrow> find P ys | Some x \<Rightarrow> Some x)"
  by (induction xs) auto

section \<open>Memory\<close>

text \<open>
  \<open>in_region a n x\<close>: the address \<open>x\<close> is one of the \<open>n\<close> bytes from \<open>a\<close> on. Addresses wrap,
  as on the machine; \<open>no_wrap a n\<close> says that the region does not.
\<close>

definition in_region :: "addr \<Rightarrow> u64 \<Rightarrow> addr \<Rightarrow> bool" where
  "in_region a n x \<longleftrightarrow> x - a < n"

definition no_wrap :: "addr \<Rightarrow> u64 \<Rightarrow> bool" where
  "no_wrap a n \<longleftrightarrow> unat a + unat n < 2 ^ 64"

text \<open>Two regions, neither of which wraps, without a common byte.\<close>
definition apart :: "addr \<Rightarrow> u64 \<Rightarrow> addr \<Rightarrow> u64 \<Rightarrow> bool" where
  "apart a n b m \<longleftrightarrow> unat a + unat n \<le> unat b \<or> unat b + unat m \<le> unat a"

text \<open>\<open>memset\<close> and \<open>memcpy\<close> as the bytes they leave behind.\<close>

definition fill :: "memory \<Rightarrow> addr \<Rightarrow> u8 \<Rightarrow> u64 \<Rightarrow> memory" where
  "fill m a c n = (\<lambda>x. if in_region a n x then c else m x)"

definition copy :: "memory \<Rightarrow> addr \<Rightarrow> addr \<Rightarrow> u64 \<Rightarrow> memory" where
  "copy m dst src n = (\<lambda>x. if in_region dst n x then m (src + (x - dst)) else m x)"

text \<open>
  The calls themselves. A call with a length of 0 touches nothing; otherwise it faults on a
  NULL pointer and on a range that leaves the address space, which no mapping can cover.
\<close>

definition memset :: "addr \<Rightarrow> u8 \<Rightarrow> u64 \<Rightarrow> memory \<Rightarrow> memory res" where
  "memset a c n m =
     (if n = 0 then Inr m
      else if a = 0 then Inl NullDeref
      else if \<not> no_wrap a n then Inl BadAccess
      else Inr (fill m a c n))"

definition memcpy :: "addr \<Rightarrow> addr \<Rightarrow> u64 \<Rightarrow> memory \<Rightarrow> memory res" where
  "memcpy dst src n m =
     (if n = 0 then Inr m
      else if dst = 0 \<or> src = 0 then Inl NullDeref
      else if \<not> no_wrap dst n \<or> \<not> no_wrap src n then Inl BadAccess
      else Inr (copy m dst src n))"

definition store_bytes :: "memory \<Rightarrow> addr \<Rightarrow> u8 list \<Rightarrow> memory" where
  "store_bytes m a bs = (\<lambda>x. if unat (x - a) < length bs then bs ! unat (x - a) else m x)"

definition load_bytes :: "memory \<Rightarrow> addr \<Rightarrow> nat \<Rightarrow> u8 list" where
  "load_bytes m a n = map (\<lambda>i. m (a + of_nat i)) [0 ..< n]"

text \<open>Little-endian loads and stores.\<close>

primrec load_le :: "nat \<Rightarrow> memory \<Rightarrow> addr \<Rightarrow> nat" where
  "load_le 0 m a = 0"
| "load_le (Suc k) m a = unat (m a) + 256 * load_le k m (a + 1)"

definition load64 :: "memory \<Rightarrow> addr \<Rightarrow> u64" where
  "load64 m a = word_of_nat (load_le 8 m a)"

definition store64 :: "memory \<Rightarrow> addr \<Rightarrow> u64 \<Rightarrow> memory" where
  "store64 m a v =
     (\<lambda>x. if in_region a 8 x then ucast (drop_bit (8 * unat (x - a)) v) else m x)"

section \<open>C strings\<close>

text \<open>\<open>strcmp\<close>: the difference of the first bytes that differ, as \<open>unsigned char\<close>.\<close>

fun strcmp :: "cstring \<Rightarrow> cstring \<Rightarrow> int" where
  "strcmp [] [] = 0"
| "strcmp [] (y # ys) = - uint y"
| "strcmp (x # xs) [] = uint x"
| "strcmp (x # xs) (y # ys) = (if x = y then strcmp xs ys else uint x - uint y)"

text \<open>A string the C code can hold: no NUL inside.\<close>
definition c_str :: "cstring \<Rightarrow> bool" where
  "c_str s \<longleftrightarrow> 0 \<notin> set s"

section \<open>Lemmas on regions\<close>

lemma unat_u64_less: "unat (x :: u64) < 18446744073709551616"
  by (rule order_less_le_trans [OF unsigned_less]) simp

lemma unat_u8_less: "unat (x :: u8) < 256"
  by (rule order_less_le_trans [OF unsigned_less]) simp

lemma unat_ucast_u32 [simp]: "unat (ucast (n :: u32) :: u64) = unat n"
proof -
  have "unat n < 2 ^ 64" by (rule order_less_le_trans [OF unsigned_less]) simp
  then show ?thesis by (simp only: unsigned_ucast_eq) (simp add: take_bit_nat_eq_self)
qed

lemma unat_ucast_u8 [simp]: "unat (ucast (n :: u8) :: u64) = unat n"
proof -
  have "unat n < 2 ^ 64" using unat_u8_less [of n] by simp
  then show ?thesis by (simp only: unsigned_ucast_eq) (simp add: take_bit_nat_eq_self)
qed

lemma unat_plus_1: "x < (y :: u64) \<Longrightarrow> unat (x + 1) = Suc (unat x)"
  using unat_u64_less [of y] by (simp add: unat_word_ariths word_less_nat_alt)

lemma plus_1_le: "x < (y :: u64) \<Longrightarrow> x + 1 \<le> y"
  by (simp add: word_le_nat_alt unat_plus_1 word_less_nat_alt Suc_le_eq)

lemma in_region_iff:
  assumes "no_wrap a n"
  shows "in_region a n x \<longleftrightarrow> unat a \<le> unat x \<and> unat x < unat a + unat n"
  using assms unat_u64_less [of x] unat_u64_less [of a]
  by (auto simp: in_region_def no_wrap_def word_less_nat_alt unat_sub_if_size word_size
      word_le_nat_alt)

lemma in_region_self [simp]: "in_region a n a \<longleftrightarrow> n \<noteq> 0"
  by (auto simp: in_region_def word_gt_0)

lemma in_region_0 [simp]: "\<not> in_region a 0 x"
  by (simp add: in_region_def)

lemma in_region_shift: "in_region a n (a + d) \<longleftrightarrow> d < n"
  by (simp add: in_region_def)

lemma apart_sym: "apart a n b m \<longleftrightarrow> apart b m a n"
  by (auto simp: apart_def)

lemma apart_not_in_region:
  "no_wrap a n \<Longrightarrow> no_wrap b m \<Longrightarrow> apart a n b m \<Longrightarrow> in_region a n x \<Longrightarrow> \<not> in_region b m x"
  by (auto simp: in_region_iff apart_def)

lemma no_wrap_unat_add: "no_wrap a n \<Longrightarrow> d \<le> n \<Longrightarrow> unat (a + d) = unat a + unat d"
  by (simp add: no_wrap_def word_le_nat_alt unat_add_lem [THEN iffD1])

lemma no_wrap_le: "no_wrap a n \<Longrightarrow> a \<le> a + n"
  using no_wrap_unat_add [of a n n] by (simp add: word_le_nat_alt)

section \<open>Lemmas on memory\<close>

lemma fill_in [simp, mem_simps]: "in_region a n x \<Longrightarrow> fill m a c n x = c"
  by (simp add: fill_def)

lemma fill_out [simp, mem_simps]: "\<not> in_region a n x \<Longrightarrow> fill m a c n x = m x"
  by (simp add: fill_def)

lemma copy_in [simp, mem_simps]: "in_region d n x \<Longrightarrow> copy m d s n x = m (s + (x - d))"
  by (simp add: copy_def)

lemma copy_out [simp, mem_simps]: "\<not> in_region d n x \<Longrightarrow> copy m d s n x = m x"
  by (simp add: copy_def)

lemma memcpy_ok:
  "d \<noteq> 0 \<Longrightarrow> s \<noteq> 0 \<Longrightarrow> no_wrap d n \<Longrightarrow> no_wrap s n \<Longrightarrow> memcpy d s n m = Inr (copy m d s n)"
  by (auto simp: memcpy_def copy_def)

lemma memset_ok: "a \<noteq> 0 \<Longrightarrow> no_wrap a n \<Longrightarrow> memset a c n m = Inr (fill m a c n)"
  by (auto simp: memset_def fill_def)

lemma store_bytes_out: "of_nat (length bs) \<le> n \<Longrightarrow> length bs < 2 ^ 64 \<Longrightarrow>
    \<not> in_region a n x \<Longrightarrow> store_bytes m a bs x = m x"
  by (auto simp: store_bytes_def in_region_def word_le_nat_alt word_less_nat_alt unat_of_nat)

lemma load_store_bytes:
  assumes "length bs < 2 ^ 64"
  shows "load_bytes (store_bytes m a bs) a (length bs) = bs"
  using assms by (intro nth_equalityI) (simp_all add: load_bytes_def store_bytes_def unat_of_nat)

lemma load_le_numeral:
  "load_le (numeral k) m a = unat (m a) + 256 * load_le (pred_numeral k) m (a + 1)"
  by (simp add: numeral_eq_Suc)

lemma load_le_less: "load_le k m a < 256 ^ k"
proof (induction k arbitrary: a)
  case (Suc k)
  from Suc.IH [of "a + 1"] unat_u8_less [of "m a"] show ?case by simp
qed simp

lemma load_le_byte:
  "j < k \<Longrightarrow> load_le k m a div 256 ^ j mod 256 = unat (m (a + of_nat j))"
proof (induction k arbitrary: j a)
  case (Suc k)
  show ?case
  proof (cases j)
    case 0
    then show ?thesis using unat_u8_less [of "m a"] by simp
  next
    case (Suc i)
    have "load_le (Suc k) m a div 256 ^ j mod 256 = load_le (Suc k) m a div 256 div 256 ^ i mod 256"
      by (simp add: Suc div_mult2_eq)
    also have "load_le (Suc k) m a div 256 = load_le k m (a + 1)"
      using unat_u8_less [of "m a"] by simp
    finally show ?thesis using Suc.prems Suc.IH [of i "a + 1"] Suc by (simp add: add.assoc)
  qed
qed simp

lemma unat_load64: "unat (load64 m a) = load_le 8 m a"
  using load_le_less [of 8 m a] by (simp add: load64_def unat_of_nat)

lemma load64_byte: "j < 8 \<Longrightarrow> ucast (drop_bit (8 * j) (load64 m a)) = m (a + of_nat j)"
proof -
  assume j: "j < 8"
  have "unat (ucast (drop_bit (8 * j) (load64 m a)) :: u8)
      = load_le 8 m a div 2 ^ (8 * j) mod 256"
    by (simp only: unsigned_ucast_eq unsigned_drop_bit_eq unat_load64)
      (use load_le_less [of 8 m a] in \<open>simp add: take_bit_eq_mod drop_bit_eq_div\<close>)
  also have "\<dots> = unat (m (a + of_nat j))"
    using load_le_byte [OF j, of m a] by (simp add: power_mult)
  finally show ?thesis by (simp only: word_unat_eq_iff)
qed

lemma store64_load64:
  "store64 m a (load64 m' b) = (\<lambda>x. if in_region a 8 x then m' (b + (x - a)) else m x)"
proof
  fix x
  show "store64 m a (load64 m' b) x = (if in_region a 8 x then m' (b + (x - a)) else m x)"
  proof (cases "in_region a 8 x")
    case True
    then have "unat (x - a) < 8"
      by (simp add: in_region_def word_less_nat_alt)
    then show ?thesis using True by (simp add: store64_def load64_byte)
  qed (simp add: store64_def)
qed

text \<open>Loading an \<open>unsigned long\<close> and storing it is a copy of eight bytes.\<close>
lemma store64_load64_copy: "store64 m a (load64 m b) = copy m a b 8"
  by (simp add: store64_load64 copy_def)

lemma load_le_cong:
  "(\<And>i. i < k \<Longrightarrow> m (a + of_nat i) = m' (a + of_nat i)) \<Longrightarrow> load_le k m a = load_le k m' a"
proof (induction k arbitrary: a)
  case (Suc k)
  have "m (a + 1 + of_nat i) = m' (a + 1 + of_nat i)" if "i < k" for i
    using Suc.prems [of "Suc i"] that by (simp add: add.assoc)
  then show ?case using Suc.IH [of "a + 1"] Suc.prems [of 0] by simp
qed simp

lemma load64_cong:
  "(\<And>i. i < 8 \<Longrightarrow> m (a + of_nat i) = m' (a + of_nat i)) \<Longrightarrow> load64 m a = load64 m' a"
  unfolding load64_def by (subst load_le_cong [of 8 m a m']) simp_all

lemma load_le_bytes:
  assumes "\<And>j. j < k \<Longrightarrow> unat (m (a + of_nat j)) = v div 256 ^ j mod 256"
  shows "load_le k m a = v mod 256 ^ k"
  using assms
proof (induction k arbitrary: a v)
  case (Suc k)
  have "unat (m (a + 1 + of_nat j)) = v div 256 div 256 ^ j mod 256" if "j < k" for j
    using Suc.prems [of "Suc j"] that by (simp add: add.assoc div_mult2_eq)
  then have "load_le k m (a + 1) = v div 256 mod 256 ^ k" by (rule Suc.IH)
  moreover have "unat (m a) = v mod 256" using Suc.prems [of 0] by simp
  ultimately show ?case by (simp add: mod_mult2_eq)
qed simp

lemma load64_store64: "load64 (store64 m a v) a = v"
proof -
  have "unat (store64 m a v (a + of_nat j)) = unat v div 256 ^ j mod 256" if "j < 8" for j
  proof -
    have "unat (of_nat j :: u64) = j" using that by (simp add: unat_of_nat)
    moreover have "unat (ucast (drop_bit (8 * j) v) :: u8) = unat v div 2 ^ (8 * j) mod 256"
      using unat_u64_less [of v]
      by (simp only: unsigned_ucast_eq unsigned_drop_bit_eq) (simp add: take_bit_eq_mod drop_bit_eq_div)
    ultimately show ?thesis
      using that by (simp add: store64_def in_region_def word_less_nat_alt power_mult)
  qed
  then have "load_le 8 (store64 m a v) a = unat v mod 256 ^ 8" by (rule load_le_bytes)
  then show ?thesis using unat_u64_less [of v] by (simp add: load64_def)
qed

lemma load64_store64_apart:
  "no_wrap a 8 \<Longrightarrow> no_wrap b 8 \<Longrightarrow> apart a 8 b 8 \<Longrightarrow> load64 (store64 m a v) b = load64 m b"
proof (rule load64_cong)
  fix i :: nat
  assume a: "no_wrap a 8" "no_wrap b 8" "apart a 8 b 8" and i: "i < 8"
  have "in_region b 8 (b + of_nat i)" using i by (simp add: in_region_shift word_less_nat_alt unat_of_nat)
  then have "\<not> in_region a 8 (b + of_nat i)" using a apart_not_in_region apart_sym by blast
  then show "store64 m a v (b + of_nat i) = m (b + of_nat i)" by (simp add: store64_def)
qed

end
