(* ===== verification/Machine.thy ===== *)
theory Machine
  imports Prelude
begin

text \<open>
  The part of the kernel the module runs on: flat byte memory, the slab allocator
  (\<open>kmalloc\<close>, \<open>kfree\<close>), the address limit of the running thread (\<open>get_fs\<close>, \<open>set_fs\<close>), the
  descriptor table of the running process and the files that were closed.
  The allocator itself is not part of the repository. It is a parameter \<open>al\<close> of every
  definition that allocates: given how many allocations were made before, the live blocks
  and a size, it answers with an address, or with 0 for NULL. What the module relies on is
  \<open>alloc_ok al\<close>: an answer other than NULL is a fresh block of kernel memory. The allocator
  \<open>bump\<close> shows that this can hold; witnesses run on it.
\<close>

section \<open>State\<close>

datatype mm_segment = KERNEL_DS | USER_DS

record machine =
  mem :: memory
  live :: "(addr \<times> u64) list"
  calls :: nat
  addr_limit :: mm_segment
  fdtab :: "(int \<times> addr) list"
  closed :: "addr list"

type_synonym alloc = "nat \<Rightarrow> (addr \<times> u64) list \<Rightarrow> u64 \<Rightarrow> addr"

text \<open>The halves of the x86-64 address space.\<close>

definition kernel_base :: addr where
  "kernel_base = 0xffff800000000000"

definition user_top :: addr where
  "user_top = 0x0000800000000000"

definition is_user :: "addr \<Rightarrow> bool" where
  "is_user x \<longleftrightarrow> x < user_top"

definition user_region :: "addr \<Rightarrow> u64 \<Rightarrow> bool" where
  "user_region a n \<longleftrightarrow> unat a + unat n \<le> unat user_top"

section \<open>Allocation\<close>

text \<open>The address \<open>kmalloc(0)\<close> returns, which \<open>kfree\<close> ignores.\<close>
definition ZERO_SIZE_PTR :: addr where
  "ZERO_SIZE_PTR = 16"

definition kmalloc :: "alloc \<Rightarrow> u64 \<Rightarrow> 'a machine_scheme \<Rightarrow> addr \<times> 'a machine_scheme" where
  "kmalloc al n s =
     (if n = 0 then (ZERO_SIZE_PTR, s)
      else let a = al (calls s) (live s) n; s' = s\<lparr>calls := Suc (calls s)\<rparr>
           in if a = 0 then (0, s') else (a, s'\<lparr>live := (a, n) # live s\<rparr>))"

definition kfree :: "addr \<Rightarrow> 'a machine_scheme \<Rightarrow> 'a machine_scheme res" where
  "kfree p s =
     (if p = 0 \<or> p = ZERO_SIZE_PTR then Inr s
      else if p \<in> set (map fst (live s))
      then Inr (s\<lparr>live := filter (\<lambda>b. fst b \<noteq> p) (live s)\<rparr>)
      else Inl BadFree)"

text \<open>
  A heap-allocated C string: its block and its contents. The module always makes one as
  \<open>kmalloc(len + 1)\<close>, \<open>strncpy\<close> and a final NUL, without looking at the pointer.
\<close>
type_synonym cstr = "addr \<times> cstring"

definition dup_cstr :: "alloc \<Rightarrow> cstring \<Rightarrow> 'a machine_scheme \<Rightarrow> (cstr \<times> 'a machine_scheme) res" where
  "dup_cstr al str s =
     (let (p, s') = kmalloc al (of_nat (length str + 1)) s
      in if p = 0 then Inl NullDeref else Inr ((p, str), s'))"

text \<open>Blocks that can be live together: kernel memory, not empty, pairwise apart.\<close>
definition heap_ok :: "(addr \<times> u64) list \<Rightarrow> bool" where
  "heap_ok l \<longleftrightarrow>
     sorted_wrt (\<lambda>(a, n) (b, k). apart a n b k) l \<and>
     (\<forall>(a, n) \<in> set l. kernel_base \<le> a \<and> n \<noteq> 0 \<and> no_wrap a n)"

definition alloc_ok :: "alloc \<Rightarrow> bool" where
  "alloc_ok al \<longleftrightarrow>
     (\<forall>k l n. n \<noteq> 0 \<longrightarrow> heap_ok l \<longrightarrow> al k l n \<noteq> 0 \<longrightarrow> heap_ok ((al k l n, n) # l))"

text \<open>The allocations of the given sizes, made one after the other from here, all succeed.\<close>
fun allocs_ok :: "alloc \<Rightarrow> u64 list \<Rightarrow> 'a machine_scheme \<Rightarrow> bool" where
  "allocs_ok al [] s = True"
| "allocs_ok al (n # ns) s = (let (a, s') = kmalloc al n s in a \<noteq> 0 \<and> allocs_ok al ns s')"

text \<open>An allocator: every block begins where the highest one ends.\<close>
definition heap_top :: "(addr \<times> u64) list \<Rightarrow> nat" where
  "heap_top l = fold (\<lambda>(a, m) t. max t (unat a + unat m)) l (unat kernel_base)"

definition bump :: alloc where
  "bump k l n = (let top = heap_top l in if top + unat n < 2 ^ 64 then of_nat top else 0)"

text \<open>A C string whose length, NUL included, fits the \<open>int\<close> the code computes it in.\<close>
definition short_str :: "cstring \<Rightarrow> bool" where
  "short_str str \<longleftrightarrow> length str < 2 ^ 31 - 1"

text \<open>The addresses of the live blocks.\<close>
definition blocks :: "'a machine_scheme \<Rightarrow> addr set" where
  "blocks s = fst ` set (live s)"

text \<open>\<open>s'\<close> differs from \<open>s\<close> in what the allocator keeps only.\<close>
definition heap_step :: "'a machine_scheme \<Rightarrow> 'a machine_scheme \<Rightarrow> bool" where
  "heap_step s s' \<longleftrightarrow> s' = s\<lparr>live := live s', calls := calls s'\<rparr>"

text \<open>On the way from \<open>s\<close> to \<open>s'\<close> only the blocks in \<open>B\<close> may have been freed.\<close>
definition keeps :: "addr set \<Rightarrow> 'a machine_scheme \<Rightarrow> 'a machine_scheme \<Rightarrow> bool" where
  "keeps B s s' \<longleftrightarrow> (\<forall>b \<in> set (live s). fst b \<notin> B \<longrightarrow> b \<in> set (live s'))"

text \<open>A machine on which nothing was allocated yet.\<close>
definition boot :: machine where
  "boot = \<lparr>mem = (\<lambda>_. 0), live = [], calls = 0, addr_limit = USER_DS,
     fdtab = [], closed = []\<rparr>"

section \<open>Checked loads from allocated blocks\<close>

definition accessible :: "'a machine_scheme \<Rightarrow> addr \<Rightarrow> nat \<Rightarrow> bool" where
  "accessible s a k \<longleftrightarrow>
     list_ex (\<lambda>(b, n). no_wrap b n \<and> unat b \<le> unat a \<and> unat a + k \<le> unat b + unat n) (live s)"

definition hload :: "nat \<Rightarrow> addr \<Rightarrow> 'a machine_scheme \<Rightarrow> nat res" where
  "hload k a s =
     (if a = 0 then Inl NullDeref
      else if accessible s a k then Inr (load_le k (mem s) a)
      else Inl OutOfBounds)"

text \<open>The C string at an address: the bytes up to the first NUL of the block it lies in.\<close>
definition cstr_at :: "addr \<Rightarrow> 'a machine_scheme \<Rightarrow> cstring res" where
  "cstr_at p s =
     (case find (\<lambda>(b, n). no_wrap b n \<and> unat b \<le> unat p \<and> unat p < unat b + unat n) (live s) of
        None \<Rightarrow> Inl OutOfBounds
      | Some (b, n) \<Rightarrow>
          (let bs = map (\<lambda>i. mem s (p + of_nat i)) [0 ..< unat b + unat n - unat p]
           in if 0 \<in> set bs then Inr (takeWhile (\<lambda>c. c \<noteq> 0) bs) else Inl OutOfBounds))"

section \<open>Lemmas on the heap\<close>

lemma kernel_not_user: "kernel_base \<le> a \<Longrightarrow> \<not> is_user a"
  unfolding kernel_base_def is_user_def user_top_def by (auto simp: word_le_nat_alt word_less_nat_alt)

lemma user_below_kernel: "user_region a n \<Longrightarrow> kernel_base \<le> b \<Longrightarrow> unat a + unat n \<le> unat b"
  by (simp add: user_region_def user_top_def kernel_base_def word_le_nat_alt)

lemma user_region_no_wrap: "user_region a n \<Longrightarrow> no_wrap a n"
  by (simp add: user_region_def user_top_def no_wrap_def)

lemma in_user_region: "user_region a n \<Longrightarrow> in_region a n x \<Longrightarrow> is_user x"
  by (auto simp: in_region_iff user_region_no_wrap is_user_def word_less_nat_alt user_region_def)

lemma kernel_nonzero: "kernel_base \<le> a \<Longrightarrow> a \<noteq> 0"
  by (auto simp: kernel_base_def)

lemma kernel_not_ZERO_SIZE_PTR: "kernel_base \<le> a \<Longrightarrow> a \<noteq> ZERO_SIZE_PTR"
  by (auto simp: kernel_base_def ZERO_SIZE_PTR_def)

lemma block_small: "kernel_base \<le> a \<Longrightarrow> no_wrap a n \<Longrightarrow> unat n < 2 ^ 47"
  by (simp add: kernel_base_def no_wrap_def word_le_nat_alt)

lemma heap_ok_Nil [simp]: "heap_ok []"
  by (simp add: heap_ok_def)

lemma heap_ok_block:
  "heap_ok l \<Longrightarrow> (a, n) \<in> set l \<Longrightarrow> kernel_base \<le> a \<and> n \<noteq> 0 \<and> no_wrap a n"
  by (auto simp: heap_ok_def)

lemma heap_ok_Cons:
  "heap_ok ((a, n) # l) \<longleftrightarrow>
     heap_ok l \<and> kernel_base \<le> a \<and> n \<noteq> 0 \<and> no_wrap a n \<and> (\<forall>(b, k) \<in> set l. apart a n b k)"
  by (auto simp: heap_ok_def)

lemma heap_ok_filter: "heap_ok l \<Longrightarrow> heap_ok (filter P l)"
  by (auto simp: heap_ok_def sorted_wrt_filter)

lemma apart_irrefl: "n \<noteq> 0 \<Longrightarrow> k \<noteq> 0 \<Longrightarrow> \<not> apart a n a k"
  by (auto simp: apart_def unat_eq_0)

lemma heap_ok_fresh:
  assumes "heap_ok ((a, n) # l)"
  shows "a \<notin> set (map fst l)"
  using assms by (fastforce simp: heap_ok_Cons apart_irrefl dest: heap_ok_block)

lemma heap_ok_distinct: "heap_ok l \<Longrightarrow> distinct (map fst l)"
proof (induction l)
  case (Cons b l)
  then show ?case using heap_ok_fresh [of "fst b" "snd b" l]
    by (cases b) (auto simp: heap_ok_Cons)
qed simp

lemma heap_ok_apart:
  "heap_ok l \<Longrightarrow> (a, n) \<in> set l \<Longrightarrow> (b, k) \<in> set l \<Longrightarrow> a \<noteq> b \<Longrightarrow> apart a n b k"
proof (induction l)
  case (Cons c l)
  then show ?case by (cases c) (auto simp: heap_ok_Cons apart_sym)
qed simp

lemma fresh_not_in_block:
  assumes "heap_ok ((b, n) # l)" and "c \<in> set l" and "in_region (fst c) (snd c) x"
  shows "\<not> in_region b n x"
proof -
  have "(fst c, snd c) \<in> set l" using assms(2) by simp
  then have "no_wrap (fst c) (snd c)" "apart b n (fst c) (snd c)" "no_wrap b n"
    using assms(1) heap_ok_block [of l "fst c" "snd c"] by (auto simp: heap_ok_Cons)
  then show ?thesis using assms(3) apart_not_in_region apart_sym by blast
qed

lemma block_not_user:
  assumes "heap_ok l" and "b \<in> set l" and "in_region (fst b) (snd b) x"
  shows "\<not> is_user x"
proof -
  have "kernel_base \<le> fst b" "no_wrap (fst b) (snd b)"
    using heap_ok_block [OF assms(1), of "fst b" "snd b"] assms(2) by auto
  then have "kernel_base \<le> x" using assms(3) by (simp add: in_region_iff word_le_nat_alt)
  then show ?thesis by (rule kernel_not_user)
qed

lemma kmalloc_mem:
  "kmalloc al n s = (a, s') \<Longrightarrow> mem s' = mem s"
  by (auto simp: kmalloc_def Let_def split: if_splits)

lemma kmalloc_Some:
  "kmalloc al n s = (a, s') \<Longrightarrow> n \<noteq> 0 \<Longrightarrow> a \<noteq> 0 \<Longrightarrow>
     a = al (calls s) (live s) n \<and> s' = s\<lparr>calls := Suc (calls s), live := (a, n) # live s\<rparr>"
  by (auto simp: kmalloc_def Let_def split: if_splits)

lemma kmalloc_None:
  "kmalloc al n s = (a, s') \<Longrightarrow> n = 0 \<or> a = 0 \<Longrightarrow> live s' = live s"
  by (auto simp: kmalloc_def Let_def split: if_splits)

lemma alloc_okD:
  "alloc_ok al \<Longrightarrow> n \<noteq> 0 \<Longrightarrow> heap_ok l \<Longrightarrow> al k l n \<noteq> 0 \<Longrightarrow> heap_ok ((al k l n, n) # l)"
  by (simp add: alloc_ok_def)

lemma kmalloc_fresh:
  assumes "kmalloc al n s = (a, s')" and "alloc_ok al" and "heap_ok (live s)" and "n \<noteq> 0"
    and "a \<noteq> 0"
  shows "heap_ok ((a, n) # live s)" and "live s' = (a, n) # live s"
  using kmalloc_Some [OF assms(1,4,5)] alloc_okD [OF assms(2,4,3)] assms(5) by auto

lemma kmalloc_heap_ok:
  assumes "kmalloc al n s = (a, s')" and "alloc_ok al" and "heap_ok (live s)"
  shows "heap_ok (live s')"
proof (cases "n = 0 \<or> a = 0")
  case True
  then show ?thesis using kmalloc_None [OF assms(1)] assms(3) by simp
next
  case False
  then show ?thesis using kmalloc_fresh [OF assms] by simp
qed

lemma kfree_live:
  assumes "kfree p s = Inr s'"
  shows "set (live s') \<subseteq> set (live s)" and "mem s' = mem s"
  using assms by (auto simp: kfree_def split: if_splits)

lemma heap_step_refl [simp, intro]: "heap_step s s"
  by (simp add: heap_step_def)

lemma heap_step_trans [trans]: "heap_step s t \<Longrightarrow> heap_step t u \<Longrightarrow> heap_step s u"
  by (cases s; cases t; cases u) (simp add: heap_step_def)

lemma heap_step_mem: "heap_step s s' \<Longrightarrow> mem s' = mem s"
  by (cases s; cases s') (simp add: heap_step_def)

lemma kmalloc_heap_step: "kmalloc al n s = (a, s') \<Longrightarrow> heap_step s s'"
  by (auto simp: kmalloc_def Let_def heap_step_def split: if_splits)

lemma kfree_ok:
  assumes "p \<in> blocks s" and "heap_ok (live s)"
  obtains s' where "kfree p s = Inr s'" and "heap_step s s'" and "heap_ok (live s')"
    and "blocks s' = blocks s - {p}" and "live s' = filter (\<lambda>b. fst b \<noteq> p) (live s)"
proof -
  from assms obtain n where "(p, n) \<in> set (live s)" by (auto simp: blocks_def)
  then have "kernel_base \<le> p" using heap_ok_block assms(2) by blast
  then have nz: "p \<noteq> 0" "p \<noteq> ZERO_SIZE_PTR"
    using kernel_nonzero kernel_not_ZERO_SIZE_PTR by auto
  let ?s = "s\<lparr>live := filter (\<lambda>b. fst b \<noteq> p) (live s)\<rparr>"
  have "kfree p s = Inr ?s" using nz assms(1) by (auto simp: kfree_def blocks_def)
  moreover have "heap_step s ?s" by (simp add: heap_step_def)
  moreover have "blocks ?s = blocks s - {p}" by (auto simp: blocks_def)
  ultimately show ?thesis using that assms(2) by (simp add: heap_ok_filter)
qed

lemma keeps_refl [simp, intro]: "keeps B s s"
  by (simp add: keeps_def)

lemma keeps_trans: "keeps B s t \<Longrightarrow> keeps B t u \<Longrightarrow> keeps B s u"
  by (auto simp: keeps_def)

lemma keeps_mono: "keeps B s t \<Longrightarrow> B \<subseteq> C \<Longrightarrow> keeps C s t"
  by (auto simp: keeps_def)

lemma keeps_blocks: "keeps B s s' \<Longrightarrow> blocks s - B \<subseteq> blocks s'"
  by (auto simp: keeps_def blocks_def image_iff)

lemma kmalloc_keeps: "kmalloc al n s = (a, s') \<Longrightarrow> keeps B s s'"
  by (auto simp: kmalloc_def keeps_def Let_def split: if_splits)

lemma kfree_keeps: "kfree p s = Inr s' \<Longrightarrow> p \<in> B \<Longrightarrow> keeps B s s'"
  by (auto simp: kfree_def keeps_def split: if_splits)

lemma dup_cstr_keeps: "dup_cstr al str s = Inr (c, s') \<Longrightarrow> keeps B s s'"
  by (auto simp: dup_cstr_def split: prod.splits if_splits dest: kmalloc_keeps)

lemma dup_size_nonzero: "short_str str \<Longrightarrow> (of_nat (length str + 1) :: u64) \<noteq> 0"
proof
  assume "short_str str" and z: "(of_nat (length str + 1) :: u64) = 0"
  then have "length str + 1 < 2 ^ 64" by (simp add: short_str_def)
  then have "unat (of_nat (length str + 1) :: u64) = length str + 1"
    by (simp only: unat_of_nat) simp
  then show False using z by simp
qed

text \<open>Duplicating a string gives a fresh block, or faults when the allocator gives NULL.\<close>
lemma dup_cstr_cases:
  assumes "alloc_ok al" and "heap_ok (live s)" and "short_str str"
  obtains (null) "dup_cstr al str s = Inl NullDeref"
      and "\<not> allocs_ok al [of_nat (length str + 1)] s"
    | (ok) p s' where "dup_cstr al str s = Inr ((p, str), s')" and "heap_step s s'"
      and "live s' = (p, of_nat (length str + 1)) # live s"
      and "heap_ok (live s')" and "p \<notin> blocks s" and "blocks s' = insert p (blocks s)"
      and "allocs_ok al [of_nat (length str + 1)] s"
      and "kmalloc al (of_nat (length str + 1)) s = (p, s')"
proof -
  let ?n = "of_nat (length str + 1) :: u64"
  obtain p s' where k: "kmalloc al ?n s = (p, s')" by fastforce
  show ?thesis
  proof (cases "p = 0")
    case True
    then show ?thesis using null k by (simp add: dup_cstr_def)
  next
    case False
    have f: "heap_ok ((p, ?n) # live s)" "live s' = (p, ?n) # live s"
      using kmalloc_fresh [OF k assms(1,2) dup_size_nonzero [OF assms(3)] False] by auto
    have "p \<notin> blocks s" using heap_ok_fresh [OF f(1)] by (auto simp: blocks_def)
    moreover have "dup_cstr al str s = Inr ((p, str), s')"
      using k False by (simp add: dup_cstr_def)
    moreover have "blocks s' = insert p (blocks s)" using f(2) by (simp add: blocks_def)
    ultimately show ?thesis
      using ok [of p s'] f kmalloc_heap_step [OF k] k False by simp
  qed
qed

lemma accessible_in_block:
  assumes "heap_ok (live s)" and "(b, n) \<in> set (live s)" and "unat b \<le> unat a"
    and "unat a + k \<le> unat b + unat n"
  shows "accessible s a k"
  using assms heap_ok_block [OF assms(1,2)]
  by (auto simp: accessible_def list_ex_iff intro!: bexI [of _ "(b, n)"])

lemma hload_in_block:
  assumes "heap_ok (live s)" and "(b, n) \<in> set (live s)" and "unat b \<le> unat a"
    and "unat a + k \<le> unat b + unat n"
  shows "hload k a s = Inr (load_le k (mem s) a)"
proof -
  have "b \<noteq> 0" using heap_ok_block [OF assms(1,2)] kernel_nonzero by auto
  then have "a \<noteq> 0" using assms(3) by (auto simp: unat_eq_0 word_le_nat_alt)
  then show ?thesis using accessible_in_block [OF assms] by (simp add: hload_def)
qed

text \<open>Exactly one live block contains an address of the heap.\<close>
lemma find_block:
  assumes "heap_ok (live s)" and "(b, n) \<in> set (live s)" and "unat b \<le> unat p"
    and "unat p < unat b + unat n"
  shows "find (\<lambda>(b, n). no_wrap b n \<and> unat b \<le> unat p \<and> unat p < unat b + unat n) (live s) = Some (b, n)"
    (is "find ?P _ = _")
proof -
  have only: "c = (b, n)" if "c \<in> set (live s)" "?P c" for c
  proof (rule ccontr)
    assume "c \<noteq> (b, n)"
    obtain b' n' where c: "c = (b', n')" by (cases c)
    have "b' \<noteq> b"
      using that(1) c \<open>c \<noteq> (b, n)\<close> assms(2) eq_key_imp_eq_value [OF heap_ok_distinct [OF assms(1)]]
      by auto
    then have "apart b' n' b n" using heap_ok_apart [OF assms(1) _ assms(2)] that(1) c by simp
    then show False using that(2) c assms(3,4) by (auto simp: apart_def)
  qed
  have "?P (b, n)" using heap_ok_block [OF assms(1,2)] assms(3,4) by simp
  with assms(2) have "find ?P (live s) \<noteq> None" by (auto simp: find_None_iff)
  then obtain c where "find ?P (live s) = Some c" by blast
  moreover from this have "c \<in> set (live s)" "?P c" by (auto simp: find_Some_iff) (metis nth_mem)
  ultimately show ?thesis using only by simp
qed

lemma cstr_at_block:
  assumes "heap_ok (live s)" and "(b, n) \<in> set (live s)" and "unat b \<le> unat p"
    and "unat p < unat b + unat n"
  shows "cstr_at p s =
    (let bs = load_bytes (mem s) p (unat b + unat n - unat p)
     in if 0 \<in> set bs then Inr (takeWhile (\<lambda>c. c \<noteq> 0) bs) else Inl OutOfBounds)"
  unfolding cstr_at_def find_block [OF assms] by (simp add: load_bytes_def)

lemma bump_top_ge:
  "t \<le> fold (\<lambda>(a, m) t. max t (unat a + unat m)) l t"
proof (induction l arbitrary: t)
  case (Cons b l)
  have "t \<le> max t (unat (fst b) + unat (snd b))" by simp
  also note Cons.IH [of "max t (unat (fst b) + unat (snd b))"]
  finally show ?case by (simp add: case_prod_beta)
qed simp

lemma bump_top_block:
  "(a, n) \<in> set l \<Longrightarrow> unat a + unat n \<le> fold (\<lambda>(a, m) t. max t (unat a + unat m)) l t"
proof (induction l arbitrary: t)
  case (Cons b l)
  show ?case
  proof (cases "b = (a, n)")
    case True
    then show ?thesis
      using bump_top_ge [of "max t (unat a + unat n)" l] by auto
  next
    case False
    with Cons show ?thesis by (cases b) auto
  qed
qed simp

lemma alloc_ok_bump: "alloc_ok bump"
proof -
  have "heap_ok ((bump k l n, n) # l)" if "n \<noteq> 0" "heap_ok l" "bump k l n \<noteq> 0" for k l n
  proof -
    let ?t = "fold (\<lambda>(a, m) t. max t (unat a + unat m)) l (unat kernel_base)"
    have t: "?t + unat n < 2 ^ 64" and b: "bump k l n = of_nat ?t"
      using that(3) by (auto simp: bump_def heap_top_def Let_def split: if_splits)
    have u: "unat (bump k l n) = ?t"
      using t by (simp add: b unat_of_nat)
    have "kernel_base \<le> bump k l n" and "no_wrap (bump k l n) n"
      using t u bump_top_ge [of "unat kernel_base" l] by (auto simp: word_le_nat_alt no_wrap_def)
    then show ?thesis
      using that(1,2) u by (auto simp: heap_ok_Cons apart_def dest: bump_top_block)
  qed
  then show ?thesis by (simp add: alloc_ok_def)
qed

lemma heap_top_Cons: "heap_top ((a, n) # l) = max (unat a + unat n) (heap_top l)"
proof -
  have "fold (\<lambda>(a, m) t. max t (unat a + unat m)) l (max t x) =
      max x (fold (\<lambda>(a, m) t. max t (unat a + unat m)) l t)" for t x
  proof (induction l arbitrary: t)
    case (Cons b l)
    have "max (max t x) (unat (fst b) + unat (snd b)) = max (max t (unat (fst b) + unat (snd b))) x"
      by (simp add: max.commute max.left_commute)
    then show ?case using Cons.IH by (simp add: case_prod_beta)
  qed (simp add: max.commute)
  then show ?thesis by (simp add: heap_top_def)
qed

lemma kmalloc_bump:
  assumes "n \<noteq> 0" and "heap_top (live s) + unat n < 2 ^ 64"
  shows "kmalloc bump n s = (of_nat (heap_top (live s)),
      s\<lparr>calls := Suc (calls s), live := (of_nat (heap_top (live s)), n) # live s\<rparr>)"
    and "unat (of_nat (heap_top (live s)) :: u64) = heap_top (live s)"
    and "(of_nat (heap_top (live s)) :: u64) \<noteq> 0"
proof -
  show u: "unat (of_nat (heap_top (live s)) :: u64) = heap_top (live s)"
    using assms(2) by (simp add: unat_of_nat)
  have "unat kernel_base \<le> heap_top (live s)" unfolding heap_top_def by (rule bump_top_ge)
  then have "0 < heap_top (live s)" by (simp add: kernel_base_def)
  then show nz: "(of_nat (heap_top (live s)) :: u64) \<noteq> 0" using u by (metis less_numeral_extra(3) unat_0)
  show "kmalloc bump n s = (of_nat (heap_top (live s)),
      s\<lparr>calls := Suc (calls s), live := (of_nat (heap_top (live s)), n) # live s\<rparr>)"
    using assms nz by (simp add: kmalloc_def bump_def Let_def)
qed

text \<open>The allocator succeeds as long as there is room above the highest block.\<close>
lemma allocs_ok_bump:
  "0 \<notin> set ns \<Longrightarrow> heap_top (live s) + sum_list (map unat ns) < 2 ^ 64 \<Longrightarrow> allocs_ok bump ns s"
proof (induction ns arbitrary: s)
  case (Cons n ns)
  have n: "n \<noteq> 0" "heap_top (live s) + unat n < 2 ^ 64" using Cons.prems by auto
  note k = kmalloc_bump [OF n]
  have "heap_top ((of_nat (heap_top (live s)), n) # live s) = heap_top (live s) + unat n"
    by (simp add: heap_top_Cons k(2))
  then show ?case using Cons k(1,3) by simp
qed simp

end
