(* ===== verification/Mapper.thy ===== *)
theory Mapper
  imports Machine
begin

text \<open>
  The function table of the module, \<open>kernel_probe/mapper.c\<close>: a growing array of function
  names with the address ranges of their code. The array is one allocated block; \<open>cur\<close> and
  \<open>cap\<close>, which the C code keeps in the first element, are fields of the record that stands
  for the array, and an element that was never written is \<open>None\<close>. The number of elements is
  what the allocated bytes hold. The bytes of a name are part of the value that stands for it
  and not of the machine's memory, and the loop of a reallocation counts in natural numbers:
  the \<open>int\<close> of the code is compared with \<open>cur\<close> as an unsigned long, and the two agree up to
  2147483647 elements, more than 80 GB. The interface to the code that fills and asks the table is
  the locale \<open>func_table\<close>.
\<close>

section \<open>Data\<close>

record item_t =
  it_name :: cstr
  it_ip :: u64
  it_size :: u64

record mapper_t =
  mp_base :: addr
  mp_cur :: u64
  mp_cap :: u64
  mp_items :: "item_t option list"

definition sizeof_item :: u64 where
  "sizeof_item = 40"

text \<open>The elements of a block of that many bytes, none of them written.\<close>
definition new_items :: "u64 \<Rightarrow> item_t option list" where
  "new_items bytes = replicate (unat bytes div unat sizeof_item) None"

section \<open>Operations\<close>

definition init_mapper :: "alloc \<Rightarrow> u64 \<Rightarrow> 'a machine_scheme \<Rightarrow> (mapper_t option \<times> 'a machine_scheme) res" where
  "init_mapper al sz s =
     (let (a, s') = kmalloc al (sz * sizeof_item) s; its = new_items (sz * sizeof_item)
      in if a = 0 then Inr (None, s')
         else if its = [] then Inl OutOfBounds
         else Inr (Some \<lparr>mp_base = a, mp_cur = 0, mp_cap = sz, mp_items = its\<rparr>, s'))"

text \<open>The copying loop of a reallocation: \<open>n\<close> elements from the old array to the new one.\<close>
fun copy_items ::
  "alloc \<Rightarrow> nat \<Rightarrow> item_t option list \<Rightarrow> item_t option list \<Rightarrow> 'a machine_scheme
     \<Rightarrow> (item_t option list \<times> 'a machine_scheme) res" where
  "copy_items al 0 its news s = Inr (news, s)"
| "copy_items al (Suc n) [] news s = Inl OutOfBounds"
| "copy_items al (Suc n) (None # its) news s = Inl Uninitialised"
| "copy_items al (Suc n) (Some t1 # its) [] s = Inl OutOfBounds"
| "copy_items al (Suc n) (Some t1 # its) (t2 # news) s =
     bind_res (dup_cstr al (snd (it_name t1)) s) (\<lambda>(nm, s1).
     bind_res (kfree (fst (it_name t1)) s1) (\<lambda>s2.
     bind_res (copy_items al n its news s2) (\<lambda>(ts, s3).
     Inr (Some (t1\<lparr>it_name := nm\<rparr>) # ts, s3))))"

text \<open>Reallocation when the table is full. \<open>None\<close>: the new array could not be allocated.\<close>
definition grow_mapper :: "alloc \<Rightarrow> mapper_t \<Rightarrow> 'a machine_scheme \<Rightarrow> (mapper_t option \<times> 'a machine_scheme) res" where
  "grow_mapper al mp s =
     (let tmp_cap = 2 * mp_cap mp;
          (a, s1) = kmalloc al (tmp_cap * sizeof_item) s;
          news = new_items (tmp_cap * sizeof_item)
      in if a = 0 then Inr (None, s1)
         else if news = [] then Inl OutOfBounds
         else bind_res (copy_items al (unat (mp_cur mp)) (mp_items mp) news s1) (\<lambda>(its, s2).
              bind_res (kfree (mp_base mp) s2) (\<lambda>s3.
              Inr (Some \<lparr>mp_base = a, mp_cur = mp_cur mp, mp_cap = tmp_cap, mp_items = its\<rparr>, s3))))"

definition insert_mapper ::
  "alloc \<Rightarrow> mapper_t option \<Rightarrow> cstring \<Rightarrow> u64 \<Rightarrow> u64 \<Rightarrow> 'a machine_scheme
     \<Rightarrow> (int \<times> mapper_t option \<times> 'a machine_scheme) res" where
  "insert_mapper al mo nm ip sz s =
     (case mo of
        None \<Rightarrow> Inl NullDeref
      | Some mp \<Rightarrow>
          bind_res (if mp_cur mp = mp_cap mp then grow_mapper al mp s else Inr (Some mp, s)) (\<lambda>(r, s1).
          case r of
            None \<Rightarrow> Inr (-1, Some mp, s1)
          | Some mp1 \<Rightarrow>
              (let cur = unat (mp_cur mp)
               in if length (mp_items mp1) \<le> cur then Inl OutOfBounds
                  else bind_res (dup_cstr al nm s1) (\<lambda>(c, s2).
                       Inr (0, Some (mp1\<lparr>mp_items := (mp_items mp1)[cur := Some \<lparr>it_name = c, it_ip = ip, it_size = sz\<rparr>],
                                         mp_cur := mp_cur mp1 + 1\<rparr>), s2)))))"

fun free_names :: "nat \<Rightarrow> item_t option list \<Rightarrow> 'a machine_scheme \<Rightarrow> 'a machine_scheme res" where
  "free_names 0 its s = Inr s"
| "free_names (Suc n) [] s = Inl OutOfBounds"
| "free_names (Suc n) (None # its) s = Inl Uninitialised"
| "free_names (Suc n) (Some t # its) s = bind_res (kfree (fst (it_name t)) s) (free_names n its)"

definition destroy_mapper :: "mapper_t option \<Rightarrow> 'a machine_scheme \<Rightarrow> (int \<times> 'a machine_scheme) res" where
  "destroy_mapper mo s =
     (case mo of
        None \<Rightarrow> Inl NullDeref
      | Some mp \<Rightarrow>
          bind_res (free_names (unat (mp_cap mp)) (mp_items mp) s) (\<lambda>s1.
          bind_res (kfree (mp_base mp) s1) (\<lambda>s2. Inr (0, s2))))"

fun find_item :: "nat \<Rightarrow> item_t option list \<Rightarrow> u64 \<Rightarrow> cstring option res" where
  "find_item 0 its ip = Inr None"
| "find_item (Suc n) [] ip = Inl OutOfBounds"
| "find_item (Suc n) (None # its) ip = Inl Uninitialised"
| "find_item (Suc n) (Some t # its) ip =
     (if it_ip t \<le> ip \<and> ip < it_ip t + it_size t then Inr (Some (snd (it_name t)))
      else find_item n its ip)"

definition get_func_name :: "mapper_t option \<Rightarrow> u64 \<Rightarrow> cstring option res" where
  "get_func_name mo ip =
     (case mo of
        None \<Rightarrow> Inl NullDeref
      | Some mp \<Rightarrow> find_item (unat (mp_cur mp)) (mp_items mp) ip)"

section \<open>Specification\<close>

text \<open>The table as the list of its entries: name, first address, size.\<close>
type_synonym entry = "cstring \<times> u64 \<times> u64"

definition entry_of :: "item_t \<Rightarrow> entry" where
  "entry_of t = (snd (it_name t), it_ip t, it_size t)"

definition written :: "mapper_t \<Rightarrow> item_t list" where
  "written mp = map the (take (unat (mp_cur mp)) (mp_items mp))"

definition entries :: "mapper_t \<Rightarrow> entry list" where
  "entries mp = map entry_of (written mp)"

definition covers :: "entry \<Rightarrow> u64 \<Rightarrow> bool" where
  "covers e ip \<longleftrightarrow> (case e of (nm, a, z) \<Rightarrow> a \<le> ip \<and> ip < a + z)"

text \<open>The function an address belongs to: the first entry that covers it.\<close>
definition owner :: "entry list \<Rightarrow> u64 \<Rightarrow> cstring option" where
  "owner es ip = map_option fst (find (\<lambda>e. covers e ip) es)"

definition name_ptrs :: "item_t list \<Rightarrow> addr set" where
  "name_ptrs ts = set (map (fst \<circ> it_name) ts)"

text \<open>The blocks a table consists of.\<close>
definition owned :: "mapper_t \<Rightarrow> addr set" where
  "owned mp = insert (mp_base mp) (name_ptrs (written mp))"

text \<open>What holds of the elements written so far, and which blocks they own.\<close>
definition names_ok :: "item_t list \<Rightarrow> 'a machine_scheme \<Rightarrow> bool" where
  "names_ok ts s \<longleftrightarrow>
     distinct (map (fst \<circ> it_name) ts) \<and> name_ptrs ts \<subseteq> blocks s \<and>
     (\<forall>t \<in> set ts. short_str (snd (it_name t)))"

definition mapper_ok :: "mapper_t \<Rightarrow> 'a machine_scheme \<Rightarrow> bool" where
  "mapper_ok mp s \<longleftrightarrow>
     heap_ok (live s) \<and> mp_cap mp \<noteq> 0 \<and> unat (mp_cap mp) * 40 < 2 ^ 47 \<and>
     length (mp_items mp) = unat (mp_cap mp) \<and> mp_cur mp \<le> mp_cap mp \<and>
     None \<notin> set (take (unat (mp_cur mp)) (mp_items mp)) \<and>
     set (drop (unat (mp_cur mp)) (mp_items mp)) \<subseteq> {None} \<and>
     names_ok (written mp) s \<and> mp_base mp \<in> blocks s \<and>
     mp_base mp \<notin> name_ptrs (written mp)"

section \<open>Lemmas on the operations\<close>

lemma take_Suc_item:
  assumes "Suc n \<le> length its" and "None \<notin> set (take (Suc n) its)"
  obtains t its' where "its = Some t # its'" and "n \<le> length its'" and "None \<notin> set (take n its')"
  using assms by (cases its; cases "hd its") auto

lemma find_item_owner:
  "n \<le> length its \<Longrightarrow> None \<notin> set (take n its) \<Longrightarrow>
     find_item n its ip = Inr (owner (map entry_of (map the (take n its))) ip)"
proof (induction n arbitrary: its)
  case (Suc n)
  from take_Suc_item [OF Suc.prems] obtain t its' where "its = Some t # its'"
    and "n \<le> length its'" and "None \<notin> set (take n its')" .
  then show ?case using Suc.IH [of its'] by (simp add: owner_def covers_def entry_of_def)
qed (simp add: owner_def)

lemma name_ptrs_simps [simp]:
  "name_ptrs [] = {}" "name_ptrs (t # ts) = insert (fst (it_name t)) (name_ptrs ts)"
  by (simp_all add: name_ptrs_def)

lemma names_ok_Cons:
  "names_ok (t # ts) s \<longleftrightarrow>
     fst (it_name t) \<in> blocks s \<and> fst (it_name t) \<notin> name_ptrs ts \<and>
     short_str (snd (it_name t)) \<and> names_ok ts s"
  by (auto simp: names_ok_def name_ptrs_def)

lemma names_ok_mono:
  "names_ok ts s \<Longrightarrow> name_ptrs ts \<subseteq> blocks s' \<Longrightarrow> names_ok ts s'"
  by (auto simp: names_ok_def)

lemma names_ok_ptrs: "names_ok ts s \<Longrightarrow> name_ptrs ts \<subseteq> blocks s"
  by (simp add: names_ok_def)

text \<open>
  The copying loop, with a set \<open>K\<close> of blocks it must not touch: every name is duplicated into
  a fresh block and the old one freed exactly once.
\<close>
lemma copy_items_ok:
  assumes "alloc_ok al"
  shows "\<lbrakk>heap_ok (live s); n \<le> length its; n \<le> length news; None \<notin> set (take n its);
      names_ok (map the (take n its)) s; K \<subseteq> blocks s;
      K \<inter> name_ptrs (map the (take n its)) = {}\<rbrakk> \<Longrightarrow>
    copy_items al n its news s = Inl NullDeref \<or>
    (\<exists>ts s'. copy_items al n its news s = Inr (map Some ts @ drop n news, s') \<and> length ts = n \<and>
       map entry_of ts = map entry_of (map the (take n its)) \<and> heap_step s s' \<and>
       heap_ok (live s') \<and> names_ok ts s' \<and> K \<subseteq> blocks s' \<and>
       K \<inter> name_ptrs ts = {})"
proof (induction n arbitrary: its news s K)
  case 0
  then show ?case by (auto simp: names_ok_def)
next
  case (Suc n)
  from take_Suc_item [OF Suc.prems(2,4)] obtain t its' where its: "its = Some t # its'"
    and its': "n \<le> length its'" "None \<notin> set (take n its')" .
  from Suc.prems(3) obtain u news' where news: "news = u # news'" "n \<le> length news'"
    by (cases news) auto
  let ?q = "fst (it_name t)" and ?rest = "map the (take n its')"
  have nm: "?q \<in> blocks s" "?q \<notin> name_ptrs ?rest" "short_str (snd (it_name t))"
    "names_ok ?rest s"
    using Suc.prems(5) by (auto simp: its names_ok_Cons)
  from assms Suc.prems(1) nm(3) show ?case
  proof (cases rule: dup_cstr_cases)
    case null
    then show ?thesis by (simp add: its news)
  next
    case (ok p s1)
    have q1: "?q \<in> blocks s1" using nm(1) ok(6) by simp
    from q1 ok(4) obtain s2 where s2: "kfree ?q s1 = Inr s2" "heap_step s1 s2" "heap_ok (live s2)"
      "blocks s2 = blocks s1 - {?q}" by (rule kfree_ok)
    have pq: "p \<noteq> ?q" using ok(5) nm(1) by auto
    have sub: "name_ptrs ?rest \<subseteq> blocks s" using nm(4) by (simp add: names_ok_def)
    then have rest: "names_ok ?rest s2" using nm(2) ok(6) s2(4)
      by (intro names_ok_mono [OF nm(4)]) blast
    have K: "insert p K \<subseteq> blocks s2" "insert p K \<inter> name_ptrs ?rest = {}"
      using Suc.prems(6,7) ok(5,6) s2(4) pq sub by (auto simp: its)
    from Suc.IH [OF s2(3) its'(1) news(2) its'(2) rest K] show ?thesis
    proof
      assume "copy_items al n its' news' s2 = Inl NullDeref"
      then show ?thesis by (simp add: its news ok(1) s2(1))
    next
      assume "\<exists>ts s'. copy_items al n its' news' s2 = Inr (map Some ts @ drop n news', s') \<and>
         length ts = n \<and> map entry_of ts = map entry_of ?rest \<and> heap_step s2 s' \<and>
         heap_ok (live s') \<and> names_ok ts s' \<and> insert p K \<subseteq> blocks s' \<and>
         insert p K \<inter> name_ptrs ts = {}"
      then obtain ts s' where r: "copy_items al n its' news' s2 = Inr (map Some ts @ drop n news', s')"
        "length ts = n" "map entry_of ts = map entry_of ?rest" "heap_step s2 s'" "heap_ok (live s')"
        "names_ok ts s'" "insert p K \<subseteq> blocks s'" "insert p K \<inter> name_ptrs ts = {}"
        by blast
      let ?t = "t\<lparr>it_name := (p, snd (it_name t))\<rparr>"
      have "copy_items al (Suc n) its news s = Inr (map Some (?t # ts) @ drop (Suc n) news, s')"
        by (simp add: its news ok(1) s2(1) r(1))
      moreover have "heap_step s s'" using ok(2) s2(2) r(4) by (blast intro: heap_step_trans)
      moreover have "names_ok (?t # ts) s'" using r(6-8) nm(3) by (auto simp: names_ok_Cons)
      moreover have "K \<inter> name_ptrs (?t # ts) = {}"
        using r(8) Suc.prems(6) ok(5) by auto
      moreover have "map entry_of (?t # ts) = map entry_of (map the (take (Suc n) its))"
        using r(3) by (simp add: its entry_of_def)
      moreover have "length (?t # ts) = Suc n" "K \<subseteq> blocks s'" using r(2,7) by simp_all
      ultimately show ?thesis using r(5) by blast
    qed
  qed
qed

lemma unat_mult_item:
  "unat c * 40 < 2 ^ 64 \<Longrightarrow> unat (c * sizeof_item) = unat c * 40"
  by (simp add: sizeof_item_def unat_word_ariths)

lemma length_new_items: "unat c * 40 < 2 ^ 64 \<Longrightarrow> length (new_items (c * sizeof_item)) = unat c"
  by (simp add: new_items_def unat_mult_item) (simp add: sizeof_item_def)

lemma None_notin_map_Some [simp]: "None \<notin> set (map Some ts)"
  by auto

lemma copy_items_keeps:
  "copy_items al n its news s = Inr (r, s') \<Longrightarrow> keeps (name_ptrs (map the (take n its))) s s'"
proof (induction al n its news s arbitrary: r rule: copy_items.induct)
  case (5 al n t1 its t2 news s)
  let ?B = "insert (fst (it_name t1)) (name_ptrs (map the (take n its)))"
  from 5(2) obtain nm s1 s2 ts where
    d: "dup_cstr al (snd (it_name t1)) s = Inr (nm, s1)" "kfree (fst (it_name t1)) s1 = Inr s2"
    "copy_items al n its news s2 = Inr (ts, s')"
    by (auto simp: bind_res_eq_Inr)
  have "keeps ?B s s1" by (rule dup_cstr_keeps [OF d(1)])
  moreover have "keeps ?B s1 s2" by (rule kfree_keeps [OF d(2)]) simp
  moreover have "keeps ?B s2 s'" using 5(1) [OF d(1) refl d(2,3)] by (rule keeps_mono) blast
  ultimately show ?case by (auto intro: keeps_trans)
qed (auto simp: bind_res_eq_Inr)

lemma mapper_okD:
  assumes "mapper_ok mp s"
  shows "heap_ok (live s)" "0 < unat (mp_cap mp)" "unat (mp_cap mp) * 40 < 2 ^ 47"
    "length (mp_items mp) = unat (mp_cap mp)" "unat (mp_cur mp) \<le> unat (mp_cap mp)"
    "None \<notin> set (take (unat (mp_cur mp)) (mp_items mp))" "names_ok (written mp) s"
    "name_ptrs (written mp) \<subseteq> blocks s" "mp_base mp \<in> blocks s"
    "mp_base mp \<notin> name_ptrs (written mp)"
    "set (drop (unat (mp_cur mp)) (mp_items mp)) \<subseteq> {None}"
  using assms unfolding mapper_ok_def names_ok_def name_ptrs_def
  by (simp_all add: unat_gt_0 word_le_nat_alt)

lemma copy_items_cases:
  assumes "alloc_ok al" and "mapper_ok mp s" and "heap_step s s1" and "heap_ok (live s1)"
    and "blocks s1 = insert a (blocks s)" and "a \<notin> blocks s"
    and "unat (mp_cur mp) \<le> length news"
  obtains (null) "copy_items al (unat (mp_cur mp)) (mp_items mp) news s1 = Inl NullDeref"
    | (ok) ts s2 where
      "copy_items al (unat (mp_cur mp)) (mp_items mp) news s1 =
         Inr (map Some ts @ drop (unat (mp_cur mp)) news, s2)"
      "length ts = unat (mp_cur mp)" "map entry_of ts = entries mp" "heap_step s s2"
      "heap_ok (live s2)" "names_ok ts s2" "insert a (blocks s - name_ptrs (written mp)) \<subseteq> blocks s2"
      "insert a (blocks s - name_ptrs (written mp)) \<inter> name_ptrs ts = {}"
proof -
  note d = mapper_okD [OF assms(2)]
  let ?n = "unat (mp_cur mp)" and ?its = "mp_items mp" 
    and ?K = "insert a (blocks s - name_ptrs (written mp))"
  have w: "map the (take ?n ?its) = written mp" by (simp add: written_def)
  have "names_ok (written mp) s1"
    by (rule names_ok_mono [OF d(7)]) (use d(8) assms(5) in blast)
  moreover have "?K \<subseteq> blocks s1" "?K \<inter> name_ptrs (written mp) = {}"
    using d(8) assms(5,6) by auto
  moreover have "?n \<le> length ?its" using d(4,5) by simp
  ultimately have "copy_items al ?n ?its news s1 = Inl NullDeref \<or>
    (\<exists>ts s2. copy_items al ?n ?its news s1 = Inr (map Some ts @ drop ?n news, s2) \<and>
       length ts = ?n \<and> map entry_of ts = map entry_of (map the (take ?n ?its)) \<and> heap_step s1 s2 \<and>
       heap_ok (live s2) \<and> names_ok ts s2 \<and> ?K \<subseteq> blocks s2 \<and> ?K \<inter> name_ptrs ts = {})"
    using assms(4,7) d(6) by (intro copy_items_ok [OF assms(1)]) (simp_all only: w not_False_eq_True)
  then show ?thesis
  proof (elim disjE exE conjE)
    fix ts s2
    assume "heap_step s1 s2"
    then have "heap_step s s2" using assms(3) heap_step_trans by blast
    moreover assume "copy_items al ?n ?its news s1 = Inr (map Some ts @ drop ?n news, s2)"
      "length ts = ?n" "map entry_of ts = map entry_of (map the (take ?n ?its))"
      "heap_ok (live s2)" "names_ok ts s2" "?K \<subseteq> blocks s2" "?K \<inter> name_ptrs ts = {}"
    ultimately show ?thesis by (intro ok) (simp_all only: w entries_def)
  qed (rule null)
qed

lemma mapper_ok_grown:
  assumes "heap_ok (live s)" and "0 < unat c" and "unat c * 80 < 2 ^ 47" and "length ts = unat c"
    and "names_ok ts s" and "a \<in> blocks s" and "a \<notin> name_ptrs ts" and "length rest = unat c"
    and "set rest \<subseteq> {None}"
  defines "mp \<equiv> \<lparr>mp_base = a, mp_cur = c, mp_cap = 2 * c, mp_items = map Some ts @ rest\<rparr>"
  shows "mapper_ok mp s" and "written mp = ts" and "mp_cur mp < mp_cap mp"
proof -
  have c2: "unat (2 * c) = 2 * unat c" using assms(3) by (simp add: unat_word_ariths)
  then have nz: "2 * c \<noteq> 0" using assms(2) by (metis mult_is_0 neq0_conv unat_0 zero_neq_numeral)
  show w: "written mp = ts" using assms(4) by (simp add: written_def mp_def comp_def)
  show "mp_cur mp < mp_cap mp" using c2 assms(2) by (simp add: mp_def word_less_nat_alt)
  then show "mapper_ok mp s"
    using assms c2 nz w by (simp add: mapper_ok_def mp_def)
qed

text \<open>A reallocation keeps every entry and leaves room for the next one.\<close>
lemma grow_mapper_cases:
  assumes al: "alloc_ok al" and ok: "mapper_ok mp s" and full: "mp_cur mp = mp_cap mp"
  obtains (null) "grow_mapper al mp s = Inl NullDeref"
    | (fail) s' where "grow_mapper al mp s = Inr (None, s')" "heap_step s s'" "live s' = live s"
    | (grown) mp' s' where "grow_mapper al mp s = Inr (Some mp', s')" "mapper_ok mp' s'"
      "entries mp' = entries mp" "mp_cur mp' = mp_cur mp" "mp_cur mp' < mp_cap mp'" "heap_step s s'"
      "keeps (owned mp) s s'" "owned mp' \<inter> blocks s \<subseteq> owned mp"
proof -
  note d = mapper_okD [OF ok]
  let ?n = "2 * mp_cap mp * sizeof_item" and ?c = "unat (mp_cap mp)"
  have c2: "unat (2 * mp_cap mp) = 2 * ?c" using d(3) by (simp add: unat_word_ariths)
  have n: "unat ?n = 80 * ?c" using d(3) c2 by (simp add: unat_mult_item)
  have n0: "?n \<noteq> 0" using n d(2) by (metis mult_is_0 neq0_conv unat_0 zero_neq_numeral)
  have len: "length (new_items ?n) = 2 * ?c" using d(3) c2 by (simp add: length_new_items)
  then have ne: "new_items ?n \<noteq> []" using d(2) by auto
  obtain a s1 where k: "kmalloc al ?n s = (a, s1)" by fastforce
  show ?thesis
  proof (cases "a = 0")
    case True
    then show ?thesis using fail [of s1] k kmalloc_None [OF k] kmalloc_heap_step [OF k]
      by (simp add: grow_mapper_def)
  next
    case False
    note f = kmalloc_fresh [OF k al d(1) n0 False]
    have small: "80 * ?c < 2 ^ 47" using f(1) n by (auto simp: heap_ok_Cons dest: block_small)
    have bl: "a \<notin> blocks s" "blocks s1 = insert a (blocks s)" "heap_ok (live s1)"
      using heap_ok_fresh [OF f(1)] f by (simp_all add: blocks_def)
    have "unat (mp_cur mp) \<le> length (new_items ?n)" using len full by simp
    with al ok kmalloc_heap_step [OF k] bl(3,2,1) show ?thesis
    proof (cases rule: copy_items_cases)
      case null
      then show ?thesis using that(1) k False ne by (simp add: grow_mapper_def)
    next
      case (ok ts s2)
      from ok(7) d(9,10) have "mp_base mp \<in> blocks s2" by auto
      then obtain s3 where s3: "kfree (mp_base mp) s2 = Inr s3" "heap_step s2 s3"
        "heap_ok (live s3)" "blocks s3 = blocks s2 - {mp_base mp}" using ok(5) by (rule kfree_ok)
      have "names_ok ts s3"
        by (rule names_ok_mono [OF ok(6)])
          (use names_ok_ptrs [OF ok(6)] ok(8) s3(4) d(9,10) in blast)
      moreover have "a \<in> blocks s3" using ok(7) s3(4) bl(1) d(9) by auto
      ultimately have m: "heap_ok (live s3)" "0 < ?c" "?c * 80 < 2 ^ 47" "length ts = ?c"
        "names_ok ts s3" "a \<in> blocks s3" "a \<notin> name_ptrs ts" "length (drop ?c (new_items ?n)) = ?c"
        "set (drop ?c (new_items ?n)) \<subseteq> {None}"
        using ok(2,8) s3(3) d(2) small len full by (auto simp: new_items_def)
      note g = mapper_ok_grown [OF m]
      have "keeps (owned mp) s1 s2"
        using copy_items_keeps [OF ok(1)] by (rule keeps_mono) (auto simp: owned_def written_def)
      moreover have "keeps (owned mp) s2 s3" by (rule kfree_keeps [OF s3(1)]) (simp add: owned_def)
      ultimately have kp: "keeps (owned mp) s s3"
        using kmalloc_keeps [OF k] keeps_trans by blast
      have fresh: "insert a (name_ptrs ts) \<inter> blocks s \<subseteq> owned mp"
        using ok(8) bl(1) by (auto simp: owned_def)
      show ?thesis
        by (rule grown [OF _ g(1) _ _ _ _ kp])
          (use k False ne ok(1,3,4) s3(1,2) full g(2,3) fresh in
            \<open>simp_all add: grow_mapper_def Let_def entries_def owned_def heap_step_trans [of s s2 s3]\<close>)
    qed
  qed
qed

text \<open>Writing the next element of a table that has room.\<close>
lemma mapper_ok_insert:
  fixes a z :: u64
  assumes ok: "mapper_ok mp s" and room: "mp_cur mp < mp_cap mp" and str: "short_str nm"
    and p: "p \<notin> blocks s" "blocks s' = insert p (blocks s)" and h: "heap_ok (live s')"
  defines "mp' \<equiv> mp\<lparr>mp_items := (mp_items mp)[unat (mp_cur mp) := Some \<lparr>it_name = (p, nm), it_ip = a, it_size = z\<rparr>],
                    mp_cur := mp_cur mp + 1\<rparr>"
  shows "mapper_ok mp' s'" and "entries mp' = entries mp @ [(nm, a, z)]"
    and "owned mp' = insert p (owned mp)"
proof -
  note d = mapper_okD [OF ok]
  let ?c = "unat (mp_cur mp)"
  let ?t = "\<lparr>it_name = (p, nm), it_ip = a, it_size = z\<rparr>"
  have lt: "?c < length (mp_items mp)" using room d(4) by (simp add: word_less_nat_alt)
  have c1: "unat (mp_cur mp + 1) = Suc ?c"
    using room by (rule unat_plus_1)
  have tk: "take (Suc ?c) ((mp_items mp)[?c := Some ?t]) = take ?c (mp_items mp) @ [Some ?t]"
    using lt by (simp add: take_Suc_conv_app_nth)
  have w: "written mp' = written mp @ [?t]"
    by (simp add: written_def mp'_def c1 tk)
  show "entries mp' = entries mp @ [(nm, a, z)]"
    by (simp add: entries_def w entry_of_def)
  have "owned mp' = insert (mp_base mp') (name_ptrs (written mp @ [?t]))"
    by (simp add: owned_def w)
  then show "owned mp' = insert p (owned mp)" by (auto simp: owned_def name_ptrs_def mp'_def)
  have "p \<notin> name_ptrs (written mp)" using d(8) p(1) by blast
  moreover have "names_ok (written mp) s'"
    by (rule names_ok_mono [OF d(7)]) (use d(8) p(2) in blast)
  ultimately have "names_ok (written mp @ [?t]) s'"
    using p str by (auto simp: names_ok_def name_ptrs_def)
  moreover have "mp_base mp \<notin> name_ptrs (written mp @ [?t])"
    using d(9,10) p(1) by (auto simp: name_ptrs_def)
  moreover have "mp_cur mp + 1 \<le> mp_cap mp" using room by (rule plus_1_le)
  moreover have "None \<notin> set (take (Suc ?c) ((mp_items mp)[?c := Some ?t]))"
    using d(6) by (simp only: tk) simp
  moreover have "set (drop (Suc ?c) ((mp_items mp)[?c := Some ?t])) \<subseteq> {None}"
    using d(11) set_drop_subset_set_drop [of ?c "Suc ?c" "mp_items mp"] by (simp add: subset_iff)
  ultimately show "mapper_ok mp' s'"
    using ok h p(2) unfolding mapper_ok_def w by (simp add: mp'_def c1)
qed

text \<open>
  Every outcome of \<open>insert_mapper\<close> on a well-formed table: the entry is appended, or the
  table is full and could not grow, or the unchecked allocation of a name gave NULL.
\<close>
lemma insert_mapper_cases:
  assumes al: "alloc_ok al" and ok: "mapper_ok mp s" and str: "short_str nm"
  obtains (null) "insert_mapper al (Some mp) nm a z s = Inl NullDeref"
    | (fail) s' where "insert_mapper al (Some mp) nm a z s = Inr (-1, Some mp, s')"
      "heap_step s s'" "mapper_ok mp s'" "mp_cur mp = mp_cap mp" "live s' = live s"
    | (inserted) mp' s' where "insert_mapper al (Some mp) nm a z s = Inr (0, Some mp', s')"
      "heap_step s s'" "mapper_ok mp' s'" "entries mp' = entries mp @ [(nm, a, z)]"
      "keeps (owned mp) s s'" "owned mp' \<inter> blocks s \<subseteq> owned mp"
proof -
  note outcomes = that
  have tail: thesis
    if m: "mapper_ok m t" "mp_cur m < mp_cap m" "entries m = entries mp" "mp_cur m = mp_cur mp"
      "heap_step s t" "keeps (owned mp) s t" "owned m \<inter> blocks s \<subseteq> owned mp"
      and e: "(if mp_cur mp = mp_cap mp then grow_mapper al mp s else Inr (Some mp, s)) = Inr (Some m, t)"
    for m t
  proof -
    note d = mapper_okD [OF m(1)]
    have lt: "\<not> length (mp_items m) \<le> unat (mp_cur mp)"
      using m(2,4) d(4) by (simp add: word_less_nat_alt)
    from al d(1) str show thesis
    proof (cases rule: dup_cstr_cases)
      case null
      then show ?thesis using outcomes(1) e lt by (simp add: insert_mapper_def)
    next
      case (ok p s')
      note i = mapper_ok_insert [OF m(1,2) str ok(5,6,4), of a z]
      have kp: "keeps (owned mp) s s'" using m(6) dup_cstr_keeps [OF ok(1)] keeps_trans by blast
      have "p \<notin> blocks s - owned mp" using keeps_blocks [OF m(6)] ok(5) by blast
      then have "insert p (owned m) \<inter> blocks s \<subseteq> owned mp" using m(7) by blast
      then show ?thesis
        by (intro outcomes(3) [OF _ heap_step_trans [OF m(5) ok(2)] i(1) _ kp])
          (use e lt ok(1) m(3,4) i(2,3) in \<open>simp_all add: insert_mapper_def\<close>)
    qed
  qed
  show thesis
  proof (cases "mp_cur mp = mp_cap mp")
    case True
    with al ok show ?thesis
    proof (cases rule: grow_mapper_cases)
      case null
      then show ?thesis using outcomes(1) True by (simp add: insert_mapper_def)
    next
      case (fail s')
      then have "mapper_ok mp s'" using ok by (simp add: mapper_ok_def names_ok_def blocks_def)
      then show ?thesis using outcomes(2) fail True by (simp add: insert_mapper_def)
    next
      case (grown mp' s')
      then show ?thesis using tail [of mp' s'] True by simp
    qed
  next
    case False
    moreover have "mp_cur mp < mp_cap mp"
      using False ok by (simp add: mapper_ok_def order_less_le)
    ultimately show ?thesis using tail [OF ok] by simp
  qed
qed

section \<open>The interface of the table\<close>

text \<open>
  What the ELF reader and the system-call handlers rely on: a table \<open>t\<close> in a state \<open>s\<close> that
  is \<open>ok\<close> holds the entries \<open>ents t\<close>; \<open>ins\<close> appends one or, returning something other than
  0, leaves the table as it was; \<open>look\<close> finds the first entry that covers an address.
\<close>

fun insert_all ::
  "('t \<Rightarrow> cstring \<Rightarrow> u64 \<Rightarrow> u64 \<Rightarrow> 's \<Rightarrow> (int \<times> 't \<times> 's) res) \<Rightarrow> entry list \<Rightarrow> 't \<Rightarrow> 's
     \<Rightarrow> (int \<times> 't \<times> 's) res" where
  "insert_all ins [] t s = Inr (0, t, s)"
| "insert_all ins ((nm, a, z) # es) t s =
     bind_res (ins t nm a z s) (\<lambda>(r, t', s').
     if r = -1 then Inr (-1, t', s') else insert_all ins es t' s')"

locale func_table =
  fixes ins :: "'t \<Rightarrow> cstring \<Rightarrow> u64 \<Rightarrow> u64 \<Rightarrow> 's \<Rightarrow> (int \<times> 't \<times> 's) res"
    and look :: "'t \<Rightarrow> u64 \<Rightarrow> cstring option res"
    and ok :: "'t \<Rightarrow> 's \<Rightarrow> bool"
    and ents :: "'t \<Rightarrow> entry list"
    and good_name :: "cstring \<Rightarrow> bool"
  assumes ins_0: "\<lbrakk>ok t s; good_name nm; ins t nm a z s = Inr (r, t', s'); r = 0\<rbrakk>
      \<Longrightarrow> ok t' s' \<and> ents t' = ents t @ [(nm, a, z)]"
    and ins_fail: "\<lbrakk>ok t s; good_name nm; ins t nm a z s = Inr (r, t', s'); r \<noteq> 0\<rbrakk>
      \<Longrightarrow> r = -1 \<and> ok t' s' \<and> ents t' = ents t"
    and ins_fault: "\<lbrakk>ok t s; good_name nm; ins t nm a z s = Inl f\<rbrakk> \<Longrightarrow> f = NullDeref"
    and look_owner: "ok t s \<Longrightarrow> look t ip = Inr (owner (ents t) ip)"
begin

lemma ins_ok:
  assumes "ok t s" and "good_name nm" and "ins t nm a z s = Inr (r, t', s')"
  shows "ok t' s'"
  using ins_0 [OF assms] ins_fail [OF assms] by blast

text \<open>A new entry answers for the addresses no earlier entry covers, and for no others.\<close>
lemma look_after_ins:
  assumes "ok t s" and "good_name nm" and "ins t nm a z s = Inr (0, t', s')"
  shows "look t' ip =
    Inr (case owner (ents t) ip of Some f \<Rightarrow> Some f
         | None \<Rightarrow> if covers (nm, a, z) ip then Some nm else None)"
proof -
  from ins_0 [OF assms] have t': "ok t' s'" "ents t' = ents t @ [(nm, a, z)]" by auto
  then show ?thesis
    by (simp add: look_owner [OF t'(1)] owner_def find_append split: option.splits)
qed

lemma insert_all_ok:
  assumes "insert_all ins es t s = Inr (r, t', s')" and "ok t s" and "\<forall>e \<in> set es. good_name (fst e)"
  shows "ok t' s' \<and> (r = 0 \<longrightarrow> ents t' = ents t @ es) \<and>
    (r \<noteq> 0 \<longrightarrow> r = -1 \<and> (\<exists>n < length es. ents t' = ents t @ take n es))"
  using assms
proof (induction es arbitrary: t s)
  case (Cons e es)
  obtain nm a z where e: "e = (nm, a, z)" by (cases e)
  from Cons.prems(1) obtain r1 t1 s1 where i: "ins t nm a z s = Inr (r1, t1, s1)"
    and rest: "(if r1 = -1 then Inr (-1, t1, s1) else insert_all ins es t1 s1) = Inr (r, t', s')"
    by (auto simp: e bind_res_eq_Inr)
  have g: "good_name nm" using Cons.prems(3) e by simp
  show ?case
  proof (cases "r1 = 0")
    case True
    with ins_0 [OF Cons.prems(2) g i] have t1: "ok t1 s1" "ents t1 = ents t @ [e]" by (auto simp: e)
    have "insert_all ins es t1 s1 = Inr (r, t', s')" using rest True by simp
    from Cons.IH [OF this t1(1)] Cons.prems(3) show ?thesis
      by (auto simp: t1(2) intro: exI [of _ "Suc n" for n])
  next
    case False
    with ins_fail [OF Cons.prems(2) g i] rest show ?thesis
      by (auto intro: exI [of _ 0])
  qed
qed simp

lemma insert_all_fault:
  "insert_all ins es t s = Inl f \<Longrightarrow> ok t s \<Longrightarrow> \<forall>e \<in> set es. good_name (fst e) \<Longrightarrow> f = NullDeref"
proof (induction es arbitrary: t s)
  case (Cons e es)
  obtain nm a z where e: "e = (nm, a, z)" by (cases e)
  have g: "good_name nm" using Cons.prems(3) e by simp
  show ?case
  proof (cases "ins t nm a z s")
    case (Inl f')
    with Cons.prems(1) have "f' = f" by (simp add: e)
    with ins_fault [OF Cons.prems(2) g Inl] show ?thesis by simp
  next
    case (Inr x)
    obtain r1 t1 s1 where x: "x = (r1, t1, s1)" by (cases x)
    have "ok t1 s1" using ins_ok [OF Cons.prems(2) g] Inr x by simp
    then show ?thesis
      using Cons.IH [of t1 s1] Cons.prems Inr x by (auto simp: e split: if_splits)
  qed
qed simp

end

definition table_ok :: "alloc \<Rightarrow> mapper_t option \<Rightarrow> 'a machine_scheme \<Rightarrow> bool" where
  "table_ok al mo s \<longleftrightarrow> alloc_ok al \<and> (\<exists>mp. mo = Some mp \<and> mapper_ok mp s)"

definition table_entries :: "mapper_t option \<Rightarrow> entry list" where
  "table_entries mo = (case mo of None \<Rightarrow> [] | Some mp \<Rightarrow> entries mp)"

interpretation ft: func_table "insert_mapper al" get_func_name "table_ok al" table_entries short_str
  for al
proof
  fix t :: "mapper_t option" and s s' :: "'a machine_scheme" and nm a z r t'
  assume t: "table_ok al t s" and nm: "short_str nm"
  then obtain mp where al: "alloc_ok al" and mp: "t = Some mp" "mapper_ok mp s"
    by (auto simp: table_ok_def)
  note c = insert_mapper_cases [OF al mp(2) nm, of a z]
  {
    assume "insert_mapper al t nm a z s = Inr (r, t', s')" and "r = 0"
    then show "table_ok al t' s' \<and> table_entries t' = table_entries t @ [(nm, a, z)]"
      using al by (cases rule: c) (auto simp: mp(1) table_ok_def table_entries_def)
  next
    assume "insert_mapper al t nm a z s = Inr (r, t', s')" and "r \<noteq> 0"
    then show "r = -1 \<and> table_ok al t' s' \<and> table_entries t' = table_entries t"
      using al by (cases rule: c) (auto simp: mp(1) table_ok_def table_entries_def)
  next
    fix f
    assume "insert_mapper al t nm a z s = Inl f"
    then show "f = NullDeref" by (cases rule: c) (auto simp: mp(1))
  }
next
  fix t :: "mapper_t option" and s :: "'a machine_scheme" and ip
  assume "table_ok al t s"
  then obtain mp where mp: "t = Some mp" "mapper_ok mp s" by (auto simp: table_ok_def)
  note d = mapper_okD [OF mp(2)]
  have "unat (mp_cur mp) \<le> length (mp_items mp)" using d(4,5) by simp
  then show "get_func_name t ip = Inr (owner (table_entries t) ip)"
    using find_item_owner [OF _ d(6)]
    by (simp add: mp(1) get_func_name_def table_entries_def entries_def written_def)
qed

section \<open>Properties\<close>

lemma item_bytes:
  assumes "sz \<noteq> 0" and "unat sz * 40 < 2 ^ 47"
  shows "sz * sizeof_item \<noteq> 0"
proof -
  have "unat (sz * sizeof_item) = unat sz * 40" using assms(2) by (simp add: unat_mult_item)
  then show ?thesis using assms(1) by (metis mult_is_0 unat_0 unat_eq_zero zero_neq_numeral)
qed

lemma new_table_ok:
  assumes "alloc_ok al" and "heap_ok (live s)" and "sz \<noteq> 0" and "unat sz * 40 < 2 ^ 47"
    and "kmalloc al (sz * sizeof_item) s = (a, s')" and "a \<noteq> 0"
  defines "mp \<equiv> \<lparr>mp_base = a, mp_cur = 0, mp_cap = sz, mp_items = new_items (sz * sizeof_item)\<rparr>"
  shows "mapper_ok mp s'" and "entries mp = []" and "new_items (sz * sizeof_item) \<noteq> []"
proof -
  have n0: "sz * sizeof_item \<noteq> 0" by (rule item_bytes [OF assms(3,4)])
  note f = kmalloc_fresh [OF assms(5,1,2) n0 assms(6)]
  have len: "length (new_items (sz * sizeof_item)) = unat sz"
    using assms(4) by (simp add: length_new_items)
  then show "new_items (sz * sizeof_item) \<noteq> []" using assms(3) by (auto simp: unat_eq_zero)
  show "entries mp = []" by (simp add: entries_def written_def mp_def)
  show "mapper_ok mp s'"
    using f assms(3,4) len
    by (auto simp: mapper_ok_def mp_def written_def names_ok_def blocks_def new_items_def)
qed

text \<open>
  C20. A new table: when the allocator has a block for the elements, \<open>init_mapper\<close> returns a
  well-formed table in a block that was not in use, which resolves no address; it returns NULL
  exactly when the allocator has none, and then no block was taken. Memory is not touched.
\<close>
theorem init_mapper_ok:
  assumes "alloc_ok al" and "heap_ok (live s)" and "sz \<noteq> 0" and "unat sz * 40 < 2 ^ 47"
  shows "if allocs_ok al [sz * sizeof_item] s
    then \<exists>mp s'. init_mapper al sz s = Inr (Some mp, s') \<and> mapper_ok mp s' \<and> entries mp = [] \<and>
      (\<forall>ip. get_func_name (Some mp) ip = Inr None) \<and> mp_base mp \<notin> blocks s \<and>
      blocks s' = insert (mp_base mp) (blocks s) \<and> mem s' = mem s
    else \<exists>s'. init_mapper al sz s = Inr (None, s') \<and> live s' = live s \<and> mem s' = mem s"
proof -
  obtain a s' where k: "kmalloc al (sz * sizeof_item) s = (a, s')" by fastforce
  show ?thesis
  proof (cases "a = 0")
    case True
    then show ?thesis using k kmalloc_None [OF k] kmalloc_mem [OF k] by (simp add: init_mapper_def)
  next
    case False
    note n = new_table_ok [OF assms k False]
    let ?mp = "\<lparr>mp_base = a, mp_cur = 0, mp_cap = sz, mp_items = new_items (sz * sizeof_item)\<rparr>"
    have i: "init_mapper al sz s = Inr (Some ?mp, s')" "mapper_ok ?mp s'" "entries ?mp = []"
      using k False n by (simp_all add: init_mapper_def)
    have nz: "sz * sizeof_item \<noteq> 0" by (rule item_bytes [OF assms(3,4)])
    note f = kmalloc_fresh [OF k assms(1,2) nz False]
    have "a \<notin> blocks s" "blocks s' = insert a (blocks s)"
      using heap_ok_fresh [OF f(1)] f(2) by (auto simp: blocks_def)
    moreover have "get_func_name (Some ?mp) ip = Inr None" for ip
      using ft.look_owner [of al "Some ?mp" s' ip] i(2,3) assms(1)
      by (simp add: table_ok_def table_entries_def owner_def)
    ultimately show ?thesis using i k False kmalloc_mem [OF k] by auto
  qed
qed

text \<open>
  C10. On a well-formed table \<open>insert_mapper\<close> has three outcomes only: it returns 0 with the
  entry appended behind all the old ones, which a reallocation keeps; it returns -1 with the
  table as it was; or it runs into the NULL that an unchecked allocation of a name gave. It
  never reads an element that was not written, never leaves the array, never frees a block
  twice, and never touches other memory.
\<close>
theorem insert_mapper_safe:
  assumes "alloc_ok al" and "mapper_ok mp s" and "short_str nm"
  shows "insert_mapper al (Some mp) nm a z s = Inl NullDeref \<or>
    (\<exists>s'. insert_mapper al (Some mp) nm a z s = Inr (-1, Some mp, s') \<and> mapper_ok mp s' \<and>
       mem s' = mem s) \<or>
    (\<exists>mp' s'. insert_mapper al (Some mp) nm a z s = Inr (0, Some mp', s') \<and> mapper_ok mp' s' \<and>
       entries mp' = entries mp @ [(nm, a, z)] \<and> mem s' = mem s)"
  using insert_mapper_cases [OF assms, of a z] heap_step_mem by metis

text \<open>
  C11. After a successful insertion the table answers for every address: with the function
  that covered it before, and with the new one for the addresses of its range that no
  earlier entry covers.
\<close>
theorem insert_mapper_lookup:
  assumes "alloc_ok al" and "mapper_ok mp s" and "short_str nm"
    and "insert_mapper al (Some mp) nm a z s = Inr (0, mo', s')"
  shows "get_func_name mo' ip =
    Inr (case owner (entries mp) ip of Some f \<Rightarrow> Some f
         | None \<Rightarrow> if covers (nm, a, z) ip then Some nm else None)"
proof -
  have "table_ok al (Some mp) s" using assms(1,2) by (simp add: table_ok_def)
  from ft.look_after_ins [OF this assms(3,4)] show ?thesis by (simp add: table_entries_def)
qed

lemma free_names_ok:
  "\<lbrakk>heap_ok (live s); names_ok ts s\<rbrakk> \<Longrightarrow>
     \<exists>s'. (\<forall>n. free_names (length ts + n) (map Some ts @ rest) s = free_names n rest s') \<and>
       heap_ok (live s') \<and> blocks s' = blocks s - name_ptrs ts"
proof (induction ts arbitrary: s)
  case (Cons t ts)
  then have t: "fst (it_name t) \<in> blocks s" "fst (it_name t) \<notin> name_ptrs ts" "names_ok ts s"
    by (auto simp: names_ok_Cons)
  from t(1) Cons.prems(1) obtain s1 where s1: "kfree (fst (it_name t)) s = Inr s1"
    "heap_ok (live s1)" "blocks s1 = blocks s - {fst (it_name t)}" by (rule kfree_ok)
  have "names_ok ts s1"
    by (rule names_ok_mono [OF t(3)]) (use names_ok_ptrs [OF t(3)] t(2) s1(3) in blast)
  from Cons.IH [OF s1(2) this] show ?case by (auto simp: s1(1,3))
qed (auto simp: names_ok_def)

lemma items_split:
  assumes "mapper_ok mp s"
  shows "mp_items mp = map Some (written mp) @ replicate (unat (mp_cap mp) - unat (mp_cur mp)) None"
proof -
  note d = mapper_okD [OF assms]
  have "map Some (written mp) = take (unat (mp_cur mp)) (mp_items mp)"
    unfolding written_def map_map using d(6)
    by (intro map_idI) (metis comp_apply option.collapse)
  moreover have "drop (unat (mp_cur mp)) (mp_items mp)
      = replicate (unat (mp_cap mp) - unat (mp_cur mp)) None"
    using d(4,11) by (intro replicate_eqI) auto
  ultimately show ?thesis by (metis append_take_drop_id)
qed

text \<open>
  C21. \<open>destroy_mapper\<close> gives back every block of a full table. It walks up to \<open>cap\<close> and not
  to \<open>cur\<close>: on a table that is not full it passes a pointer that was never written to
  \<open>kfree\<close>.
\<close>
theorem destroy_mapper_outcome:
  assumes "mapper_ok mp s"
  shows "if mp_cur mp = mp_cap mp
    then \<exists>s'. destroy_mapper (Some mp) s = Inr (0, s') \<and>
           blocks s' = blocks s - insert (mp_base mp) (name_ptrs (written mp))
    else destroy_mapper (Some mp) s = Inl Uninitialised"
proof -
  note d = mapper_okD [OF assms] and i = items_split [OF assms]
  let ?k = "unat (mp_cap mp) - unat (mp_cur mp)"
  have len: "length (written mp) = unat (mp_cur mp)" using d(4,5) by (simp add: written_def)
  then have cap: "unat (mp_cap mp) = length (written mp) + ?k" using d(5) by simp
  from free_names_ok [OF d(1,7), of "replicate ?k None"] obtain s1 where s1:
    "\<And>n. free_names (length (written mp) + n) (mp_items mp) s = free_names n (replicate ?k None) s1"
    "heap_ok (live s1)" "blocks s1 = blocks s - name_ptrs (written mp)" unfolding i by blast
  have free: "free_names (unat (mp_cap mp)) (mp_items mp) s = free_names ?k (replicate ?k None) s1"
    unfolding s1(1) [of ?k, symmetric] using cap by simp
  show ?thesis
  proof (cases "mp_cur mp = mp_cap mp")
    case True
    have "mp_base mp \<in> blocks s1" using s1(3) d(9,10) by simp
    then obtain s2 where "kfree (mp_base mp) s1 = Inr s2" "blocks s2 = blocks s1 - {mp_base mp}"
      using s1(2) by (rule kfree_ok)
    then show ?thesis using free s1(3) True by (auto simp: destroy_mapper_def)
  next
    case False
    then have "0 < ?k" using d(5) by (metis le_neq_implies_less word_unat_eq_iff zero_less_diff)
    then obtain k where "?k = Suc k" using gr0_conv_Suc by blast
    then show ?thesis using False free by (simp add: destroy_mapper_def)
  qed
qed

section \<open>Witnesses\<close>

text \<open>A full table of one element: the function \<open>f\<close> at 0x400500, 16 bytes long.\<close>

definition demo_name :: cstring where
  "demo_name = [0x66]"

definition demo_state :: machine where
  "demo_state = boot\<lparr>live := [(kernel_base, 40), (kernel_base + 40, 2)], calls := 2\<rparr>"

definition demo_table :: mapper_t where
  "demo_table = \<lparr>mp_base = kernel_base, mp_cur = 1, mp_cap = 1,
     mp_items = [Some \<lparr>it_name = (kernel_base + 40, demo_name), it_ip = 0x400500, it_size = 16\<rparr>]\<rparr>"

lemmas demo_defs = demo_name_def demo_state_def demo_table_def boot_def kernel_base_def

lemma demo_table_ok: "mapper_ok demo_table demo_state"
  by (simp add: mapper_ok_def demo_defs written_def names_ok_def name_ptrs_def blocks_def
      short_str_def heap_ok_def apart_def no_wrap_def)

lemma demo_insert:
  "\<exists>mp' s'. insert_mapper bump (Some demo_table) [0x67] 0x400510 32 demo_state = Inr (0, Some mp', s')"
  by (simp add: insert_mapper_def grow_mapper_def demo_defs kmalloc_def bump_def heap_top_def Let_def
      sizeof_item_def new_items_def dup_cstr_def kfree_def ZERO_SIZE_PTR_def)

theorem init_mapper_ok_witness:
  "\<exists>mp s'. init_mapper bump 8 boot = Inr (Some mp, s') \<and> mapper_ok mp s' \<and> get_func_name (Some mp) 0x400500 = Inr None"
proof -
  have "allocs_ok bump [8 * sizeof_item] boot"
    by (intro allocs_ok_bump) (simp_all add: sizeof_item_def boot_def heap_top_def kernel_base_def)
  then show ?thesis using init_mapper_ok [OF alloc_ok_bump, of boot 8] by (auto simp: boot_def)
qed

theorem insert_mapper_safe_witness:
  "\<exists>mp' s'. insert_mapper bump (Some demo_table) [0x67] 0x400510 32 demo_state = Inr (0, Some mp', s') \<and>
     mapper_ok mp' s' \<and> entries mp' = [(demo_name, 0x400500, 16), ([0x67], 0x400510, 32)]"
proof -
  have "entries demo_table = [(demo_name, 0x400500, 16)]"
    by (simp add: entries_def written_def demo_table_def entry_of_def)
  then show ?thesis
    using insert_mapper_safe [OF alloc_ok_bump demo_table_ok, of "[0x67]" "0x400510" 32] demo_insert
    by (auto simp: short_str_def)
qed

theorem insert_mapper_lookup_witness:
  "\<exists>mo' s'. insert_mapper bump (Some demo_table) [0x67] 0x400510 32 demo_state = Inr (0, mo', s') \<and>
     get_func_name mo' 0x400514 = Inr (Some [0x67]) \<and> get_func_name mo' 0x400508 = Inr (Some demo_name)"
proof -
  obtain mp' s' where i:
    "insert_mapper bump (Some demo_table) [0x67] 0x400510 32 demo_state = Inr (0, Some mp', s')"
    using demo_insert by blast
  note l = insert_mapper_lookup [OF alloc_ok_bump demo_table_ok _ i]
  have e: "entries demo_table = [(demo_name, 0x400500, 16)]"
    by (simp add: entries_def written_def demo_table_def entry_of_def)
  show ?thesis
    using i l [of "0x400514"] l [of "0x400508"]
    by (auto simp: e short_str_def owner_def covers_def)
qed

theorem destroy_mapper_outcome_witness:
  "\<exists>s'. destroy_mapper (Some demo_table) demo_state = Inr (0, s') \<and>
     blocks s' = blocks demo_state - insert (mp_base demo_table) (name_ptrs (written demo_table))"
  using destroy_mapper_outcome [OF demo_table_ok] by (simp add: demo_table_def)

end
