(* ===== verification/File_Ops.thy ===== *)
theory File_Ops
  imports Machine
begin

text \<open>
  The file helpers of the module, \<open>kernel_probe/file_ops.c\<close>. Each of them opens the address
  limit of the thread to the kernel, calls the VFS and puts the old limit back. The VFS is
  not part of the repository: its entry points are the fields of the parameter \<open>v\<close>. They
  see the address limit in force when they are called.
\<close>

section \<open>The VFS\<close>

record vfs =
  filp_open :: "mm_segment \<Rightarrow> cstring \<Rightarrow> int \<Rightarrow> int \<Rightarrow> addr"
  vfs_read :: "mm_segment \<Rightarrow> addr \<Rightarrow> u64 \<Rightarrow> addr \<Rightarrow> u32 \<Rightarrow> int \<times> u8 list"
  vfs_write :: "mm_segment \<Rightarrow> addr \<Rightarrow> u64 \<Rightarrow> u8 list \<Rightarrow> int"
  vfs_fstat :: "int \<Rightarrow> int \<times> u64"
  get_unused_fd_flags :: "int \<Rightarrow> int"

text \<open>What the module relies on: \<open>vfs_read\<close> writes no more bytes than it was asked for.\<close>
definition vfs_ok :: "'v vfs_scheme \<Rightarrow> bool" where
  "vfs_ok v \<longleftrightarrow> (\<forall>seg f off dst n. length (snd (vfs_read v seg f off dst n)) \<le> unat n)"

text \<open>An error pointer: one of the last 4095 addresses.\<close>
definition IS_ERR :: "addr \<Rightarrow> bool" where
  "IS_ERR p \<longleftrightarrow> - 4095 \<le> p"

section \<open>Operations\<close>

text \<open>\<open>None\<close> is the NULL the function returns, for an error pointer or because \<open>filp_open\<close> gave NULL.\<close>
definition file_open :: "'v vfs_scheme \<Rightarrow> cstring \<Rightarrow> int \<Rightarrow> int \<Rightarrow> 'a machine_scheme \<Rightarrow> addr option \<times> 'a machine_scheme" where
  "file_open v path flags rights s =
     (let oldfs = addr_limit s;
          s1 = s\<lparr>addr_limit := KERNEL_DS\<rparr>;
          filp = filp_open v (addr_limit s1) path flags rights;
          s2 = s1\<lparr>addr_limit := oldfs\<rparr>
      in (if IS_ERR filp \<or> filp = 0 then None else Some filp, s2))"

definition file_close :: "addr \<Rightarrow> 'a machine_scheme \<Rightarrow> 'a machine_scheme" where
  "file_close file s = s\<lparr>closed := file # closed s\<rparr>"

definition file_read :: "'v vfs_scheme \<Rightarrow> addr \<Rightarrow> u64 \<Rightarrow> addr \<Rightarrow> u32 \<Rightarrow> 'a machine_scheme \<Rightarrow> int \<times> 'a machine_scheme" where
  "file_read v file offset dst sz s =
     (let oldfs = addr_limit s;
          s1 = s\<lparr>addr_limit := KERNEL_DS\<rparr>;
          (ret, bs) = vfs_read v (addr_limit s1) file offset dst sz;
          s2 = s1\<lparr>mem := store_bytes (mem s1) dst bs\<rparr>;
          s3 = s2\<lparr>addr_limit := oldfs\<rparr>
      in (ret, s3))"

definition file_write :: "'v vfs_scheme \<Rightarrow> addr \<Rightarrow> u64 \<Rightarrow> addr \<Rightarrow> u32 \<Rightarrow> 'a machine_scheme \<Rightarrow> int \<times> 'a machine_scheme" where
  "file_write v file offset src sz s =
     (let oldfs = addr_limit s;
          s1 = s\<lparr>addr_limit := KERNEL_DS\<rparr>;
          ret = vfs_write v (addr_limit s1) file offset (load_bytes (mem s1) src (unat sz));
          s2 = s1\<lparr>addr_limit := oldfs\<rparr>
      in (ret, s2))"

text \<open>The result of \<open>vfs_fsync\<close> is thrown away.\<close>
definition file_sync :: "(addr \<Rightarrow> int) \<Rightarrow> addr \<Rightarrow> 'a machine_scheme \<Rightarrow> int \<times> 'a machine_scheme" where
  "file_sync vfs_fsync file s = (let _ = vfs_fsync file in (0, s))"

section \<open>Properties\<close>

lemma file_open_same [simp]: "snd (file_open v path flags rights s) = s"
  by (simp add: file_open_def Let_def)

lemma file_read_eq:
  "file_read v file offset dst sz s =
     (fst (vfs_read v KERNEL_DS file offset dst sz),
      s\<lparr>mem := store_bytes (mem s) dst (snd (vfs_read v KERNEL_DS file offset dst sz))\<rparr>)"
  by (simp add: file_read_def Let_def case_prod_beta)

lemma file_write_eq:
  "file_write v file offset src sz s =
     (vfs_write v KERNEL_DS file offset (load_bytes (mem s) src (unat sz)), s)"
  by (simp add: file_write_def Let_def)

text \<open>
  C22. Every helper runs the VFS with the kernel's address limit and puts the caller's limit
  back, whatever the VFS answers; \<open>file_read\<close> changes no byte outside the buffer it was
  given and leaves there what the VFS read, the other two change nothing.
\<close>
theorem file_ops_window:
  assumes "vfs_ok v"
  shows "snd (file_open v path flags rights s) = s \<and>
    fst (file_write v file off buf n s) = vfs_write v KERNEL_DS file off (load_bytes (mem s) buf (unat n)) \<and>
    snd (file_write v file off buf n s) = s \<and>
    (let (ret, s') = file_read v file off buf n s; bs = snd (vfs_read v KERNEL_DS file off buf n)
     in addr_limit s' = addr_limit s \<and> live s' = live s \<and>
        load_bytes (mem s') buf (length bs) = bs \<and>
        (\<forall>x. \<not> in_region buf (ucast n) x \<longrightarrow> mem s' x = mem s x))"
proof -
  let ?bs = "snd (vfs_read v KERNEL_DS file off buf n)"
  have "length ?bs \<le> unat n" using assms by (simp add: vfs_ok_def)
  moreover have "unat n < 2 ^ 64" by (rule order_less_le_trans [OF unsigned_less]) simp
  ultimately have len: "length ?bs < 2 ^ 64" and le: "of_nat (length ?bs) \<le> (ucast n :: u64)"
    by (simp_all add: word_le_nat_alt unat_of_nat)
  show ?thesis
    using store_bytes_out [OF le len, of buf] load_store_bytes [OF len, of "mem s" buf]
    by (simp add: file_read_eq file_write_eq)
qed

text \<open>A VFS that reads a file of zeros, to run the helpers on.\<close>
definition zero_vfs :: vfs where
  "zero_vfs = \<lparr>filp_open = \<lambda>_ _ _ _. kernel_base, vfs_read = \<lambda>_ _ _ _ n. (sint n, replicate (unat n) 0),
     vfs_write = \<lambda>_ _ _ bs. int (length bs), vfs_fstat = \<lambda>_. (0, 64), get_unused_fd_flags = \<lambda>_. 3\<rparr>"

theorem file_ops_window_witness:
  "vfs_ok zero_vfs \<and>
   (let (ret, s') = file_read zero_vfs 1 0 0x1000 4 (boot\<lparr>mem := \<lambda>_. 7\<rparr>)
    in addr_limit s' = USER_DS \<and> (\<forall>x. \<not> in_region 0x1000 4 x \<longrightarrow> mem s' x = 7))"
proof -
  have ok: "vfs_ok zero_vfs" by (simp add: vfs_ok_def zero_vfs_def)
  from file_ops_window [OF ok, of "[]" 0 0 "boot\<lparr>mem := \<lambda>_. 7\<rparr>" 1 0 "0x1000" 4] ok
  show ?thesis by (auto simp: Let_def boot_def case_prod_beta)
qed

end
