(* ===== verification/Parse_Elf.thy ===== *)
theory Parse_Elf
  imports Mapper File_Ops
begin

text \<open>
  The ELF reader of the module, \<open>kernel_probe/parse_elf.c\<close>: it loads an executable into a
  block, finds the symbol tables among the section headers and enters every symbol of the
  static table that has a size into the function table. Structures are read field by field
  from the loaded bytes, at the offsets of the ELF-64 ABI; a read outside every allocated
  block is a fault. The fields of the handle that \<open>elf_open\<close> may leave unwritten are options.
\<close>

section \<open>Data\<close>

record Elf64_Shdr =
  sh_type :: u32
  sh_offset :: u64
  sh_size :: u64
  sh_link :: u32

record Elf64_Sym =
  st_name :: u32
  st_info :: u8
  st_shndx :: u16
  st_value :: u64
  st_size :: u64

record Elf_obj =
  ep_self :: addr
  maddr :: addr
  mlen :: u32
  ehdr :: addr
  symtab :: "addr option"
  symtab_end :: "addr option"
  strtab :: "addr option"
  dsymtab :: "addr option"
  dsymtab_end :: "addr option"
  dstrtab :: "addr option"

definition SHT_SYMTAB :: u32 where "SHT_SYMTAB = 2"
definition SHT_DYNSYM :: u32 where "SHT_DYNSYM = 11"
definition SHT_NULL :: u16 where "SHT_NULL = 0"
definition STT_FUNC :: u8 where "STT_FUNC = 2"
definition ELFMAG :: cstring where "ELFMAG = [0x7f, 0x45, 0x4c, 0x46]"
definition O_CREAT :: int where "O_CREAT = 64"
definition O_RDONLY :: int where "O_RDONLY = 0"

definition ELF32_ST_TYPE :: "u8 \<Rightarrow> u8" where
  "ELF32_ST_TYPE i = i AND 0xf"

text \<open>The value of a field that may not have been written.\<close>
definition field :: "'b option \<Rightarrow> 'b res" where
  "field f = (case f of None \<Rightarrow> Inl Uninitialised | Some x \<Rightarrow> Inr x)"

text \<open>Structures in memory.\<close>

definition shdr_at :: "addr \<Rightarrow> 'a machine_scheme \<Rightarrow> Elf64_Shdr res" where
  "shdr_at a s =
     bind_res (hload 64 a s) (\<lambda>_. Inr
       \<lparr>sh_type = of_nat (load_le 4 (mem s) (a + 4)), sh_offset = load64 (mem s) (a + 0x18),
        sh_size = load64 (mem s) (a + 0x20), sh_link = of_nat (load_le 4 (mem s) (a + 0x28))\<rparr>)"

definition sym_at :: "addr \<Rightarrow> 'a machine_scheme \<Rightarrow> Elf64_Sym res" where
  "sym_at a s =
     bind_res (hload 24 a s) (\<lambda>_. Inr
       \<lparr>st_name = of_nat (load_le 4 (mem s) a), st_info = mem s (a + 4),
        st_shndx = of_nat (load_le 2 (mem s) (a + 6)), st_value = load64 (mem s) (a + 8),
        st_size = load64 (mem s) (a + 16)\<rparr>)"

section \<open>Opening and closing\<close>

text \<open>The loop over the section headers, from section \<open>i\<close> on, \<open>n\<close> of them left.\<close>
fun scan_shdrs :: "nat \<Rightarrow> nat \<Rightarrow> addr \<Rightarrow> Elf_obj \<Rightarrow> 'a machine_scheme \<Rightarrow> Elf_obj res" where
  "scan_shdrs 0 i shdr ep s = Inr ep"
| "scan_shdrs (Suc n) i shdr ep s =
     bind_res (shdr_at (shdr + 64 * of_nat i) s) (\<lambda>h.
     bind_res (if sh_type h = SHT_SYMTAB
               then bind_res (shdr_at (shdr + 64 * ucast (sh_link h)) s) (\<lambda>l.
                    Inr (ep\<lparr>symtab := Some (maddr ep + sh_offset h),
                            symtab_end := Some (maddr ep + sh_offset h + sh_size h),
                            strtab := Some (maddr ep + sh_offset l)\<rparr>))
               else Inr ep) (\<lambda>ep1.
     bind_res (if sh_type h = SHT_DYNSYM
               then bind_res (shdr_at (shdr + 64 * ucast (sh_link h)) s) (\<lambda>l.
                    Inr (ep1\<lparr>dsymtab := Some (maddr ep1 + sh_offset h),
                             dsymtab_end := Some (maddr ep1 + sh_offset h + sh_size h),
                             dstrtab := Some (maddr ep1 + sh_offset l)\<rparr>))
               else Inr ep1) (\<lambda>ep2.
     scan_shdrs n (Suc i) shdr ep2 s)))"

text \<open>From the loaded bytes on: the magic number and the section headers.\<close>
definition elf_header :: "Elf_obj \<Rightarrow> 'a machine_scheme \<Rightarrow> Elf_obj option res" where
  "elf_header ep s =
     bind_res (hload 4 (ehdr ep) s) (\<lambda>_.
     if load_bytes (mem s) (ehdr ep) 4 \<noteq> ELFMAG then Inr None
     else bind_res (hload 8 (ehdr ep + 0x28) s) (\<lambda>e_shoff.
          bind_res (hload 2 (ehdr ep + 0x3c) s) (\<lambda>e_shnum.
          bind_res (scan_shdrs e_shnum 0 (maddr ep + of_nat e_shoff) ep s) (\<lambda>ep'.
          Inr (Some ep')))))"

text \<open>
  \<open>None\<close> is the NULL the function returns. The size of the handle is 72 bytes. The descriptor
  is installed whatever number \<open>get_unused_fd_flags\<close> gave, which the code does not look at.
\<close>
definition elf_open :: "alloc \<Rightarrow> 'v vfs_scheme \<Rightarrow> cstring \<Rightarrow> 'a machine_scheme \<Rightarrow> (Elf_obj option \<times> 'a machine_scheme) res" where
  "elf_open al v filename s =
     (let (p, s1) = kmalloc al 72 s
      in if p = 0 then Inr (None, s1)
      else let (f, s2) = file_open v filename O_CREAT O_RDONLY s1
      in case f of
        None \<Rightarrow> Inr (None, s2)
      | Some elf_file \<Rightarrow>
          (let fd = get_unused_fd_flags v O_CREAT;
               s3 = s2\<lparr>fdtab := (fd, elf_file) # fdtab s2\<rparr>;
               (ret, sz) = vfs_fstat v fd
           in if ret = -1 then Inr (None, s3)
           else if sz < 64 then Inr (None, s3)
           else let len = ucast sz :: u32;
                    (buf, s4) = kmalloc al (scast len) s3;
                    (r, s5) = file_read v elf_file 0 buf len s4
           in if buf = -1 then Inr (None, s5)
           else let s6 = file_close elf_file s5;
                    ep = \<lparr>ep_self = p, maddr = buf, mlen = len, ehdr = buf, symtab = None,
                          symtab_end = None, strtab = None, dsymtab = None, dsymtab_end = None,
                          dstrtab = None\<rparr>
           in bind_res (elf_header ep s6) (\<lambda>r. Inr (r, s6))))"

definition elf_close :: "Elf_obj \<Rightarrow> 'a machine_scheme \<Rightarrow> 'a machine_scheme res" where
  "elf_close ep s = bind_res (kfree (maddr ep) s) (kfree (ep_self ep))"

section \<open>Symbols\<close>

definition elf_symname :: "Elf_obj \<Rightarrow> addr \<Rightarrow> 'a machine_scheme \<Rightarrow> addr res" where
  "elf_symname ep sy s =
     bind_res (field (strtab ep)) (\<lambda>t. bind_res (sym_at sy s) (\<lambda>y. Inr (t + ucast (st_name y))))"

definition elf_symvalue :: "Elf_obj \<Rightarrow> addr \<Rightarrow> 'a machine_scheme \<Rightarrow> u64 res" where
  "elf_symvalue ep sy s = bind_res (sym_at sy s) (\<lambda>y. Inr (st_value y))"

definition elf_symsize :: "Elf_obj \<Rightarrow> addr \<Rightarrow> 'a machine_scheme \<Rightarrow> u64 res" where
  "elf_symsize ep sy s = bind_res (sym_at sy s) (\<lambda>y. Inr (st_size y))"

definition elf_dsymname :: "Elf_obj \<Rightarrow> addr \<Rightarrow> 'a machine_scheme \<Rightarrow> addr res" where
  "elf_dsymname ep sy s =
     bind_res (field (dstrtab ep)) (\<lambda>t. bind_res (sym_at sy s) (\<lambda>y. Inr (t + ucast (st_name y))))"

definition elf_firstsym :: "Elf_obj \<Rightarrow> addr res" where
  "elf_firstsym ep = field (symtab ep)"

text \<open>The pointer after the next increment, or NULL.\<close>
definition elf_nextsym :: "Elf_obj \<Rightarrow> addr \<Rightarrow> addr res" where
  "elf_nextsym ep sy = bind_res (field (symtab_end ep)) (\<lambda>e. Inr (if sy + 24 < e then sy + 24 else 0))"

definition elf_firstdsym :: "Elf_obj \<Rightarrow> addr res" where
  "elf_firstdsym ep = field (dsymtab ep)"

definition elf_nextdsym :: "Elf_obj \<Rightarrow> addr \<Rightarrow> addr res" where
  "elf_nextdsym ep sy = bind_res (field (dsymtab_end ep)) (\<lambda>e. Inr (if sy + 24 < e then sy + 24 else 0))"

definition elf_isfunc :: "Elf_obj \<Rightarrow> addr \<Rightarrow> 'a machine_scheme \<Rightarrow> bool res" where
  "elf_isfunc ep sy s =
     bind_res (sym_at sy s) (\<lambda>y. Inr (ELF32_ST_TYPE (st_info y) = STT_FUNC \<and> st_shndx y \<noteq> SHT_NULL))"

definition elf_isdfunc :: "Elf_obj \<Rightarrow> addr \<Rightarrow> 'a machine_scheme \<Rightarrow> bool res" where
  "elf_isdfunc ep sy s = bind_res (sym_at sy s) (\<lambda>y. Inr (ELF32_ST_TYPE (st_info y) = STT_FUNC))"

section \<open>Filling the function table\<close>

text \<open>The body of the loop: the table and the state after one symbol, and what \<open>ret\<close> was.\<close>
definition parse_sym ::
  "alloc \<Rightarrow> Elf_obj \<Rightarrow> addr \<Rightarrow> mapper_t option \<Rightarrow> 'a machine_scheme
     \<Rightarrow> (int \<times> mapper_t option \<times> 'a machine_scheme) res" where
  "parse_sym al ep sy mo s =
     bind_res (elf_symname ep sy s) (\<lambda>symname.
     bind_res (elf_symsize ep sy s) (\<lambda>sz.
     if symname \<noteq> 0 \<and> sz \<noteq> 0
     then bind_res (elf_symvalue ep sy s) (\<lambda>ip.
          bind_res (cstr_at symname s) (\<lambda>nm. insert_mapper al mo nm ip sz s))
     else Inr (0, mo, s)))"

lemma accessible_no_wrap: "accessible s a k \<Longrightarrow> unat a + k < 2 ^ 64"
  by (auto simp: accessible_def list_ex_iff no_wrap_def)

lemma parse_sym_advances:
  assumes "parse_sym al ep sy mo s = Inr x"
  shows "unat (sy + 24) = unat sy + 24" and "unat sy + 24 < 2 ^ 64"
proof -
  from assms have "accessible s sy 24"
    by (auto simp: parse_sym_def elf_symname_def sym_at_def hload_def bind_res_eq_Inr split: if_splits)
  then show *: "unat sy + 24 < 2 ^ 64" by (rule accessible_no_wrap)
  then show "unat (sy + 24) = unat sy + 24" by (simp add: unat_word_ariths)
qed

text \<open>The loop. \<open>False\<close>: it was left because an insertion failed.\<close>
function parse_syms ::
  "alloc \<Rightarrow> Elf_obj \<Rightarrow> addr \<Rightarrow> mapper_t option \<Rightarrow> 'a machine_scheme
     \<Rightarrow> (bool \<times> mapper_t option \<times> 'a machine_scheme) res" where
  "parse_syms al ep sy mo s =
     bind_res (parse_sym al ep sy mo s) (\<lambda>x. case x of (ret, mo1, s1) \<Rightarrow>
     if ret = -1 then Inr (False, mo1, s1)
     else bind_res (elf_nextsym ep sy) (\<lambda>next_sym.
          if next_sym = 0 then Inr (True, mo1, s1) else parse_syms al ep next_sym mo1 s1))"
  by pat_completeness auto
termination
proof (relation "measure (\<lambda>(al, ep, sy, mo, s). 2 ^ 64 - unat sy)", goal_cases)
  case (2 al ep sy mo s x ret y mo1 s1 next_sym)
  then show ?case
    using parse_sym_advances [of al ep sy mo s]
    by (auto simp: elf_nextsym_def bind_res_eq_Inr split: if_splits)
qed simp

declare parse_syms.simps [simp del]

text \<open>When an insertion fails the function returns without closing the object.\<close>
definition parse :: "alloc \<Rightarrow> 'v vfs_scheme \<Rightarrow> cstring \<Rightarrow> mapper_t option \<Rightarrow> 'a machine_scheme \<Rightarrow> (mapper_t option \<times> 'a machine_scheme) res" where
  "parse al v file_name mo s =
     bind_res (elf_open al v file_name s) (\<lambda>(o1, s1).
     case o1 of
       None \<Rightarrow> Inr (mo, s1)
     | Some ep \<Rightarrow>
         bind_res (elf_firstsym ep) (\<lambda>sy.
         bind_res (parse_syms al ep sy mo s1) (\<lambda>(done, mo2, s2).
         if done then bind_res (elf_close ep s2) (\<lambda>s3. Inr (mo2, s3)) else Inr (mo2, s2))))"

section \<open>Specification of the loop\<close>

text \<open>What one symbol contributes to the table, and what \<open>k\<close> consecutive ones do.\<close>

definition sym_entry :: "Elf_obj \<Rightarrow> addr \<Rightarrow> 'a machine_scheme \<Rightarrow> entry list res" where
  "sym_entry ep sy s =
     bind_res (elf_symname ep sy s) (\<lambda>p.
     bind_res (elf_symsize ep sy s) (\<lambda>sz.
     if p \<noteq> 0 \<and> sz \<noteq> 0
     then bind_res (elf_symvalue ep sy s) (\<lambda>ip. bind_res (cstr_at p s) (\<lambda>nm. Inr [(nm, ip, sz)]))
     else Inr []))"

fun sym_entries :: "Elf_obj \<Rightarrow> nat \<Rightarrow> addr \<Rightarrow> 'a machine_scheme \<Rightarrow> entry list res" where
  "sym_entries ep 0 sy s = Inr []"
| "sym_entries ep (Suc k) sy s =
     bind_res (sym_entry ep sy s) (\<lambda>es. bind_res (sym_entries ep k (sy + 24) s) (\<lambda>es'. Inr (es @ es')))"

text \<open>The symbol and the first byte of its name lie in the block \<open>(b, n)\<close>.\<close>
definition sym_in :: "addr \<times> u64 \<Rightarrow> Elf_obj \<Rightarrow> addr \<Rightarrow> 'a machine_scheme \<Rightarrow> bool" where
  "sym_in B ep sy s \<longleftrightarrow>
     (case B of (b, n) \<Rightarrow> unat b \<le> unat sy \<and> unat sy + 24 \<le> unat b + unat n \<and>
       (case elf_symname ep sy s of
          Inl e \<Rightarrow> False
        | Inr p \<Rightarrow> unat b \<le> unat p \<and> unat p < unat b + unat n))"

fun syms_in :: "addr \<times> u64 \<Rightarrow> Elf_obj \<Rightarrow> nat \<Rightarrow> addr \<Rightarrow> 'a machine_scheme \<Rightarrow> bool" where
  "syms_in B ep 0 sy s = True"
| "syms_in B ep (Suc k) sy s = (sym_in B ep sy s \<and> syms_in B ep k (sy + 24) s)"

section \<open>Lemmas on the loop\<close>

lemma insert_mapper_ret: "insert_mapper al mo nm ip z s = Inr (r, x) \<Longrightarrow> r = 0 \<or> r = -1"
  by (auto simp: insert_mapper_def bind_res_eq_Inr Let_def split: option.splits if_splits prod.splits)

lemma parse_sym_eq:
  "parse_sym al ep sy mo s = bind_res (sym_entry ep sy s) (\<lambda>es. insert_all (insert_mapper al) es mo s)"
  by (auto simp: parse_sym_def sym_entry_def bind_res_def split: sum.splits dest: insert_mapper_ret)

text \<open>What is read from a block stays what it is while the block is live.\<close>
lemma sym_in_stable:
  assumes "heap_ok (live s)" "heap_ok (live s')" "(b, n) \<in> set (live s)" "(b, n) \<in> set (live s')"
    and "mem s' = mem s" and "sym_in (b, n) ep sy s"
  shows "sym_in (b, n) ep sy s'" and "sym_entry ep sy s' = sym_entry ep sy s"
proof -
  have r: "unat b \<le> unat sy" "unat sy + 24 \<le> unat b + unat n" using assms(6) by (auto simp: sym_in_def)
  have sym: "sym_at sy s' = sym_at sy s"
    by (simp add: sym_at_def hload_in_block [OF assms(1,3) r] hload_in_block [OF assms(2,4) r] assms(5))
  then have nm: "elf_symname ep sy s' = elf_symname ep sy s" by (simp add: elf_symname_def)
  then show "sym_in (b, n) ep sy s'" using assms(6) by (simp add: sym_in_def)
  obtain p where p: "elf_symname ep sy s = Inr p" "unat b \<le> unat p" "unat p < unat b + unat n"
    using assms(6) by (auto simp: sym_in_def split: sum.splits)
  have "cstr_at p s' = cstr_at p s"
    by (simp add: cstr_at_block [OF assms(1,3) p(2,3)] cstr_at_block [OF assms(2,4) p(2,3)] assms(5))
  then show "sym_entry ep sy s' = sym_entry ep sy s"
    by (simp add: sym_entry_def nm p(1) elf_symsize_def elf_symvalue_def sym cong: if_cong)
qed

lemma syms_in_stable:
  assumes "heap_ok (live s)" "heap_ok (live s')" "(b, n) \<in> set (live s)" "(b, n) \<in> set (live s')"
    and "mem s' = mem s"
  shows "syms_in (b, n) ep k sy s \<Longrightarrow> syms_in (b, n) ep k sy s' \<and> sym_entries ep k sy s' = sym_entries ep k sy s"
proof (induction k arbitrary: sy)
  case (Suc k)
  then show ?case using sym_in_stable [OF assms, of ep sy] by simp
qed simp

lemma insert_all_append:
  "insert_all ins (es @ es') t s =
     bind_res (insert_all ins es t s) (\<lambda>(r, t', s'). if r = -1 then Inr (-1, t', s') else insert_all ins es' t' s')"
  by (induction ins es t s rule: insert_all.induct)
    (auto simp: bind_res_def split: sum.splits prod.splits)

text \<open>One symbol leaves a well-formed table and does not touch a block that is not the table's.\<close>
lemma insert_entry_keeps:
  assumes "alloc_ok al" and "mapper_ok mp s" and "(b, n) \<in> set (live s)" and "b \<notin> owned mp"
    and "length es \<le> 1" and "\<forall>e \<in> set es. short_str (fst e)"
    and "insert_all (insert_mapper al) es (Some mp) s = Inr (r, mo', s')"
  obtains mp' where "mo' = Some mp'" "mapper_ok mp' s'" "(b, n) \<in> set (live s')" "b \<notin> owned mp'"
    "mem s' = mem s"
proof (cases es)
  case Nil
  then show ?thesis using that assms by auto
next
  case (Cons e es')
  obtain nm a z where e: "e = (nm, a, z)" by (cases e)
  have es: "es = [(nm, a, z)]" and str: "short_str nm" using assms(5,6) Cons e by auto
  from assms(1,2) str show ?thesis
  proof (cases rule: insert_mapper_cases [where a = a and z = z])
    case null
    then show ?thesis using assms(7) by (simp add: es)
  next
    case (fail s1)
    then have "mo' = Some mp" "s' = s1" using assms(7) by (auto simp: es)
    then show ?thesis using that fail assms(3,4) heap_step_mem [OF fail(2)] by simp
  next
    case (inserted mp' s1)
    then have eq: "mo' = Some mp'" "s' = s1" using assms(7) by (auto simp: es)
    have "b \<in> blocks s" using assms(3) by (force simp: blocks_def)
    then have "b \<notin> owned mp'" using inserted(6) assms(4) by blast
    moreover have "(b, n) \<in> set (live s1)" using inserted(5) assms(3,4) by (auto simp: keeps_def)
    ultimately show ?thesis using that inserted(3) eq heap_step_mem [OF inserted(2)] by simp
  qed
qed

lemma sym_entry_length: "sym_entry ep sy s = Inr es \<Longrightarrow> length es \<le> 1"
  by (auto simp: sym_entry_def bind_res_eq_Inr split: if_splits)

lemma syms_in_range:
  "no_wrap b n \<Longrightarrow> syms_in (b, n) ep (Suc k) sy s \<Longrightarrow> unat sy + 24 * Suc k \<le> unat b + unat n"
proof (induction k arbitrary: sy)
  case (Suc k)
  have "unat sy + 24 < 2 ^ 64" using Suc.prems by (auto simp: sym_in_def no_wrap_def)
  then have "unat (sy + 24) = unat sy + 24" by (simp add: unat_word_ariths)
  with Suc.IH [of "sy + 24"] Suc.prems show ?case by auto
qed (auto simp: sym_in_def)

lemma nextsym_in:
  assumes "no_wrap b n" and "syms_in (b, n) ep (Suc k) sy s"
    and "symtab_end ep = Some (sy + of_nat (24 * Suc k))"
  shows "elf_nextsym ep sy = Inr (if k = 0 then 0 else sy + 24)" and "sy + 24 \<noteq> 0"
proof -
  have r: "unat sy + 24 * Suc k < 2 ^ 64"
    using syms_in_range [OF assms(1,2)] assms(1) by (simp add: no_wrap_def)
  then have "(24 * Suc k) mod 2 ^ 64 = 24 * Suc k" and "24 * Suc k < 2 ^ 64" by simp_all
  then have "unat (of_nat (24 * Suc k) :: u64) = 24 * Suc k" by (simp only: unat_of_nat) simp
  then have e: "unat (sy + of_nat (24 * Suc k)) = unat sy + 24 * Suc k"
    using r by (subst unat_add_lem [THEN iffD1]) simp_all
  have n: "unat (sy + 24) = unat sy + 24" using r by (simp add: unat_word_ariths)
  then show "sy + 24 \<noteq> 0" by (metis add_is_0 unat_0 zero_neq_numeral)
  show "elf_nextsym ep sy = Inr (if k = 0 then 0 else sy + 24)"
    using e n assms(3) by (auto simp: elf_nextsym_def field_def word_less_nat_alt)
qed

text \<open>The loop enters what the symbols contribute, in their order.\<close>
lemma parse_syms_eq:
  assumes al: "alloc_ok al"
  shows "\<lbrakk>mapper_ok mp s; (b, n) \<in> set (live s); b \<notin> owned mp; syms_in (b, n) ep (Suc k) sy s;
      symtab_end ep = Some (sy + of_nat (24 * Suc k)); sym_entries ep (Suc k) sy s = Inr es;
      \<forall>e \<in> set es. short_str (fst e)\<rbrakk> \<Longrightarrow>
    parse_syms al ep sy (Some mp) s =
      bind_res (insert_all (insert_mapper al) es (Some mp) s) (\<lambda>(r, mo, s'). Inr (r \<noteq> -1, mo, s'))"
proof (induction k arbitrary: sy mp s es)
  case (0 sy mp s es)
  have nw: "no_wrap b n" using heap_ok_block [OF mapper_okD(1) [OF 0(1)] 0(2)] by simp
  from 0(6) have "sym_entry ep sy s = Inr es" by (auto simp: bind_res_eq_Inr)
  then show ?case
    using nextsym_in(1) [OF nw 0(4,5)]
    by (subst parse_syms.simps)
      (auto simp: parse_sym_eq bind_res_def split: sum.splits prod.splits)
next
  case (Suc k sy mp s es)
  have h: "heap_ok (live s)" using mapper_okD(1) [OF Suc.prems(1)] .
  then have nw: "no_wrap b n" using heap_ok_block Suc.prems(2) by blast
  from Suc.prems(6) obtain e1 e2 where e: "sym_entry ep sy s = Inr e1"
    "sym_entries ep (Suc k) (sy + 24) s = Inr e2" "es = e1 @ e2"
    by (auto simp: bind_res_eq_Inr)
  have str: "\<forall>e \<in> set e1. short_str (fst e)" "\<forall>e \<in> set e2. short_str (fst e)"
    using Suc.prems(7) e(3) by auto
  note nx = nextsym_in [OF nw Suc.prems(4,5)]
  note unfold = parse_syms.simps [of al ep sy "Some mp" s] parse_sym_eq e(1,3) insert_all_append
  show ?case
  proof (cases "insert_all (insert_mapper al) e1 (Some mp) s")
    case (Inl f)
    then show ?thesis by (simp add: unfold)
  next
    case (Inr x)
    obtain r mo1 s1 where x: "x = (r, mo1, s1)" by (cases x)
    with Inr have i: "insert_all (insert_mapper al) e1 (Some mp) s = Inr (r, mo1, s1)" by simp
    obtain mp1 where mp1: "mo1 = Some mp1" "mapper_ok mp1 s1" "(b, n) \<in> set (live s1)"
      "b \<notin> owned mp1" "mem s1 = mem s"
      using insert_entry_keeps [OF al Suc.prems(1-3) sym_entry_length [OF e(1)] str(1) i] by metis
    show ?thesis
    proof (cases "r = -1")
      case True
      then show ?thesis by (simp add: unfold i)
    next
      case False
      have tail: "syms_in (b, n) ep (Suc k) (sy + 24) s" using Suc.prems(4) by simp
      note st = syms_in_stable [OF h mapper_okD(1) [OF mp1(2)] Suc.prems(2) mp1(3,5) tail]
      have "symtab_end ep = Some (sy + 24 + of_nat (24 * Suc k))"
        using Suc.prems(5) by (simp add: algebra_simps)
      with Suc.IH [OF mp1(2-4)] st e(2) str(2)
      have "parse_syms al ep (sy + 24) (Some mp1) s1 =
        bind_res (insert_all (insert_mapper al) e2 (Some mp1) s1) (\<lambda>(r, mo, s'). Inr (r \<noteq> -1, mo, s'))"
        by metis
      then show ?thesis using False nx by (simp add: unfold i mp1(1)) (simp add: case_prod_unfold)
    qed
  qed
qed

section \<open>Properties\<close>

text \<open>
  C12. Reading the symbol table: when the \<open>k + 1\<close> symbols and their names lie in the loaded
  image, the loop ends, and it ends in one of three ways: all symbols with a size have been
  entered in order, so that an address is then resolved to the first of them (behind the
  entries the table had) that covers it; an insertion failed, and a proper prefix is in the
  table; or the unchecked allocation of a name gave NULL.
\<close>
theorem parse_syms_table:
  assumes "alloc_ok al" and "mapper_ok mp s" and "(b, n) \<in> set (live s)" and "b \<notin> owned mp"
    and "syms_in (b, n) ep (Suc k) sy s" and "symtab_end ep = Some (sy + of_nat (24 * Suc k))"
    and "sym_entries ep (Suc k) sy s = Inr es" and "\<forall>e \<in> set es. short_str (fst e)"
  shows "parse_syms al ep sy (Some mp) s = Inl NullDeref \<or>
    (\<exists>mo s'. parse_syms al ep sy (Some mp) s = Inr (True, mo, s') \<and>
       (\<forall>ip. get_func_name mo ip = Inr (owner (entries mp @ es) ip))) \<or>
    (\<exists>mo s' j. parse_syms al ep sy (Some mp) s = Inr (False, mo, s') \<and> j < length es \<and>
       (\<forall>ip. get_func_name mo ip = Inr (owner (entries mp @ take j es) ip)))"
proof -
  note eq = parse_syms_eq [OF assms]
  have t: "table_ok al (Some mp) s" using assms(1,2) by (simp add: table_ok_def)
  have ents: "table_entries (Some mp) = entries mp" by (simp add: table_entries_def)
  show ?thesis
  proof (cases "insert_all (insert_mapper al) es (Some mp) s")
    case (Inl f)
    then have "f = NullDeref" using ft.insert_all_fault t assms(8) by blast
    then show ?thesis using Inl eq by simp
  next
    case (Inr x)
    obtain r mo s' where x: "x = (r, mo, s')" by (cases x)
    note i = ft.insert_all_ok [OF Inr [unfolded x] t assms(8)]
    note l = ft.look_owner [of al mo s']
    have res: "parse_syms al ep sy (Some mp) s = Inr (r \<noteq> -1, mo, s')" using Inr eq x by simp
    show ?thesis
    proof (cases "r = 0")
      case True
      then have "\<forall>ip. get_func_name mo ip = Inr (owner (entries mp @ es) ip)" using i l ents by simp
      then show ?thesis using res True by simp
    next
      case False
      then obtain j where j: "r = -1" "j < length es" "table_entries mo = entries mp @ take j es"
        using i ents by auto
      moreover from i have tok: "table_ok al mo s'" by blast
      ultimately have "\<forall>ip. get_func_name mo ip = Inr (owner (entries mp @ take j es) ip)"
        by (simp only: l [OF tok] j(3) simp_thms)
      then show ?thesis using res j(1,2) by auto
    qed
  qed
qed

lemma scan_shdrs_maddr: "scan_shdrs n i shdr ep s = Inr ep' \<Longrightarrow> maddr ep' = maddr ep"
  by (induction n arbitrary: i ep) (auto simp: bind_res_eq_Inr split: if_splits)

lemma scan_shdrs_no_symtab:
  assumes "scan_shdrs n i shdr ep s = Inr ep'" and "symtab ep = None"
    and "\<And>j h. j < n \<Longrightarrow> shdr_at (shdr + 64 * of_nat (i + j)) s = Inr h \<Longrightarrow> sh_type h \<noteq> SHT_SYMTAB"
  shows "symtab ep' = None"
  using assms
proof (induction n arbitrary: i ep)
  case (Suc n)
  from Suc.prems(1) obtain h where h: "shdr_at (shdr + 64 * of_nat i) s = Inr h"
    by (auto simp: bind_res_eq_Inr)
  then have "sh_type h \<noteq> SHT_SYMTAB" using Suc.prems(3) [of 0 h] by simp
  then obtain ep1 where ep1: "symtab ep1 = None" "scan_shdrs n (Suc i) shdr ep1 s = Inr ep'"
    using Suc.prems(1,2) h
    by (cases "sh_type h = SHT_DYNSYM") (force simp: bind_res_eq_Inr, simp)
  have "sh_type h' \<noteq> SHT_SYMTAB"
    if "j < n" "shdr_at (shdr + 64 * of_nat (Suc i + j)) s = Inr h'" for j h'
    using Suc.prems(3) [of "Suc j" h'] that by simp
  from Suc.IH [OF ep1(2,1) this] show ?case .
qed simp

text \<open>
  C13. \<open>elf_open\<close> gives a handle only for a file of at least 64 bytes whose loaded image
  begins with the ELF magic number. It leaves a descriptor behind: the file is installed in
  the descriptor table of the calling process and then closed.
\<close>
theorem elf_open_accepts:
  assumes "elf_open al v file s = Inr (Some ep, s')"
  shows "load_bytes (mem s') (maddr ep) 4 = ELFMAG \<and>
    (let f = filp_open v KERNEL_DS file O_CREAT O_RDONLY; fd = get_unused_fd_flags v O_CREAT
     in \<not> IS_ERR f \<and> 64 \<le> snd (vfs_fstat v fd) \<and> (fd, f) \<in> set (fdtab s') \<and> f \<in> set (closed s'))"
proof -
  have kfd: "fdtab t' = fdtab t" if "kmalloc al n t = (a, t')" for n t a t'
    using kmalloc_heap_step [OF that] by (cases t; cases t') (simp add: heap_step_def)
  show ?thesis
    using assms
    by (auto simp: elf_open_def Let_def file_open_def file_read_eq file_close_def elf_header_def
        bind_res_eq_Inr not_less split: prod.splits if_splits dest!: scan_shdrs_maddr kfd)
qed

text \<open>
  C19. An executable without a static symbol table, a stripped one for instance, is opened
  without complaint, and the module then follows the symbol-table pointer that \<open>elf_open\<close>
  never wrote.
\<close>
theorem parse_stripped:
  assumes "elf_open al v file s = Inr (Some ep, s1)"
    and "\<And>j h. j < load_le 2 (mem s1) (maddr ep + 0x3c) \<Longrightarrow>
      shdr_at (maddr ep + load64 (mem s1) (maddr ep + 0x28) + 64 * of_nat j) s1 = Inr h \<Longrightarrow>
      sh_type h \<noteq> SHT_SYMTAB"
  shows "parse al v file mo s = Inl Uninitialised"
proof -
  from assms(1) obtain ep0 where e: "elf_header ep0 s1 = Inr (Some ep)" "symtab ep0 = None"
    "ehdr ep0 = maddr ep0"
    by (auto simp: elf_open_def Let_def bind_res_eq_Inr split: prod.splits option.splits if_splits)
  then have sc: "scan_shdrs (load_le 2 (mem s1) (maddr ep0 + 0x3c)) 0
      (maddr ep0 + load64 (mem s1) (maddr ep0 + 0x28)) ep0 s1 = Inr ep"
    by (auto simp: elf_header_def bind_res_eq_Inr hload_def load64_def split: if_splits)
  have "maddr ep = maddr ep0"
    using sc scan_shdrs_maddr by blast
  then have "symtab ep = None" using scan_shdrs_no_symtab [OF sc e(2)] assms(2) by simp
  then show ?thesis using assms(1) by (simp add: parse_def elf_firstsym_def field_def)
qed

section \<open>Witnesses\<close>

text \<open>A block with one symbol, the function \<open>m\<close> at 0x400600, and its string table.\<close>

definition sym_bytes :: "u8 list" where
  "sym_bytes = [1, 0, 0, 0,  2, 0, 1, 0,  0, 6, 0x40, 0, 0, 0, 0, 0,  16, 0, 0, 0, 0, 0, 0, 0,
     0, 0x6d, 0, 0]"

definition sym_base :: addr where
  "sym_base = kernel_base + 64"

definition sym_state :: machine where
  "sym_state = demo_state\<lparr>live := [(sym_base, 28), (kernel_base, 40), (kernel_base + 40, 2)],
     mem := store_bytes (\<lambda>_. 0) sym_base sym_bytes\<rparr>"

definition sym_obj :: Elf_obj where
  "sym_obj = \<lparr>ep_self = 0, maddr = sym_base, mlen = 28, ehdr = sym_base, symtab = Some sym_base,
     symtab_end = Some (sym_base + 24), strtab = Some (sym_base + 24), dsymtab = None,
     dsymtab_end = None, dstrtab = None\<rparr>"

lemmas sym_defs = sym_bytes_def sym_base_def sym_state_def sym_obj_def demo_defs

lemma sym_table_ok: "mapper_ok demo_table sym_state"
  by (simp add: mapper_ok_def sym_defs written_def names_ok_def name_ptrs_def blocks_def
      short_str_def heap_ok_def apart_def no_wrap_def)

lemma sym_at_demo:
  "sym_at sym_base sym_state = Inr \<lparr>st_name = 1, st_info = 2, st_shndx = 1, st_value = 0x400600, st_size = 16\<rparr>"
  by (simp add: sym_at_def hload_def accessible_def no_wrap_def sym_defs load64_def
      load_le_numeral store_bytes_def)

lemma cstr_at_demo: "cstr_at (sym_base + 25) sym_state = Inr [0x6d]"
proof -
  have "map (\<lambda>i. mem sym_state (sym_base + 25 + of_nat i)) [0 ..< 3] = [0x6d, 0, 0]"
    (is "?bs = _")
    by (simp add: sym_defs store_bytes_def upt_conv_Cons)
  then have "0 \<in> set ?bs" "takeWhile (\<lambda>c. c \<noteq> 0) ?bs = [0x6d]" by (simp_all del: list.set_map)
  moreover have "find (\<lambda>(b, n). no_wrap b n \<and> unat b \<le> unat (sym_base + 25) \<and>
      unat (sym_base + 25) < unat b + unat n) (live sym_state) = Some (sym_base, 28)"
    by (simp add: sym_defs no_wrap_def)
  moreover have "unat sym_base + 28 - unat (sym_base + 25) = 3" by (simp add: sym_defs)
  ultimately show ?thesis by (simp add: cstr_at_def Let_def del: list.set_map set_upt)
qed

lemma sym_entry_demo: "sym_entry sym_obj sym_base sym_state = Inr [([0x6d], 0x400600, 16)]"
  using cstr_at_demo
  by (simp add: sym_entry_def elf_symname_def elf_symsize_def elf_symvalue_def sym_at_demo
      field_def sym_obj_def) (simp add: sym_base_def kernel_base_def)

lemma sym_in_demo: "sym_in (sym_base, 28) sym_obj sym_base sym_state"
  by (simp add: sym_in_def elf_symname_def sym_at_demo field_def sym_obj_def)
    (simp add: sym_base_def kernel_base_def)

lemma sym_insert:
  "\<exists>mp' s'. insert_mapper bump (Some demo_table) [0x6d] 0x400600 16 sym_state = Inr (0, Some mp', s')"
  by (simp add: insert_mapper_def grow_mapper_def sym_defs kmalloc_def bump_def heap_top_def Let_def
      sizeof_item_def new_items_def dup_cstr_def kfree_def ZERO_SIZE_PTR_def)

theorem parse_syms_table_witness:
  "\<exists>mo s'. parse_syms bump sym_obj sym_base (Some demo_table) sym_state = Inr (True, mo, s') \<and>
     get_func_name mo 0x400604 = Inr (Some [0x6d])"
proof -
  let ?es = "[([0x6d :: u8], 0x400600 :: u64, 16 :: u64)]"
  have e: "entries demo_table = [(demo_name, 0x400500, 16)]"
    by (simp add: entries_def written_def demo_table_def entry_of_def)
  have o: "owner (entries demo_table @ ?es) 0x400604 = Some [0x6d]"
    by (simp add: e owner_def covers_def)
  have b: "(sym_base, 28) \<in> set (live sym_state)" "sym_base \<notin> owned demo_table"
    by (simp_all add: sym_defs owned_def written_def)
  have "symtab_end sym_obj = Some (sym_base + of_nat (24 * Suc 0))" by (simp add: sym_obj_def)
  moreover have "syms_in (sym_base, 28) sym_obj (Suc 0) sym_base sym_state" by (simp add: sym_in_demo)
  moreover have "sym_entries sym_obj (Suc 0) sym_base sym_state = Inr ?es" by (simp add: sym_entry_demo)
  moreover have "\<forall>e \<in> set ?es. short_str (fst e)" by (simp add: short_str_def)
  ultimately have t: "parse_syms bump sym_obj sym_base (Some demo_table) sym_state =
      bind_res (insert_all (insert_mapper bump) ?es (Some demo_table) sym_state) (\<lambda>(r, mo, s'). Inr (r \<noteq> -1, mo, s'))"
    and p: "parse_syms bump sym_obj sym_base (Some demo_table) sym_state = Inl NullDeref \<or>
    (\<exists>mo s'. parse_syms bump sym_obj sym_base (Some demo_table) sym_state = Inr (True, mo, s') \<and>
       (\<forall>ip. get_func_name mo ip = Inr (owner (entries demo_table @ ?es) ip))) \<or>
    (\<exists>mo s' j. parse_syms bump sym_obj sym_base (Some demo_table) sym_state = Inr (False, mo, s') \<and> j < length ?es \<and>
       (\<forall>ip. get_func_name mo ip = Inr (owner (entries demo_table @ take j ?es) ip)))"
    using parse_syms_eq [OF alloc_ok_bump sym_table_ok b, of sym_obj 0 sym_base]
      parse_syms_table [OF alloc_ok_bump sym_table_ok b, of sym_obj 0 sym_base] by blast+
  have "\<exists>mo s'. parse_syms bump sym_obj sym_base (Some demo_table) sym_state = Inr (True, mo, s')"
    using sym_insert unfolding t by auto
  then show ?thesis using p o by auto
qed

text \<open>A file of 128 bytes: an ELF header and one section header, of type 1.\<close>

definition stripped_file :: "u8 list" where
  "stripped_file = ELFMAG @ replicate 36 0 @ [64, 0, 0, 0, 0, 0, 0, 0] @ replicate 12 0 @ [1, 0] @
     replicate 2 0 @ [0, 0, 0, 0, 1, 0, 0, 0] @ replicate 56 0"

definition stripped_vfs :: vfs where
  "stripped_vfs = \<lparr>filp_open = \<lambda>_ _ _ _. kernel_base, vfs_read = \<lambda>_ _ _ _ n. (sint n, take (unat n) stripped_file),
     vfs_write = \<lambda>_ _ _ bs. int (length bs), vfs_fstat = \<lambda>_. (0, 128), get_unused_fd_flags = \<lambda>_. 3\<rparr>"

definition stripped_obj :: Elf_obj where
  "stripped_obj = \<lparr>ep_self = kernel_base, maddr = kernel_base + 72, mlen = 128,
     ehdr = kernel_base + 72, symtab = None, symtab_end = None, strtab = None, dsymtab = None,
     dsymtab_end = None, dstrtab = None\<rparr>"

definition stripped_state :: machine where
  "stripped_state = boot\<lparr>live := [(kernel_base + 72, 128), (kernel_base, 72)], calls := Suc (Suc 0),
     mem := store_bytes (\<lambda>_. 0) (kernel_base + 72) stripped_file, fdtab := [(3, kernel_base)],
     closed := [kernel_base]\<rparr>"

lemma length_stripped [simp]: "length stripped_file = 128"
  by (simp add: stripped_file_def ELFMAG_def)

lemmas stripped_defs = stripped_state_def stripped_obj_def boot_def kernel_base_def

lemma stripped_access:
  "k \<le> 128 \<Longrightarrow> d + k \<le> 128 \<Longrightarrow> accessible stripped_state (kernel_base + 72 + of_nat d) k"
  by (simp add: accessible_def no_wrap_def stripped_defs unat_word_ariths unat_of_nat)

lemma stripped_loads:
  "load_bytes (mem stripped_state) (kernel_base + 72) 4 = ELFMAG"
  "load_le 8 (mem stripped_state) (kernel_base + 0x70) = 64"
  "load_le 2 (mem stripped_state) (kernel_base + 0x84) = 1"
  "load_le 4 (mem stripped_state) (kernel_base + 0x8c) = 1"
  by (simp_all add: load_bytes_def load_le_numeral upt_conv_Cons stripped_defs store_bytes_def
      stripped_file_def ELFMAG_def)

lemma stripped_hload:
  "d + k \<le> 128 \<Longrightarrow> hload k (kernel_base + 72 + of_nat d) stripped_state =
     Inr (load_le k (mem stripped_state) (kernel_base + 72 + of_nat d))"
  by (rule hload_in_block [of _ "kernel_base + 72" 128])
    (simp_all add: heap_ok_def apart_def no_wrap_def stripped_defs unat_word_ariths unat_of_nat)

lemma stripped_shdr: "\<exists>h. shdr_at (kernel_base + 0x88) stripped_state = Inr h \<and> sh_type h = 1"
  using stripped_hload [of 64 64] stripped_loads(4)
  by (simp add: shdr_at_def add.assoc kernel_base_def)

lemma stripped_header: "elf_header stripped_obj stripped_state = Inr (Some stripped_obj)"
proof -
  obtain h where h: "shdr_at (kernel_base + 0x88) stripped_state = Inr h" "sh_type h = 1"
    using stripped_shdr by blast
  have o: "ehdr stripped_obj = kernel_base + 72" "maddr stripped_obj = kernel_base + 72"
    by (simp_all add: stripped_obj_def)
  have l: "hload 4 (kernel_base + 72) stripped_state = Inr (load_le 4 (mem stripped_state) (kernel_base + 72))"
    "hload 8 (kernel_base + 0x70) stripped_state = Inr 64"
    "hload 2 (kernel_base + 0x84) stripped_state = Inr 1"
    using stripped_hload [of 0 4] stripped_hload [of 40 8] stripped_hload [of 60 2] stripped_loads(2,3)
    by (simp_all add: add.assoc)
  have "scan_shdrs 1 0 (kernel_base + 72 + of_nat 64) stripped_obj stripped_state = Inr stripped_obj"
    using h by (simp add: SHT_SYMTAB_def SHT_DYNSYM_def add.assoc)
  moreover have "kernel_base + 72 + 0x28 = kernel_base + 0x70" "kernel_base + 72 + 0x3c = kernel_base + 0x84"
    by (simp_all add: add.assoc)
  ultimately show ?thesis using l stripped_loads(1)
    by (simp only: elf_header_def o bind_res_Inr simp_thms if_False refl)
qed

lemma stripped_open: "elf_open bump stripped_vfs [] boot = Inr (Some stripped_obj, stripped_state)"
  using stripped_header
  by (simp add: elf_open_def kmalloc_def bump_def heap_top_def Let_def file_open_def file_read_eq file_close_def
      stripped_vfs_def IS_ERR_def stripped_defs)

theorem elf_open_accepts_witness:
  "load_bytes (mem stripped_state) (maddr stripped_obj) 4 = ELFMAG \<and>
   (3, kernel_base) \<in> set (fdtab stripped_state) \<and> kernel_base \<in> set (closed stripped_state)"
  using elf_open_accepts [OF stripped_open] by (simp add: stripped_vfs_def Let_def)

theorem parse_stripped_witness: "parse bump stripped_vfs [] None boot = Inl Uninitialised"
proof (rule parse_stripped [OF stripped_open])
  fix j h
  assume a: "j < load_le 2 (mem stripped_state) (maddr stripped_obj + 0x3c)"
    "shdr_at (maddr stripped_obj + load64 (mem stripped_state) (maddr stripped_obj + 0x28) +
      64 * of_nat j) stripped_state = Inr h"
  have m: "maddr stripped_obj + 0x3c = kernel_base + 0x84" "maddr stripped_obj + 0x28 = kernel_base + 0x70"
    "maddr stripped_obj = kernel_base + 72"
    by (simp_all add: stripped_obj_def)
  then have "j = 0" using a(1) stripped_loads(3) by (simp only: m less_one)
  then show "sh_type h \<noteq> SHT_SYMTAB"
    using a(2) stripped_shdr stripped_loads(2)
    by (auto simp: m load64_def add.assoc SHT_SYMTAB_def)
qed

end
