(* ===== verification/Stack_Buf.thy ===== *)
theory Stack_Buf
  imports Machine
begin

text \<open>
  The saved stack segments of one function call, \<open>kernel_probe/stack_buf.c\<close>: an array of
  buffers, each a copy of a segment of the user stack, with the holes that must not be written
  back because the segment's bytes there were restored early. The bytes of the buffers are in
  the memory of the machine; the array itself is kept in the state under the address of its
  block, so that a pointer to an array that was reallocated finds nothing. \<open>list_sort\<close> of the
  kernel is the parameter \<open>srt\<close>. The interface to the probes is the locale \<open>stack_store\<close>.
\<close>

section \<open>Data\<close>

record hole_t =
  h_start :: addr
  h_len :: u64

text \<open>
  The list hanging off a \<open>struct list_head\<close>. The head is part of the array element and the
  list is circular: once the element was copied elsewhere and the old array freed, the list
  still runs through the freed head.
\<close>
datatype hole_list = HL "hole_t list" | HL_dangling "hole_t list"

record sbuf_t =
  sb_buf :: addr
  sb_start :: addr
  sb_len :: u64
  sb_holes :: hole_list

text \<open>The array; \<open>cur\<close> and \<open>cap\<close> are kept in its first element.\<close>
record sbuf_arr =
  s_cur :: u64
  s_cap :: u64
  s_items :: "sbuf_t option list"

record sbst = machine +
  sbufs :: "addr \<Rightarrow> sbuf_arr option"

type_synonym sorter = "(hole_t \<Rightarrow> hole_t \<Rightarrow> int) \<Rightarrow> hole_t list \<Rightarrow> hole_t list"

definition sizeof_sbuf :: u64 where
  "sizeof_sbuf = 56"

definition new_sbufs :: "u64 \<Rightarrow> sbuf_t option list" where
  "new_sbufs bytes = replicate (unat bytes div unat sizeof_sbuf) None"

text \<open>Following a pointer to an array.\<close>
definition sbuf_at :: "addr \<Rightarrow> 'a sbst_scheme \<Rightarrow> sbuf_arr res" where
  "sbuf_at p s =
     (if p = 0 then Inl NullDeref
      else case sbufs s p of None \<Rightarrow> Inl UseAfterFree | Some arr \<Rightarrow> Inr arr)"

section \<open>Operations\<close>

definition init_stack_buf :: "alloc \<Rightarrow> u64 \<Rightarrow> 'a sbst_scheme \<Rightarrow> (addr \<times> 'a sbst_scheme) res" where
  "init_stack_buf al sz s =
     (let (a, s1) = kmalloc al (sz * sizeof_sbuf) s; its = new_sbufs (sz * sizeof_sbuf)
      in if a = 0 then Inr (0, s1)
         else if its = [] then Inl OutOfBounds
         else Inr (a, s1\<lparr>sbufs := (sbufs s1)(a \<mapsto> \<lparr>s_cur = 0, s_cap = sz, s_items = its\<rparr>)\<rparr>))"

text \<open>A list head copied by value into another array.\<close>
fun dangling :: "hole_list \<Rightarrow> hole_list" where
  "dangling (HL hs) = HL_dangling hs"
| "dangling (HL_dangling hs) = HL_dangling hs"

text \<open>The copying loop of a reallocation: \<open>n\<close> elements from the old array to the new one.\<close>
fun copy_bufs ::
  "alloc \<Rightarrow> nat \<Rightarrow> sbuf_t option list \<Rightarrow> sbuf_t option list \<Rightarrow> 'a machine_scheme
     \<Rightarrow> (sbuf_t option list \<times> 'a machine_scheme) res" where
  "copy_bufs al 0 its news s = Inr (news, s)"
| "copy_bufs al (Suc n) [] news s = Inl OutOfBounds"
| "copy_bufs al (Suc n) (None # its) news s = Inl Uninitialised"
| "copy_bufs al (Suc n) (Some t1 # its) [] s = Inl OutOfBounds"
| "copy_bufs al (Suc n) (Some t1 # its) (t2 # news) s =
     (let (b, s1) = kmalloc al (sb_len t1) s
      in bind_res (memcpy b (sb_buf t1) (sb_len t1) (mem s1)) (\<lambda>m.
         bind_res (kfree (sb_buf t1) (s1\<lparr>mem := m\<rparr>)) (\<lambda>s2.
         bind_res (copy_bufs al n its news s2) (\<lambda>(ts, s3).
         Inr (Some (t1\<lparr>sb_buf := b, sb_holes := dangling (sb_holes t1)\<rparr>) # ts, s3)))))"

text \<open>Reallocation of a full array. \<open>None\<close>: the new array could not be allocated.\<close>
definition grow_stack_buf ::
  "alloc \<Rightarrow> addr \<Rightarrow> sbuf_arr \<Rightarrow> 'a sbst_scheme \<Rightarrow> ((addr \<times> sbuf_arr) option \<times> 'a sbst_scheme) res" where
  "grow_stack_buf al p arr s =
     (let tmp_cap = 2 * s_cap arr;
          (a, s1) = kmalloc al (tmp_cap * sizeof_sbuf) s;
          news = new_sbufs (tmp_cap * sizeof_sbuf)
      in if a = 0 then Inr (None, s1)
         else if news = [] then Inl OutOfBounds
         else bind_res (copy_bufs al (unat (s_cur arr)) (s_items arr) news s1) (\<lambda>(its, s2).
              bind_res (kfree p s2) (\<lambda>s3.
              let arr' = \<lparr>s_cur = s_cur arr, s_cap = tmp_cap, s_items = its\<rparr>
              in Inr (Some (a, arr'), s3\<lparr>sbufs := (sbufs s3)(p := None, a \<mapsto> arr')\<rparr>))))"

text \<open>The result, the array as the caller's pointer now has it, and the state.\<close>
definition copy_stack_buf ::
  "alloc \<Rightarrow> addr \<Rightarrow> addr \<Rightarrow> u64 \<Rightarrow> 'a sbst_scheme \<Rightarrow> (int \<times> addr \<times> 'a sbst_scheme) res" where
  "copy_stack_buf al p buf len s =
     bind_res (sbuf_at p s) (\<lambda>arr.
     bind_res (if s_cur arr = s_cap arr then grow_stack_buf al p arr s
               else Inr (Some (p, arr), s)) (\<lambda>(r, s1).
     case r of
       None \<Rightarrow> Inr (-1, p, s1)
     | Some (p1, arr1) \<Rightarrow>
         (let cur = unat (s_cur arr)
          in if length (s_items arr1) \<le> cur then Inl OutOfBounds
             else let (b, s2) = kmalloc al len s1
             in bind_res (memcpy b buf len (mem s2)) (\<lambda>m.
                let t = \<lparr>sb_buf = b, sb_start = buf, sb_len = len, sb_holes = HL []\<rparr>;
                    arr2 = arr1\<lparr>s_items := (s_items arr1)[cur := Some t], s_cur := s_cur arr1 + 1\<rparr>
                in Inr (0, p1, s2\<lparr>mem := m, sbufs := (sbufs s2)(p1 \<mapsto> arr2)\<rparr>)))))"

text \<open>The pointer difference is a \<open>long\<close>, the result an \<open>int\<close>.\<close>
definition cmp :: "hole_t \<Rightarrow> hole_t \<Rightarrow> int" where
  "cmp ha hb = sint (ucast (h_start ha - h_start hb) :: u32)"

text \<open>The loop over the holes of one segment, from \<open>from\<close> in the buffer to \<open>to\<close> on the stack.\<close>
fun copy_around :: "hole_t list \<Rightarrow> addr \<Rightarrow> addr \<Rightarrow> memory \<Rightarrow> (addr \<times> addr \<times> memory) res" where
  "copy_around [] from to m = Inr (from, to, m)"
| "copy_around (h # hs) from to m =
     (let len = h_start h - from
      in bind_res (if len \<noteq> 0 then memcpy to from len m else Inr m) (\<lambda>m1.
         copy_around hs (h_start h + h_len h) (to + (len + h_len h)) m1))"

text \<open>
  One round of the outer loop; the list of holes is left sorted. A list head that was copied
  counts as leading to the freed array. That is what happens for an empty list, which is the
  only one the code copies: holes are added after all segments of a frame are saved. Of a list
  with elements \<open>list_sort\<close> would relink the elements to the new head; that case does not arise
  and is not told apart.
\<close>
definition restore_seg :: "sorter \<Rightarrow> sbuf_t \<Rightarrow> memory \<Rightarrow> (sbuf_t \<times> memory) res" where
  "restore_seg srt t m =
     (case sb_holes t of
        HL_dangling _ \<Rightarrow> Inl UseAfterFree
      | HL hs \<Rightarrow>
          (let hs' = srt cmp hs
           in bind_res (copy_around hs' (sb_buf t) (sb_start t) m) (\<lambda>(from, to, m1).
              bind_res (memcpy to from (sb_buf t + sb_len t - from) m1) (\<lambda>m2.
              Inr (t\<lparr>sb_holes := HL hs'\<rparr>, m2)))))"

text \<open>The outer loop over \<open>n\<close> elements, which counts \<open>cur\<close> down.\<close>
fun restore_segs ::
  "sorter \<Rightarrow> nat \<Rightarrow> u64 \<Rightarrow> sbuf_t option list \<Rightarrow> memory \<Rightarrow> (u64 \<times> sbuf_t option list \<times> memory) res" where
  "restore_segs srt 0 cur its m = Inr (cur, its, m)"
| "restore_segs srt (Suc n) cur [] m = Inl OutOfBounds"
| "restore_segs srt (Suc n) cur (None # its) m = Inl Uninitialised"
| "restore_segs srt (Suc n) cur (Some t # its) m =
     bind_res (restore_seg srt t m) (\<lambda>(t', m1).
     bind_res (restore_segs srt n (cur - 1) its m1) (\<lambda>(cur', its', m2).
     Inr (cur', Some t' # its', m2)))"

definition restore_stack_buf :: "sorter \<Rightarrow> addr \<Rightarrow> 'a sbst_scheme \<Rightarrow> (int \<times> 'a sbst_scheme) res" where
  "restore_stack_buf srt p s =
     bind_res (sbuf_at p s) (\<lambda>arr.
     bind_res (restore_segs srt (unat (s_cur arr)) (s_cur arr) (s_items arr) (mem s)) (\<lambda>(cur', its', m').
     Inr (0, s\<lparr>mem := m', sbufs := (sbufs s)(p \<mapsto> arr\<lparr>s_cur := cur', s_items := its'\<rparr>)\<rparr>)))"

text \<open>A loop over the elements whose body does nothing.\<close>
definition print_stack_buf :: "addr \<Rightarrow> 'a sbst_scheme \<Rightarrow> 'a sbst_scheme res" where
  "print_stack_buf p s = bind_res (sbuf_at p s) (\<lambda>arr. Inr s)"

section \<open>Specification\<close>

definition in_hole :: "hole_t list \<Rightarrow> addr \<Rightarrow> bool" where
  "in_hole hs y \<longleftrightarrow> (\<exists>h \<in> set hs. in_region (h_start h) (h_len h) y)"

text \<open>Holes one after the other between two addresses of a buffer.\<close>
fun chain :: "hole_t list \<Rightarrow> addr \<Rightarrow> addr \<Rightarrow> bool" where
  "chain [] fr e = (fr \<le> e)"
| "chain (h # hs) fr e =
     (fr \<le> h_start h \<and> no_wrap (h_start h) (h_len h) \<and> chain hs (h_start h + h_len h) e)"

section \<open>Writing back around the holes\<close>

lemma in_hole_simps [simp]:
  "\<not> in_hole [] y" "in_hole (h # hs) y \<longleftrightarrow> in_region (h_start h) (h_len h) y \<or> in_hole hs y"
  by (auto simp: in_hole_def)

lemma chain_le: "chain hs fr e \<Longrightarrow> fr \<le> e"
proof (induction hs arbitrary: fr)
  case (Cons h hs)
  then have "h_start h \<le> h_start h + h_len h" by (auto intro: no_wrap_le)
  with Cons show ?case by fastforce
qed simp

lemma chain_in_hole: "chain hs fr e \<Longrightarrow> in_hole hs y \<Longrightarrow> fr \<le> y"
proof (induction hs arbitrary: fr)
  case (Cons h hs)
  have le: "h_start h \<le> h_start h + h_len h"
    using Cons.prems(1) by (auto intro: no_wrap_le)
  from Cons.prems(2) consider "in_region (h_start h) (h_len h) y" | "in_hole hs y" by auto
  then show ?case
  proof cases
    case 1
    then show ?thesis using Cons.prems(1) by (auto simp: in_region_iff word_le_nat_alt)
  next
    case 2
    then show ?thesis using Cons le by fastforce
  qed
qed simp

text \<open>The region left to write, as natural numbers.\<close>
lemma region_split:
  assumes "fr \<le> e" and "unat to + (unat e - unat fr) < 2 ^ 64"
  shows "no_wrap to (e - fr)" and "no_wrap fr (e - fr)"
    and "in_region to (e - fr) x \<longleftrightarrow> unat to \<le> unat x \<and> unat x < unat to + (unat e - unat fr)"
    and "in_region to (e - fr) x \<Longrightarrow> unat (fr + (x - to)) = unat fr + (unat x - unat to)"
proof -
  have d: "unat (e - fr) = unat e - unat fr" using assms(1) by (rule unat_sub)
  show nw: "no_wrap to (e - fr)" using assms(2) d by (simp add: no_wrap_def)
  show "no_wrap fr (e - fr)"
    using d assms(1) unat_u64_less [of e] by (simp add: no_wrap_def word_le_nat_alt)
  show iff: "in_region to (e - fr) x \<longleftrightarrow> unat to \<le> unat x \<and> unat x < unat to + (unat e - unat fr)"
    using in_region_iff [OF nw] d by simp
  assume "in_region to (e - fr) x"
  then have x: "unat to \<le> unat x" "unat x < unat to + (unat e - unat fr)" using iff by auto
  have "unat (x - to) = unat x - unat to" using x(1) by (simp add: unat_sub word_le_nat_alt)
  then show "unat (fr + (x - to)) = unat fr + (unat x - unat to)"
    using x unat_u64_less [of e] by (subst unat_add_lem [THEN iffD1]) auto
qed

lemma memcpy_len:
  "(if n \<noteq> 0 then memcpy d f n m else Inr m) = memcpy d f n m"
  by (simp add: memcpy_def)

text \<open>One hole: the bytes before it are copied, both pointers move behind it.\<close>
lemma hole_step:
  fixes e :: addr
  assumes "fr \<le> h_start h" and "unat (h_start h) + unat (h_len h) \<le> unat e"
    and "fr \<noteq> 0" and "to \<noteq> 0" and "unat to + (unat e - unat fr) < 2 ^ 64"
  defines "f \<equiv> h_start h + h_len h" and "t \<equiv> to + (h_start h - fr + h_len h)"
  shows "copy_around (h # hs) fr to m = copy_around hs f t (copy m to fr (h_start h - fr))"
    and "unat f = unat (h_start h) + unat (h_len h)"
    and "unat (h_start h - fr) = unat (h_start h) - unat fr"
    and "unat t = unat to + (unat (h_start h) - unat fr) + unat (h_len h)"
    and "f \<noteq> 0" and "t \<noteq> 0" and "unat t + (unat e - unat f) < 2 ^ 64"
proof -
  let ?l = "h_start h - fr" and ?n = "h_len h"
  have le: "unat fr \<le> unat (h_start h)" using assms(1) by (simp add: word_le_nat_alt)
  show f: "unat f = unat (h_start h) + unat ?n"
    unfolding f_def using assms(2) unat_u64_less [of e] by (subst unat_add_lem [THEN iffD1]) auto
  show l: "unat ?l = unat (h_start h) - unat fr" using assms(1) by (rule unat_sub)
  have ln: "unat (?l + ?n) = unat ?l + unat ?n"
    using l le assms(2) unat_u64_less [of e] by (subst unat_add_lem [THEN iffD1]) auto
  show t: "unat t = unat to + (unat (h_start h) - unat fr) + unat ?n"
    unfolding t_def using ln l le assms(2,5) by (subst unat_add_lem [THEN iffD1]) auto
  show "f \<noteq> 0" "t \<noteq> 0" using f t assms(3,4) le by (auto simp flip: unat_eq_0)
  show "unat t + (unat e - unat f) < 2 ^ 64" using t f le assms(2,5) by auto
  have "memcpy to fr ?l m = Inr (copy m to fr ?l)"
    using assms(2-5) l le unat_u64_less [of e] by (intro memcpy_ok) (auto simp: no_wrap_def)
  then show "copy_around (h # hs) fr to m = copy_around hs f t (copy m to fr ?l)"
    by (simp add: memcpy_len Let_def f_def t_def)
qed

lemma copy_around_chain:
  assumes "chain hs fr e" and "fr \<noteq> 0" and "to \<noteq> 0"
    and "unat to + (unat e - unat fr) < 2 ^ 64"
    and "unat to + (unat e - unat fr) \<le> unat fr \<or> unat e \<le> unat to"
  shows "bind_res (copy_around hs fr to m) (\<lambda>(f, t, m1). memcpy t f (e - f) m1) =
    Inr (\<lambda>x. if in_region to (e - fr) x \<and> \<not> in_hole hs (fr + (x - to))
              then m (fr + (x - to)) else m x)"
  using assms
proof (induction hs arbitrary: fr to m)
  case Nil
  then have "fr \<le> e" by simp
  from region_split(1,2) [OF this Nil(4)] Nil(2,3) show ?case
    by (auto simp: memcpy_ok copy_def)
next
  case (Cons h hs)
  let ?l = "h_start h - fr" and ?n = "h_len h"
  let ?f = "h_start h + ?n" and ?t = "to + (?l + ?n)" and ?m1 = "copy m to fr ?l"
  have c: "fr \<le> h_start h" "no_wrap (h_start h) ?n" "chain hs ?f e" using Cons.prems(1) by auto
  have fe: "?f \<le> e" using chain_le [OF c(3)] .
  have le: "unat fr \<le> unat (h_start h)" "unat ?f \<le> unat e"
    using c(1) fe by (simp_all add: word_le_nat_alt)
  have "unat ?f = unat (h_start h) + unat ?n" using c(2) by (rule no_wrap_unat_add) simp
  then have he: "unat (h_start h) + unat ?n \<le> unat e" using le(2) by simp
  note st = hole_step [OF c(1) he Cons.prems(2-4)]
  note f = st(2) and l = st(3) and t = st(4) [folded l]
  have h_e: "h_start h \<le> e" using he by (simp add: word_le_nat_alt)
  have sep: "unat ?t + (unat e - unat ?f) \<le> unat ?f \<or> unat e \<le> unat ?t"
    using Cons.prems(4,5) t f l le by auto
  note rest = st(7) sep and nz = st(5,6)
  have T: "in_region ?t (e - ?f) x \<longleftrightarrow> unat ?t \<le> unat x \<and> unat x < unat ?t + (unat e - unat ?f)"
    "in_region ?t (e - ?f) x \<Longrightarrow> unat (?f + (x - ?t)) = unat ?f + (unat x - unat ?t)" for x
    using region_split(3,4) [OF fe rest(1)] by blast+
  note R = region_split [OF order_trans [OF c(1) h_e] Cons.prems(4)]
  have L: "unat to + (unat (h_start h) - unat fr) < 2 ^ 64" using Cons.prems(4) le f by simp
  note P = region_split [OF c(1) L]
  note IH = Cons.IH [OF c(3) nz rest, of ?m1]
  have "(if in_region ?t (e - ?f) x \<and> \<not> in_hole hs (?f + (x - ?t)) then ?m1 (?f + (x - ?t)) else ?m1 x) =
    (if in_region to (e - fr) x \<and> \<not> in_hole (h # hs) (fr + (x - to)) then m (fr + (x - to)) else m x)"
    (is "?lhs = ?rhs") for x
  proof -
    let ?y = "fr + (x - to)"
    have same: "?f + (x - ?t) = ?y" by (simp add: algebra_simps)
    consider (out) "\<not> in_region to (e - fr) x" | (before) "in_region to ?l x"
      | (hole) "in_region to (e - fr) x" "\<not> in_region to ?l x" "\<not> in_region ?t (e - ?f) x"
      | (after) "in_region ?t (e - ?f) x"
      by blast
    then show ?thesis
    proof cases
      case out
      then have "\<not> in_region ?t (e - ?f) x" "\<not> in_region to ?l x"
        using T(1) R(3) P(3) t f l le by auto
      then show ?thesis using out by simp
    next
      case before
      then have y: "unat ?y < unat (h_start h)" using P(3,4) l le by auto
      then have "\<not> in_hole (h # hs) ?y"
        using chain_in_hole [OF c(3), of ?y] c(2) f by (auto simp: in_region_iff word_le_nat_alt)
      moreover have "in_region to (e - fr) x" "\<not> in_region ?t (e - ?f) x"
        using before T(1) R(3) P(3) t f l le by auto
      ultimately show ?thesis using before by simp
    next
      case hole
      then have "in_region (h_start h) ?n ?y"
        using R(3,4) T(1) P(3) t f l le c(2) by (auto simp: in_region_iff)
      then show ?thesis using hole by simp
    next
      case after
      have y: "unat ?f \<le> unat ?y" using T(2) [OF after] same by simp
      then have "\<not> in_region (h_start h) ?n ?y" using c(2) f by (auto simp: in_region_iff)
      moreover have x: "in_region to (e - fr) x" "\<not> in_region to ?l x"
        using after T(1) R(3) P(3) t f l le by auto
      moreover have "\<not> in_region to ?l ?y"
        using R(3) [of x] R(4) [OF x(1)] x(1) P(3) y Cons.prems(5) l le f by auto
      ultimately show ?thesis using after unfolding same by simp
    qed
  qed
  then show ?case using IH unfolding st(1) by simp
qed

section \<open>Sorting the holes\<close>

text \<open>
  What the module relies on from \<open>list_sort\<close>: it permutes the list, and with a comparison that
  agrees with an order of the elements by some key, it sorts by that key and is stable.
\<close>
definition list_sort_ok :: "sorter \<Rightarrow> bool" where
  "list_sort_ok srt \<longleftrightarrow>
     (\<forall>f hs. set (srt f hs) = set hs \<and> length (srt f hs) = length hs) \<and>
     (\<forall>f key hs. (\<forall>a \<in> set hs. \<forall>b \<in> set hs. 0 < f a b \<longleftrightarrow> (key b :: int) < key a) \<longrightarrow>
        srt f hs = sort_key key hs)"

lemma list_sort_okD:
  "list_sort_ok srt \<Longrightarrow>
     (\<And>a b. a \<in> set hs \<Longrightarrow> b \<in> set hs \<Longrightarrow> 0 < f a b \<longleftrightarrow> (key b :: int) < key a) \<Longrightarrow>
     srt f hs = sort_key key hs"
  by (simp add: list_sort_ok_def)

text \<open>An insertion sort that can stand for it.\<close>

fun insert_cmp :: "(hole_t \<Rightarrow> hole_t \<Rightarrow> int) \<Rightarrow> hole_t \<Rightarrow> hole_t list \<Rightarrow> hole_t list" where
  "insert_cmp f h [] = [h]"
| "insert_cmp f h (g # gs) = (if 0 < f h g then g # insert_cmp f h gs else h # g # gs)"

fun sort_cmp :: sorter where
  "sort_cmp f [] = []"
| "sort_cmp f (h # hs) = insert_cmp f h (sort_cmp f hs)"

lemma insert_cmp_key:
  "\<forall>g \<in> set gs. 0 < f h g \<longleftrightarrow> (key g :: int) < key h \<Longrightarrow> insert_cmp f h gs = insort_key key h gs"
  by (induction gs) auto

lemma sort_cmp_ok: "list_sort_ok sort_cmp"
proof -
  have "sort_cmp f hs = sort_key key hs"
    if "\<forall>a \<in> set hs. \<forall>b \<in> set hs. 0 < f a b \<longleftrightarrow> (key b :: int) < key a" for f key hs
    using that by (induction hs) (simp_all add: insert_cmp_key)
  moreover have "set (insert_cmp f h gs) = insert h (set gs) \<and> length (insert_cmp f h gs) = Suc (length gs)" for f h gs
    by (induction gs) auto
  then have "set (sort_cmp f hs) = set hs \<and> length (sort_cmp f hs) = length hs" for f hs
    by (induction hs) auto
  ultimately show ?thesis by (simp add: list_sort_ok_def)
qed

text \<open>Holes inside a buffer, pairwise apart.\<close>
definition holes_ok :: "addr \<Rightarrow> u64 \<Rightarrow> hole_t list \<Rightarrow> bool" where
  "holes_ok b n hs \<longleftrightarrow>
     (\<forall>h \<in> set hs. h_len h \<noteq> 0 \<and> unat b \<le> unat (h_start h) \<and> unat (h_start h) + unat (h_len h) \<le> unat b + unat n) \<and>
     sorted_wrt (\<lambda>h g. apart (h_start h) (h_len h) (h_start g) (h_len g)) hs"

lemma ucast_of_int: "(ucast (word_of_int k :: u64) :: u32) = word_of_int k"
  by (simp add: unsigned_of_int word_of_int_eq_iff)

lemma unat_diff_int:
  "sint (ucast ((a :: u64) - b) :: u32) = int (unat a) - int (unat b)"
  if "\<bar>int (unat a) - int (unat b)\<bar> < 2 ^ 31"
proof -
  let ?d = "int (unat a) - int (unat b)"
  have "a - b = word_of_int ?d" by simp
  then have "sint (ucast (a - b) :: u32) = signed_take_bit 31 ?d"
    by (simp only: ucast_of_int sint_sbintrunc') simp
  also have "\<dots> = ?d" using that by (intro signed_take_bit_int_eq_self) auto
  finally show ?thesis .
qed

lemma cmp_near:
  "\<bar>int (unat (h_start h)) - int (unat (h_start g))\<bar> < 2 ^ 31 \<Longrightarrow>
     cmp h g = int (unat (h_start h)) - int (unat (h_start g))"
  unfolding cmp_def by (rule unat_diff_int)

lemma holes_ok_inside:
  "holes_ok b n hs \<Longrightarrow> h \<in> set hs \<Longrightarrow>
     h_len h \<noteq> 0 \<and> unat b \<le> unat (h_start h) \<and> unat (h_start h) + unat (h_len h) \<le> unat b + unat n"
  by (simp add: holes_ok_def)

lemma pairwise_apart:
  "sorted_wrt (\<lambda>h g. apart (h_start h) (h_len h) (h_start g) (h_len g)) hs \<Longrightarrow>
     h \<in> set hs \<Longrightarrow> g \<in> set hs \<Longrightarrow> h \<noteq> g \<Longrightarrow> apart (h_start h) (h_len h) (h_start g) (h_len g)"
  by (induction hs) (auto simp: apart_sym)

lemma sorted_wrt_apart:
  "distinct hs \<Longrightarrow>
     (\<And>h g. h \<in> set hs \<Longrightarrow> g \<in> set hs \<Longrightarrow> h \<noteq> g \<Longrightarrow> apart (h_start h) (h_len h) (h_start g) (h_len g)) \<Longrightarrow>
     sorted_wrt (\<lambda>h g. apart (h_start h) (h_len h) (h_start g) (h_len g)) hs"
  by (induction hs) auto

lemma holes_ok_distinct:
  assumes "holes_ok b n hs"
  shows "distinct hs"
proof -
  have "h_len h \<noteq> 0" if "h \<in> set hs" for h using holes_ok_inside [OF assms that] by simp
  moreover have "sorted_wrt (\<lambda>h g. apart (h_start h) (h_len h) (h_start g) (h_len g)) hs"
    using assms by (simp add: holes_ok_def)
  ultimately show ?thesis
    by (induction hs) (auto simp: apart_irrefl)
qed

lemma sorted_chain:
  assumes "sorted (map (\<lambda>h. int (unat (h_start h))) hs)" and "distinct hs" and "b \<le> e"
    and "\<And>h g. h \<in> set hs \<Longrightarrow> g \<in> set hs \<Longrightarrow> h \<noteq> g \<Longrightarrow> apart (h_start h) (h_len h) (h_start g) (h_len g)"
    and "\<And>h. h \<in> set hs \<Longrightarrow> h_len h \<noteq> 0 \<and> unat b \<le> unat (h_start h) \<and> unat (h_start h) + unat (h_len h) \<le> unat e"
  shows "chain hs b e"
  using assms
proof (induction hs arbitrary: b)
  case (Cons h hs)
  have h: "unat b \<le> unat (h_start h)" "unat (h_start h) + unat (h_len h) \<le> unat e"
    using Cons.prems(5) [of h] by auto
  then have nw: "no_wrap (h_start h) (h_len h)" using unat_u64_less [of e] by (simp add: no_wrap_def)
  then have u: "unat (h_start h + h_len h) = unat (h_start h) + unat (h_len h)"
    by (rule no_wrap_unat_add) simp
  have le: "unat (h_start h + h_len h) \<le> unat (h_start g)" if "g \<in> set hs" for g
  proof -
    have "unat (h_start h) \<le> unat (h_start g)" "h \<noteq> g" "0 < unat (h_len g)"
      using Cons.prems(1,2) Cons.prems(5) [of g] that
      by (auto simp: unat_gt_0 word_le_def simp flip: word_le_nat_alt)
    with Cons.prems(4) [of h g] that u show ?thesis by (auto simp: apart_def)
  qed
  have "chain hs (h_start h + h_len h) e"
  proof (rule Cons.IH)
    show "sorted (map (\<lambda>h. int (unat (h_start h))) hs)" "distinct hs" using Cons.prems(1,2) by auto
    show "h_start h + h_len h \<le> e" using h u by (simp add: word_le_nat_alt)
  qed (use Cons.prems(4,5) le in auto)
  then show ?case using h(1) nw by (simp add: word_le_nat_alt)
qed simp

definition holes_in :: "addr \<Rightarrow> u64 \<Rightarrow> hole_t list \<Rightarrow> bool" where
  "holes_in b n hs \<longleftrightarrow>
     (\<forall>h \<in> set hs. h_len h \<noteq> 0 \<and> unat b \<le> unat (h_start h) \<and> unat (h_start h) + unat (h_len h) \<le> unat b + unat n)"

lemma sort_holes_key:
  assumes "list_sort_ok srt" and "holes_in b n hs" and "unat n \<le> 2 ^ 31"
  shows "srt cmp hs = sort_key (\<lambda>h. int (unat (h_start h))) hs"
proof -
  note inside = assms(2) [unfolded holes_in_def, rule_format]
  let ?key = "\<lambda>h. int (unat (h_start h))"
  have "\<bar>?key h - ?key g\<bar> < 2 ^ 31" if "h \<in> set hs" "g \<in> set hs" for h g
  proof -
    have "0 < unat (h_len h)" "0 < unat (h_len g)" "unat n \<le> 2147483648"
      using inside that assms(3) by (auto simp: unat_gt_0)
    with inside [OF that(1)] inside [OF that(2)]
    have "\<bar>?key h - ?key g\<bar> < 2147483648" by linarith
    then show ?thesis by simp
  qed
  then have "0 < cmp h g \<longleftrightarrow> ?key g < ?key h" if "h \<in> set hs" "g \<in> set hs" for h g
    using cmp_near [of h g] that by (metis diff_gt_0_iff_gt)
  then show ?thesis by (rule list_sort_okD [OF assms(1)])
qed

lemma sort_holes:
  assumes "list_sort_ok srt" and "holes_ok b n hs" and "no_wrap b n" and "unat n \<le> 2 ^ 31"
  shows "set (srt cmp hs) = set hs" and "chain (srt cmp hs) b (b + n)"
proof -
  let ?key = "\<lambda>h. int (unat (h_start h))"
  have "holes_in b n hs" using assms(2) by (simp add: holes_ok_def holes_in_def)
  then have srt: "srt cmp hs = sort_key ?key hs" using sort_holes_key assms(1,4) by blast
  then show "set (srt cmp hs) = set hs" by simp
  have u: "unat (b + n) = unat b + unat n" using assms(3) by (rule no_wrap_unat_add) simp
  show "chain (srt cmp hs) b (b + n)" unfolding srt
  proof (rule sorted_chain)
    show "distinct (sort_key ?key hs)" using holes_ok_distinct [OF assms(2)] by simp
    show "b \<le> b + n" using assms(3) by (rule no_wrap_le)
    show "apart (h_start h) (h_len h) (h_start g) (h_len g)"
      if "h \<in> set (sort_key ?key hs)" "g \<in> set (sort_key ?key hs)" "h \<noteq> g" for h g
      using that pairwise_apart [of hs h g] assms(2) by (simp add: holes_ok_def)
  qed (use holes_ok_inside [OF assms(2)] u in auto)
qed

text \<open>Holes that are not a chain make the loop run into a negative length.\<close>

lemma chain_bound: "chain hs fr e \<Longrightarrow> g \<in> set hs \<Longrightarrow> unat fr \<le> unat (h_start g)"
proof (induction hs arbitrary: fr)
  case (Cons h hs)
  then have "unat (h_start h) \<le> unat (h_start h + h_len h)"
    using no_wrap_le [of "h_start h" "h_len h"] by (simp add: word_le_nat_alt)
  with Cons show ?case by (force simp: word_le_nat_alt)
qed simp

lemma chain_end: "chain hs fr e \<Longrightarrow> g \<in> set hs \<Longrightarrow> unat (h_start g) + unat (h_len g) \<le> unat e"
proof (induction hs arbitrary: fr)
  case (Cons h hs)
  then show ?case
    using chain_le [of hs "h_start h + h_len h" e] no_wrap_unat_add [of "h_start h" "h_len h" "h_len h"]
    by (auto simp: word_le_nat_alt)
qed simp

lemma chain_apart:
  assumes "chain hs fr e" and "\<forall>h \<in> set hs. h_len h \<noteq> 0"
  shows "distinct hs" and "h \<in> set hs \<Longrightarrow> g \<in> set hs \<Longrightarrow> h \<noteq> g \<Longrightarrow> apart (h_start h) (h_len h) (h_start g) (h_len g)"
proof -
  have "distinct hs \<and> sorted_wrt (\<lambda>h g. apart (h_start h) (h_len h) (h_start g) (h_len g)) hs"
    using assms
  proof (induction hs arbitrary: fr)
    case (Cons h hs)
    have n: "unat (h_start h + h_len h) = unat (h_start h) + unat (h_len h)" "0 < unat (h_len h)"
      using Cons.prems no_wrap_unat_add [of "h_start h" "h_len h" "h_len h"] by (auto simp: unat_gt_0)
    have "unat (h_start h) + unat (h_len h) \<le> unat (h_start g)" if "g \<in> set hs" for g
      using chain_bound [of hs _ e g] Cons.prems(1) that n(1) by fastforce
    then show ?case using Cons n(2) by (force simp: apart_def)
  qed simp
  then show "distinct hs" and "h \<in> set hs \<Longrightarrow> g \<in> set hs \<Longrightarrow> h \<noteq> g \<Longrightarrow> apart (h_start h) (h_len h) (h_start g) (h_len g)"
    using pairwise_apart by blast+
qed

lemma memcpy_negative:
  assumes "memcpy d fr (h - fr) m = Inr m'"
  shows "fr \<le> h"
proof (rule ccontr)
  assume "\<not> fr \<le> h"
  then have lt: "unat h < unat fr" by (simp add: word_le_nat_alt)
  then have u: "unat (h - fr) = 2 ^ 64 + unat h - unat fr"
    using unat_u64_less [of fr] by (simp add: unat_sub_if_size word_size word_le_nat_alt)
  then have "\<not> no_wrap fr (h - fr)" "h - fr \<noteq> 0"
    using lt unat_u64_less [of fr] by (auto simp: no_wrap_def simp flip: unat_eq_0)
  then show False using assms by (auto simp: memcpy_def split: if_splits)
qed

lemma copy_around_needs_chain:
  assumes "bind_res (copy_around hs fr to m) (\<lambda>(f, t, m1). memcpy t f (e - f) m1) = Inr m'"
    and "\<forall>h \<in> set hs. no_wrap (h_start h) (h_len h)"
  shows "chain hs fr e"
  using assms
proof (induction hs arbitrary: fr to m)
  case Nil
  then show ?case using memcpy_negative by simp
next
  case (Cons h hs)
  from Cons.prems(1) obtain m1 where "memcpy to fr (h_start h - fr) m = Inr m1"
    "bind_res (copy_around hs (h_start h + h_len h) (to + (h_start h - fr + h_len h)) m1)
       (\<lambda>(f, t, m1). memcpy t f (e - f) m1) = Inr m'"
    by (auto simp: Let_def memcpy_len bind_res_eq_Inr)
  then show ?case using Cons.IH Cons.prems(2) memcpy_negative by auto
qed

section \<open>Restoring one segment\<close>

text \<open>What a segment holds for the stack: the bytes outside its holes, at their addresses.\<close>
definition seg_map :: "sbuf_t \<Rightarrow> memory \<Rightarrow> addr \<Rightarrow> u8 option" where
  "seg_map t m x =
     (let y = sb_buf t + (x - sb_start t)
      in case sb_holes t of
           HL_dangling _ \<Rightarrow> None
         | HL hs \<Rightarrow> if in_region (sb_start t) (sb_len t) x \<and> \<not> in_hole hs y then Some (m y) else None)"

text \<open>A partial memory written over a memory.\<close>
definition override :: "memory \<Rightarrow> (addr \<Rightarrow> u8 option) \<Rightarrow> memory" where
  "override m f = (\<lambda>x. case f x of None \<Rightarrow> m x | Some b \<Rightarrow> b)"

text \<open>
  A segment that can be written back: a user region of less than 2 GB, its buffer in kernel
  memory, and holes inside the buffer that do not overlap.
\<close>
definition seg_ok :: "sbuf_t \<Rightarrow> bool" where
  "seg_ok t \<longleftrightarrow>
     sb_start t \<noteq> 0 \<and> user_region (sb_start t) (sb_len t) \<and> unat (sb_len t) \<le> 2 ^ 31 \<and>
     kernel_base \<le> sb_buf t \<and> no_wrap (sb_buf t) (sb_len t) \<and>
     (case sb_holes t of HL hs \<Rightarrow> holes_ok (sb_buf t) (sb_len t) hs | HL_dangling _ \<Rightarrow> False)"

lemma restore_seg_ok:
  assumes "list_sort_ok srt" and "seg_ok t"
  obtains t' where "restore_seg srt t m = Inr (t', override m (seg_map t m))"
proof -
  obtain hs where hs: "sb_holes t = HL hs" "holes_ok (sb_buf t) (sb_len t) hs"
    using assms(2) by (auto simp: seg_ok_def split: hole_list.splits)
  note ok = assms(2) [unfolded seg_ok_def]
  have nw: "no_wrap (sb_buf t) (sb_len t)" using ok by simp
  note srt = sort_holes [OF assms(1) hs(2) nw]
  have e: "unat (sb_buf t + sb_len t) = unat (sb_buf t) + unat (sb_len t)"
    using nw by (rule no_wrap_unat_add) simp
  have "unat (sb_start t) + unat (sb_len t) \<le> unat (sb_buf t)" using ok user_below_kernel by blast
  with copy_around_chain [OF srt(2), of "sb_start t" m] e ok kernel_nonzero unat_u64_less [of "sb_buf t"]
  have "bind_res (copy_around (srt cmp hs) (sb_buf t) (sb_start t) m)
      (\<lambda>(f, u, m1). memcpy u f (sb_buf t + sb_len t - f) m1) =
    Inr (\<lambda>x. if in_region (sb_start t) (sb_len t) x \<and> \<not> in_hole (srt cmp hs) (sb_buf t + (x - sb_start t))
              then m (sb_buf t + (x - sb_start t)) else m x)"
    by auto
  moreover have "in_hole (srt cmp hs) = in_hole hs" using srt(1) ok by (auto simp: in_hole_def fun_eq_iff)
  ultimately have "bind_res (copy_around (srt cmp hs) (sb_buf t) (sb_start t) m)
      (\<lambda>(f, u, m1). memcpy u f (sb_buf t + sb_len t - f) m1) = Inr (override m (seg_map t m))"
    by (auto simp: override_def seg_map_def Let_def hs(1) fun_eq_iff)
  then have "restore_seg srt t m = Inr (t\<lparr>sb_holes := HL (srt cmp hs)\<rparr>, override m (seg_map t m))"
    by (auto simp: restore_seg_def hs(1) Let_def bind_res_eq_Inr)
  then show ?thesis using that by blast
qed

text \<open>What the holes of a segment that was written back must have been like.\<close>
lemma restore_seg_needs:
  assumes "list_sort_ok srt" and "seg_ok (t\<lparr>sb_holes := HL []\<rparr>)" and "sb_holes t = HL hs"
    and "\<forall>h \<in> set hs. h_len h \<noteq> 0 \<and> no_wrap (h_start h) (h_len h)" and "restore_seg srt t m = Inr r"
  shows "holes_ok (sb_buf t) (sb_len t) hs"
proof -
  from assms(5) obtain m' where "bind_res (copy_around (srt cmp hs) (sb_buf t) (sb_start t) m)
      (\<lambda>(f, u, m1). memcpy u f (sb_buf t + sb_len t - f) m1) = Inr m'"
    by (auto simp: restore_seg_def assms(3) Let_def bind_res_eq_Inr)
  moreover have perm: "set (srt cmp hs) = set hs" "length (srt cmp hs) = length hs"
    using assms(1) unfolding list_sort_ok_def by blast+
  ultimately have ch: "chain (srt cmp hs) (sb_buf t) (sb_buf t + sb_len t)"
    using copy_around_needs_chain assms(4) by blast
  note ap = chain_apart [OF ch]
  have "distinct hs" using ap(1) assms(4) perm by (metis card_distinct distinct_card)
  moreover have "unat (sb_buf t + sb_len t) = unat (sb_buf t) + unat (sb_len t)"
    using assms(2) no_wrap_unat_add [of "sb_buf t" "sb_len t" "sb_len t"] by (simp add: seg_ok_def)
  ultimately show ?thesis
    using ap(2) assms(4) perm(1) chain_bound [OF ch] chain_end [OF ch]
    by (auto simp: holes_ok_def intro!: sorted_wrt_apart)
qed

section \<open>The array as a partial memory\<close>

text \<open>Segments saved later win.\<close>
fun segs_map :: "sbuf_t list \<Rightarrow> memory \<Rightarrow> addr \<Rightarrow> u8 option" where
  "segs_map [] m = Map.empty"
| "segs_map (t # ts) m = seg_map t m ++ segs_map ts m"

definition active :: "sbuf_arr \<Rightarrow> sbuf_t list" where
  "active arr = map the (take (unat (s_cur arr)) (s_items arr))"

text \<open>What the array at \<open>p\<close> holds for the stack.\<close>
definition saved :: "addr \<Rightarrow> 'a sbst_scheme \<Rightarrow> addr \<Rightarrow> u8 option" where
  "saved p s = (case sbufs s p of None \<Rightarrow> Map.empty | Some arr \<Rightarrow> segs_map (active arr) (mem s))"

text \<open>The number of segments that can be saved before the array is reallocated.\<close>
definition room :: "addr \<Rightarrow> 'a sbst_scheme \<Rightarrow> nat" where
  "room p s = (case sbufs s p of None \<Rightarrow> 0 | Some arr \<Rightarrow> unat (s_cap arr) - unat (s_cur arr))"

text \<open>A well-formed array, none of whose lists dangles.\<close>
definition arr_ok :: "addr \<Rightarrow> 'a sbst_scheme \<Rightarrow> bool" where
  "arr_ok p s \<longleftrightarrow>
     heap_ok (live s) \<and> p \<in> blocks s \<and>
     (case sbufs s p of
        None \<Rightarrow> False
      | Some arr \<Rightarrow>
          length (s_items arr) = unat (s_cap arr) \<and> s_cur arr \<le> s_cap arr \<and>
          None \<notin> set (take (unat (s_cur arr)) (s_items arr)) \<and>
          (\<forall>t \<in> set (active arr). seg_ok t \<and> (sb_buf t, sb_len t) \<in> set (live s)))"

text \<open>The bytes of a region, at their addresses.\<close>
definition snapshot :: "memory \<Rightarrow> addr \<Rightarrow> u64 \<Rightarrow> addr \<Rightarrow> u8 option" where
  "snapshot m a n x = (if in_region a n x then Some (m x) else None)"

text \<open>A segment of the user stack that can be saved.\<close>
definition segment :: "addr \<Rightarrow> u64 \<Rightarrow> bool" where
  "segment a n \<longleftrightarrow> a \<noteq> 0 \<and> n \<noteq> 0 \<and> user_region a n \<and> unat n \<le> 2 ^ 31"

text \<open>Two memories that agree on kernel addresses, and on all allocated blocks.\<close>

definition same_kernel :: "memory \<Rightarrow> memory \<Rightarrow> bool" where
  "same_kernel m m' \<longleftrightarrow> (\<forall>x. \<not> is_user x \<longrightarrow> m x = m' x)"

definition frame :: "'a machine_scheme \<Rightarrow> 'b machine_scheme \<Rightarrow> bool" where
  "frame s s' \<longleftrightarrow>
     set (live s) \<subseteq> set (live s') \<and>
     (\<forall>b \<in> set (live s). \<forall>x. in_region (fst b) (snd b) x \<longrightarrow> mem s' x = mem s x)"

section \<open>Lemmas on arrays\<close>

lemma override_empty [simp]: "override m Map.empty = m"
  by (simp add: override_def)

lemma override_add: "override m (f ++ g) = override (override m f) g"
  by (auto simp: override_def map_add_def split: option.splits)

lemma segs_map_append: "segs_map (ts @ us) m = segs_map ts m ++ segs_map us m"
  by (induction ts) (simp_all add: map_add_assoc)

lemma seg_map_user: "seg_ok t \<Longrightarrow> seg_map t m x = Some c \<Longrightarrow> is_user x"
  by (auto simp: seg_map_def seg_ok_def Let_def in_user_region split: hole_list.splits if_splits)

lemma segs_map_user: "\<forall>t \<in> set ts. seg_ok t \<Longrightarrow> segs_map ts m x = Some c \<Longrightarrow> is_user x"
  by (induction ts arbitrary: c) (auto simp: map_add_Some_iff dest: seg_map_user)

text \<open>A byte of the buffer of a segment.\<close>
lemma buf_byte:
  assumes "no_wrap b n" and "in_region a n x"
  shows "in_region b n (b + (x - a))"
  using assms by (simp add: in_region_def)

lemma kernel_byte:
  assumes "kernel_base \<le> b" and "no_wrap b n" and "in_region b n y"
  shows "\<not> is_user y"
  using assms by (intro kernel_not_user) (auto simp: in_region_iff word_le_nat_alt)

lemma seg_map_cong:
  assumes "seg_ok t" and "\<And>y. in_region (sb_buf t) (sb_len t) y \<Longrightarrow> m y = m' y"
  shows "seg_map t m = seg_map t m'"
  using assms buf_byte by (auto simp: seg_map_def seg_ok_def Let_def fun_eq_iff split: hole_list.splits)

lemma segs_map_cong:
  assumes "\<And>t. t \<in> set ts \<Longrightarrow> seg_ok t"
    and "\<And>t y. t \<in> set ts \<Longrightarrow> in_region (sb_buf t) (sb_len t) y \<Longrightarrow> m y = m' y"
  shows "segs_map ts m = segs_map ts m'"
  using assms
proof (induction ts)
  case (Cons t ts)
  have "seg_map t m = seg_map t m'" using Cons.prems by (intro seg_map_cong) auto
  moreover have "segs_map ts m = segs_map ts m'" using Cons by force
  ultimately show ?case by simp
qed simp

lemma segs_map_same_kernel:
  "\<forall>t \<in> set ts. seg_ok t \<Longrightarrow> same_kernel m m' \<Longrightarrow> segs_map ts m = segs_map ts m'"
  by (rule segs_map_cong) (auto simp: same_kernel_def seg_ok_def dest: kernel_byte)

lemma same_kernel_override:
  "\<forall>t \<in> set ts. seg_ok t \<Longrightarrow> same_kernel m (override m (segs_map ts m'))"
  by (auto simp: same_kernel_def override_def split: option.splits dest: segs_map_user)

lemma frame_trans: "frame s t \<Longrightarrow> frame t u \<Longrightarrow> frame s u"
  by (auto simp: frame_def subset_eq)

text \<open>Writing to user memory leaves all blocks as they are.\<close>
lemma frame_user:
  assumes "heap_ok (live s)" and "same_kernel (mem s) (mem s')" and "live s' = live s"
  shows "frame s s'"
proof -
  have "mem s' x = mem s x" if "b \<in> set (live s)" "in_region (fst b) (snd b) x" for b x
    using assms(2) kernel_byte [OF _ _ that(2)] heap_ok_block [OF assms(1), of "fst b" "snd b"] that(1)
    by (simp add: same_kernel_def)
  then show ?thesis using assms(3) by (auto simp: frame_def)
qed

lemma restore_segs_ok:
  assumes "list_sort_ok srt"
  shows "\<forall>t \<in> set ts. seg_ok t \<Longrightarrow>
    \<exists>its'. length its' = length ts \<and>
      restore_segs srt (length ts) cur (map Some ts @ rest) m =
        Inr (cur - of_nat (length ts), its' @ rest, override m (segs_map ts m))"
proof (induction ts arbitrary: cur m)
  case (Cons t ts)
  have t: "seg_ok t" and ts: "\<forall>t \<in> set ts. seg_ok t" using Cons.prems by auto
  from assms t obtain t' where t': "restore_seg srt t m = Inr (t', override m (seg_map t m))"
    by (rule restore_seg_ok)
  let ?m = "override m (seg_map t m)"
  obtain its' where its': "length its' = length ts"
    "restore_segs srt (length ts) (cur - 1) (map Some ts @ rest) ?m =
       Inr (cur - 1 - of_nat (length ts), its' @ rest, override ?m (segs_map ts ?m))"
    using Cons.IH [OF ts] by blast
  have "same_kernel m ?m" using same_kernel_override [of "[t]" m m] t by simp
  then have "segs_map ts ?m = segs_map ts m" using segs_map_same_kernel [OF ts] by metis
  then have "restore_segs srt (length (t # ts)) cur (map Some (t # ts) @ rest) m =
      Inr (cur - of_nat (length (t # ts)), (Some t' # its') @ rest, override m (segs_map (t # ts) m))"
    by (simp add: t' its'(2) override_add algebra_simps)
  then show ?case using its'(1) by (metis length_Cons)
qed simp

lemma arr_okD:
  assumes "arr_ok p s"
  obtains arr where "sbufs s p = Some arr" and "heap_ok (live s)" and "p \<in> blocks s" and "p \<noteq> 0"
    and "length (s_items arr) = unat (s_cap arr)" and "unat (s_cur arr) \<le> unat (s_cap arr)"
    and "s_items arr = map Some (active arr) @ drop (unat (s_cur arr)) (s_items arr)"
    and "length (active arr) = unat (s_cur arr)"
    and "\<forall>t \<in> set (active arr). seg_ok t" and "\<forall>t \<in> set (active arr). (sb_buf t, sb_len t) \<in> set (live s)"
proof -
  from assms obtain arr where a: "sbufs s p = Some arr" by (auto simp: arr_ok_def split: option.splits)
  note d = assms [unfolded arr_ok_def a option.case]
  obtain n where "(p, n) \<in> set (live s)" using d by (auto simp: blocks_def)
  then have "p \<noteq> 0" using heap_ok_block d kernel_nonzero by blast
  moreover have "map Some (active arr) = take (unat (s_cur arr)) (s_items arr)"
    using d unfolding active_def map_map
    by (intro map_idI) (metis comp_apply option.exhaust_sel)
  then have "s_items arr = map Some (active arr) @ drop (unat (s_cur arr)) (s_items arr)" by simp
  ultimately show ?thesis using that [OF a] d by (auto simp: word_le_nat_alt active_def)
qed

lemma saved_same_kernel:
  "arr_ok p s \<Longrightarrow> same_kernel (mem s) (mem s') \<Longrightarrow> sbufs s' p = sbufs s p \<Longrightarrow> saved p s' = saved p s"
  by (elim arr_okD) (auto simp: saved_def dest: segs_map_same_kernel)

lemma saved_frame:
  assumes "arr_ok p s" and "frame s s'" and "sbufs s' p = sbufs s p"
  shows "saved p s' = saved p s"
  using assms(1)
proof (rule arr_okD)
  fix arr
  assume a: "sbufs s p = Some arr" "\<forall>t \<in> set (active arr). seg_ok t"
    "\<forall>t \<in> set (active arr). (sb_buf t, sb_len t) \<in> set (live s)"
  have "segs_map (active arr) (mem s') = segs_map (active arr) (mem s)"
    using a(2,3) assms(2) by (intro segs_map_cong) (force simp: frame_def)+
  then show ?thesis using a(1) assms(3) by (simp add: saved_def)
qed

lemma arr_ok_frame:
  "arr_ok p s \<Longrightarrow> set (live s) \<subseteq> set (live s') \<Longrightarrow> heap_ok (live s') \<Longrightarrow> sbufs s' p = sbufs s p \<Longrightarrow> arr_ok p s'"
  by (auto simp: arr_ok_def blocks_def split: option.splits)

lemma restore_stack_buf_ok:
  assumes "list_sort_ok srt" and "arr_ok p s"
  obtains s' where "restore_stack_buf srt p s = Inr (0, s')"
    and "mem s' = override (mem s) (saved p s)" and "live s' = live s" and "arr_ok p s'"
    and "saved p s' = Map.empty" and "\<forall>q. q \<noteq> p \<longrightarrow> sbufs s' q = sbufs s q"
    and "room p s' = room p s + length (active (the (sbufs s p)))"
    and "same_kernel (mem s) (mem s')" and "calls s' = calls s"
    and "active (the (sbufs s' p)) = []" and "s' = s\<lparr>mem := mem s', sbufs := sbufs s'\<rparr>"
proof -
  from assms(2) obtain arr where a: "sbufs s p = Some arr" "heap_ok (live s)" "p \<in> blocks s" "p \<noteq> 0"
    "length (s_items arr) = unat (s_cap arr)" "unat (s_cur arr) \<le> unat (s_cap arr)"
    "s_items arr = map Some (active arr) @ drop (unat (s_cur arr)) (s_items arr)"
    "length (active arr) = unat (s_cur arr)" "\<forall>t \<in> set (active arr). seg_ok t"
    by (rule arr_okD)
  from restore_segs_ok [OF assms(1) a(9), of "s_cur arr" "drop (unat (s_cur arr)) (s_items arr)" "mem s"]
  obtain its where its: "length its = unat (s_cur arr)"
    "restore_segs srt (unat (s_cur arr)) (s_cur arr) (s_items arr) (mem s) =
       Inr (0, its @ drop (unat (s_cur arr)) (s_items arr), override (mem s) (segs_map (active arr) (mem s)))"
    unfolding a(8) a(7) [symmetric] by auto
  let ?arr = "arr\<lparr>s_cur := 0, s_items := its @ drop (unat (s_cur arr)) (s_items arr)\<rparr>"
  let ?s = "s\<lparr>mem := override (mem s) (segs_map (active arr) (mem s)), sbufs := (sbufs s)(p \<mapsto> ?arr)\<rparr>"
  have "restore_stack_buf srt p s = Inr (0, ?s)"
    using its(2) a(1,4) by (simp add: restore_stack_buf_def sbuf_at_def)
  moreover have "arr_ok p ?s" using a(2,3,5,6) its(1) by (simp add: arr_ok_def blocks_def active_def)
  moreover have "mem ?s = override (mem s) (saved p s)" using a(1) by (simp add: saved_def)
  moreover have "saved p ?s = Map.empty" "active (the (sbufs ?s p)) = []"
    by (simp_all add: saved_def active_def)
  moreover have "room p ?s = room p s + length (active (the (sbufs s p)))"
    using a(1,6,8) by (simp add: room_def)
  moreover have "same_kernel (mem s) (mem ?s)" using same_kernel_override [OF a(9)] by simp
  ultimately show ?thesis using that by simp
qed

text \<open>Saving a segment in an array that has room.\<close>
lemma copy_stack_buf_ok:
  assumes "alloc_ok al" and "arr_ok p s" and "0 < room p s" and "segment a n"
  obtains (null) "copy_stack_buf al p a n s = Inl NullDeref" and "\<not> allocs_ok al [n] s"
    | (ok) b s' where "copy_stack_buf al p a n s = Inr (0, p, s')"
      and "kmalloc al n s = (b, s'\<lparr>mem := mem s, sbufs := sbufs s\<rparr>)"
      and "arr_ok p s'" and "saved p s' = saved p s ++ snapshot (mem s) a n"
      and "room p s = Suc (room p s')" and "frame s s'"
      and "\<forall>x. is_user x \<longrightarrow> mem s' x = mem s x"
      and "\<forall>q. q \<noteq> p \<longrightarrow> sbufs s' q = sbufs s q" and "live s' = (b, n) # live s"
      and "active (the (sbufs s' p)) = active (the (sbufs s p)) @
             [\<lparr>sb_buf = b, sb_start = a, sb_len = n, sb_holes = HL []\<rparr>]"
proof -
  from assms(2) obtain arr where arr: "sbufs s p = Some arr" "heap_ok (live s)" "p \<in> blocks s" "p \<noteq> 0"
    "length (s_items arr) = unat (s_cap arr)" "unat (s_cur arr) \<le> unat (s_cap arr)"
    "s_items arr = map Some (active arr) @ drop (unat (s_cur arr)) (s_items arr)"
    "length (active arr) = unat (s_cur arr)" "\<forall>t \<in> set (active arr). seg_ok t"
    "\<forall>t \<in> set (active arr). (sb_buf t, sb_len t) \<in> set (live s)"
    by (rule arr_okD)
  let ?cur = "unat (s_cur arr)"
  have lt: "?cur < unat (s_cap arr)" using assms(3) arr(1) by (simp add: room_def)
  obtain b s1 where k: "kmalloc al n s = (b, s1)" by fastforce
  have seg: "a \<noteq> 0" "n \<noteq> 0" "user_region a n" "unat n \<le> 2 ^ 31" using assms(4) by (auto simp: segment_def)
  have at: "sbuf_at p s = Inr arr" using arr(1,4) by (simp add: sbuf_at_def)
  show ?thesis
  proof (cases "b = 0")
    case True
    have "copy_stack_buf al p a n s = Inl NullDeref"
      using lt k True seg(1,2) arr(5) by (auto simp: copy_stack_buf_def at memcpy_def)
    then show ?thesis using null k True by simp
  next
    case False
    have s1: "s1 = s\<lparr>calls := Suc (calls s), live := (b, n) # live s\<rparr>"
      using kmalloc_Some [OF k seg(2) False] by simp
    have hp: "heap_ok ((b, n) # live s)" using kmalloc_fresh(1) [OF k assms(1) arr(2) seg(2) False] .
    then have b: "kernel_base \<le> b" "no_wrap b n" by (auto simp: heap_ok_Cons)
    let ?t = "\<lparr>sb_buf = b, sb_start = a, sb_len = n, sb_holes = HL []\<rparr>"
    let ?arr = "arr\<lparr>s_items := (s_items arr)[?cur := Some ?t], s_cur := s_cur arr + 1\<rparr>"
    let ?m = "copy (mem s) b a n"
    let ?s = "s1\<lparr>mem := ?m, sbufs := (sbufs s1)(p \<mapsto> ?arr)\<rparr>"
    have m: "memcpy b a n (mem s1) = Inr ?m"
      using s1 False seg(1) b user_region_no_wrap [OF seg(3)] by (simp add: memcpy_ok)
    have r: "copy_stack_buf al p a n s = Inr (0, p, ?s)"
      using lt k m arr(5) by (auto simp: copy_stack_buf_def at Let_def)
    have cur: "unat (s_cur arr + 1) = Suc ?cur" by (rule unat_plus_1) (use lt in \<open>simp add: word_less_nat_alt\<close>)
    have act: "active ?arr = active arr @ [?t]"
      using lt arr(5) cur by (simp add: active_def take_Suc_conv_app_nth)
    have user: "\<not> is_user x" if "in_region b n x" for x using kernel_byte [OF b that] .
    have fr: "frame s ?s"
      using s1 fresh_not_in_block [OF hp] by (auto simp: frame_def)
    have "None \<notin> set (take (Suc ?cur) ((s_items arr)[?cur := Some ?t]))"
      using assms(2) arr(1) lt arr(5) by (auto simp: arr_ok_def take_Suc_conv_app_nth)
    moreover have "seg_ok ?t" using seg b by (simp add: seg_ok_def holes_ok_def)
    moreover have "s_cur arr + 1 \<le> s_cap arr" using lt cur by (simp add: word_le_nat_alt)
    ultimately have arr': "arr_ok p ?s"
      using s1 hp arr(3,5,9,10) act cur unfolding arr_ok_def by (auto simp: blocks_def)
    have "seg_map ?t ?m = snapshot (mem s) a n"
      using user in_user_region [OF seg(3)] buf_byte [OF b(2)]
      by (auto simp: seg_map_def snapshot_def Let_def fun_eq_iff)
    moreover have "segs_map (active arr) ?m = segs_map (active arr) (mem s)"
      using fr arr(9,10) by (intro segs_map_cong) (force simp: frame_def)+
    ultimately have sv: "saved p ?s = saved p s ++ snapshot (mem s) a n"
      using act arr(1) by (simp add: saved_def segs_map_append)
    have rm: "room p s = Suc (room p ?s)" using arr(1) lt cur by (simp add: room_def)
    show ?thesis
      by (rule ok [OF r _ arr' sv rm fr]) (use s1 k user act arr(1) in \<open>auto simp: copy_def\<close>)
  qed
qed

section \<open>Reallocation\<close>

lemma kmalloc_sbufs: "kmalloc al n s = (a, s') \<Longrightarrow> sbufs s' = sbufs s"
  by (auto simp: kmalloc_def Let_def split: if_splits)

lemma copy_bufs_dangling:
  "copy_bufs al n its news s = Inr (its', s') \<Longrightarrow> 0 < n \<Longrightarrow>
     \<exists>t hs ts. its' = Some t # ts \<and> sb_holes t = HL_dangling hs"
proof (induction al n its news s arbitrary: its' rule: copy_bufs.induct)
  case (5 al n t1 its t2 news s)
  obtain hs where "dangling (sb_holes t1) = HL_dangling hs" by (cases "sb_holes t1") auto
  with 5(2) show ?case by (auto simp: bind_res_eq_Inr split: prod.splits)
qed auto

lemma copy_bufs_length: "copy_bufs al n its news s = Inr (its', s') \<Longrightarrow> length its' = length news"
proof (induction al n its news s arbitrary: its' rule: copy_bufs.induct)
  case (5 al n t1 its t2 news s)
  then show ?case by (auto simp: bind_res_eq_Inr split: prod.splits)
qed auto

lemma length_new_sbufs: "length (new_sbufs n) < 2 ^ 63"
  using unat_u64_less [of n] by (simp add: new_sbufs_def sizeof_sbuf_def)

lemma restore_dangling:
  assumes "sbufs s p = Some arr" and "p \<noteq> 0" and "s_cur arr \<noteq> 0"
    and "s_items arr = Some t # ts" and "sb_holes t = HL_dangling hs"
  shows "restore_stack_buf srt p s = Inl UseAfterFree"
proof -
  obtain k where "unat (s_cur arr) = Suc k" using assms(3) by (metis not0_implies_Suc unat_eq_0)
  then show ?thesis using assms by (simp add: restore_stack_buf_def sbuf_at_def restore_seg_def)
qed

lemma grow_stack_buf_dangling:
  assumes "grow_stack_buf al p arr s = Inr (Some (p1, arr1), s1)" and "s_cur arr \<noteq> 0"
    and "alloc_ok al" and "heap_ok (live s)" and "p \<in> blocks s"
  obtains t ts hs where "s_items arr1 = Some t # ts" and "sb_holes t = HL_dangling hs"
    and "s_cur arr1 = s_cur arr" and "p1 \<noteq> p" and "p1 \<noteq> 0" and "sbufs s1 p = None"
    and "length (s_items arr1) < 2 ^ 63"
proof -
  let ?n = "2 * s_cap arr * sizeof_sbuf"
  from assms(1) obtain s0 its s2 where k: "kmalloc al ?n s = (p1, s0)" "p1 \<noteq> 0"
    and c: "copy_bufs al (unat (s_cur arr)) (s_items arr) (new_sbufs ?n) s0 = Inr (its, s2)"
    and r: "arr1 = \<lparr>s_cur = s_cur arr, s_cap = 2 * s_cap arr, s_items = its\<rparr>"
      "new_sbufs ?n \<noteq> []" and s1: "\<exists>s3. s1 = s3\<lparr>sbufs := (sbufs s3)(p := None, p1 \<mapsto> arr1)\<rparr>"
    by (auto simp: grow_stack_buf_def Let_def bind_res_eq_Inr split: prod.splits if_splits)
  have "0 < unat (s_cur arr)" using assms(2) by (simp add: unat_gt_0)
  with copy_bufs_dangling [OF c] obtain t hs ts where t: "its = Some t # ts" "sb_holes t = HL_dangling hs"
    by blast
  have "?n \<noteq> 0" using r(2) by (auto simp: new_sbufs_def)
  then have "p1 \<notin> blocks s"
    using kmalloc_fresh(1) [OF k(1) assms(3,4) _ k(2)] heap_ok_fresh by (fastforce simp: blocks_def)
  then have "p1 \<noteq> p" using assms(5) by blast
  moreover have "length its < 2 ^ 63" using copy_bufs_length [OF c] length_new_sbufs by metis
  ultimately show ?thesis using that [of t ts hs] t r(1) k(2) s1 by auto
qed

section \<open>Interface\<close>

text \<open>The bytes of segments saved at different moments; each with the memory of its moment.\<close>
fun snaps :: "(addr \<times> u64 \<times> memory) list \<Rightarrow> addr \<Rightarrow> u8 option" where
  "snaps [] = Map.empty"
| "snaps ((a, n, m) # xs) = snapshot m a n ++ snaps xs"

text \<open>
  A session: segments are saved in the store \<open>p\<close> one after the other, and between the calls
  memory outside the module's blocks changes in any way.
\<close>
inductive session ::
  "('p \<Rightarrow> addr \<Rightarrow> u64 \<Rightarrow> 's \<Rightarrow> (int \<times> 'p \<times> 's) res) \<Rightarrow> ('s \<Rightarrow> memory) \<Rightarrow> ('s \<Rightarrow> 's \<Rightarrow> bool) \<Rightarrow> 'p
     \<Rightarrow> (addr \<times> u64 \<times> memory) list \<Rightarrow> 's \<Rightarrow> 's \<Rightarrow> bool"
  for save bytes run p where
  start: "session save bytes run p [] s s"
| ran: "session save bytes run p xs s s1 \<Longrightarrow> run s1 s2 \<Longrightarrow> session save bytes run p xs s s2"
| saved: "session save bytes run p xs s s1 \<Longrightarrow> segment a n \<Longrightarrow> save p a n s1 = Inr (0, p', s2) \<Longrightarrow>
     session save bytes run p (xs @ [(a, n, bytes s1)]) s s2"

inductive_cases session_Nil: "session save bytes run p [] s s'"

lemma snaps_append: "snaps (xs @ ys) = snaps xs ++ snaps ys"
  by (induction xs rule: snaps.induct) (simp_all add: map_add_assoc)

locale stack_store =
  fixes save :: "'p \<Rightarrow> addr \<Rightarrow> u64 \<Rightarrow> 's \<Rightarrow> (int \<times> 'p \<times> 's) res"
    and restore :: "'p \<Rightarrow> 's \<Rightarrow> (int \<times> 's) res"
    and ok :: "'p \<Rightarrow> 's \<Rightarrow> bool"
    and held :: "'p \<Rightarrow> 's \<Rightarrow> addr \<Rightarrow> u8 option"
    and space :: "'p \<Rightarrow> 's \<Rightarrow> nat"
    and bytes :: "'s \<Rightarrow> memory"
    and run :: "'s \<Rightarrow> 's \<Rightarrow> bool"
  assumes save_law: "\<lbrakk>ok p s; 0 < space p s; segment a n; save p a n s = Inr (r, p', s')\<rbrakk> \<Longrightarrow>
      r = 0 \<and> p' = p \<and> ok p s' \<and> held p s' = held p s ++ snapshot (bytes s) a n \<and>
      space p s = Suc (space p s') \<and> (\<forall>x. is_user x \<longrightarrow> bytes s' x = bytes s x)"
    and save_fault: "\<lbrakk>ok p s; 0 < space p s; segment a n; save p a n s = Inl f\<rbrakk> \<Longrightarrow> f = NullDeref"
    and restore_law: "ok p s \<Longrightarrow> \<exists>s'. restore p s = Inr (0, s') \<and> ok p s' \<and>
      bytes s' = override (bytes s) (held p s) \<and> held p s' = Map.empty"
    and run_law: "ok p s \<Longrightarrow> run s s' \<Longrightarrow> ok p s' \<and> held p s' = held p s \<and> space p s' = space p s"
begin

lemma session_held:
  "session save bytes run p xs s s' \<Longrightarrow> ok p s \<Longrightarrow> length xs \<le> space p s \<Longrightarrow>
     ok p s' \<and> held p s' = held p s ++ snaps xs \<and> space p s = space p s' + length xs"
proof (induction rule: session.induct)
  case (saved xs s s1 a n p' s2)
  then have "ok p s1" "held p s1 = held p s ++ snaps xs" "space p s = space p s1 + length xs" by auto
  moreover from this saved.prems have "0 < space p s1" by simp
  ultimately show ?case using save_law [OF _ _ saved.hyps(2,3)] by (simp add: snaps_append)
qed (auto dest: run_law)

text \<open>The round trip: what was saved is written back, and nothing else.\<close>
lemma session_restore:
  assumes "session save bytes run p xs s s'" and "ok p s" and "length xs \<le> space p s"
    and "held p s = Map.empty"
  shows "\<exists>s''. restore p s' = Inr (0, s'') \<and> ok p s'' \<and> held p s'' = Map.empty \<and>
    bytes s'' = override (bytes s') (snaps xs)"
proof -
  have "ok p s'" "held p s' = snaps xs" using session_held [OF assms(1-3)] assms(4) by auto
  then show ?thesis using restore_law [of p s'] by auto
qed

end

text \<open>
  The user program and the rest of the kernel run: memory changes in any way, except for the
  blocks that the module allocated.
\<close>
definition others_ran :: "'a sbst_scheme \<Rightarrow> 'a sbst_scheme \<Rightarrow> bool" where
  "others_ran s s' \<longleftrightarrow> s' = s\<lparr>mem := mem s'\<rparr> \<and> frame s s'"

definition store_ok :: "alloc \<Rightarrow> sorter \<Rightarrow> addr \<Rightarrow> 'a sbst_scheme \<Rightarrow> bool" where
  "store_ok al srt p s \<longleftrightarrow> alloc_ok al \<and> list_sort_ok srt \<and> arr_ok p s"

lemma others_ran_arr:
  assumes "others_ran s s'"
  shows "sbufs s' = sbufs s" and "live s' = live s" and "calls s' = calls s"
  using assms by (cases s; cases s'; simp add: others_ran_def)+

interpretation ss: stack_store "copy_stack_buf al" "restore_stack_buf srt" "store_ok al srt" saved room mem others_ran
  for al srt
proof
  fix p p' :: addr and s s' :: "'a sbst_scheme" and a n r f
  assume o: "store_ok al srt p s"
  then have ok: "alloc_ok al" "list_sort_ok srt" "arr_ok p s" by (auto simp: store_ok_def)
  show "\<exists>s'. restore_stack_buf srt p s = Inr (0, s') \<and> store_ok al srt p s' \<and>
      mem s' = override (mem s) (saved p s) \<and> saved p s' = Map.empty"
    by (rule restore_stack_buf_ok [OF ok(2,3)]) (use ok in \<open>auto simp: store_ok_def\<close>)
  show "store_ok al srt p s' \<and> saved p s' = saved p s \<and> room p s' = room p s" if r: "others_ran s s'"
    using ok others_ran_arr [OF r] arr_ok_frame [of p s s'] saved_frame [of p s s'] r arr_okD [OF ok(3)]
    by (auto simp: store_ok_def room_def others_ran_def)
  assume "0 < room p s" "segment a n"
  note c = copy_stack_buf_ok [OF ok(1,3) this]
  show "r = 0 \<and> p' = p \<and> store_ok al srt p s' \<and> saved p s' = saved p s ++ snapshot (mem s) a n \<and>
      room p s = Suc (room p s') \<and> (\<forall>x. is_user x \<longrightarrow> mem s' x = mem s x)"
    if "copy_stack_buf al p a n s = Inr (r, p', s')"
    using that ok by (cases rule: c) (auto simp: store_ok_def)
  show "f = NullDeref" if "copy_stack_buf al p a n s = Inl f"
    using that by (cases rule: c) auto
qed

section \<open>Properties\<close>

text \<open>
  C4. Restoring an array: every byte of a saved segment that is not in a hole gets the value it
  had when the segment was saved, every other byte of memory keeps its value, the array is
  empty afterwards and nothing was freed.
\<close>
theorem restore_stack_buf_spec:
  assumes "list_sort_ok srt" and "arr_ok p s"
  shows "\<exists>s'. restore_stack_buf srt p s = Inr (0, s') \<and> arr_ok p s' \<and> saved p s' = Map.empty \<and>
    live s' = live s \<and>
    (\<forall>x. mem s' x = (case saved p s x of Some c \<Rightarrow> c | None \<Rightarrow> mem s x))"
  by (rule restore_stack_buf_ok [OF assms]) (auto simp: override_def split: option.splits)

text \<open>
  C5. Saving and restoring is a round trip: when segments are saved in an empty array with room
  for them, and memory outside the module's blocks changes in any way between the calls and after them, restoring
  gives every byte of a segment the value it had at the moment it was last saved, and leaves
  every other byte as it is.
\<close>
theorem save_restore_round_trip:
  assumes "alloc_ok al" and "list_sort_ok srt" and "arr_ok p s" and "saved p s = Map.empty"
    and "session (copy_stack_buf al) mem others_ran p xs s s'" and "length xs \<le> room p s"
  shows "\<exists>s''. restore_stack_buf srt p s' = Inr (0, s'') \<and> saved p s'' = Map.empty \<and>
    (\<forall>x. mem s'' x = (case snaps xs x of Some c \<Rightarrow> c | None \<Rightarrow> mem s' x))"
proof -
  have "store_ok al srt p s" using assms(1-3) by (simp add: store_ok_def)
  from ss.session_restore [OF assms(5) this assms(6,4)] show ?thesis
    by (force simp: override_def split: option.splits)
qed

text \<open>
  C14. When a segment can be written back: exactly if all its holes lie in its own buffer and no
  two of them overlap. Otherwise, as when two pointer parameters lead to the same object or
  one leads into another segment, \<open>memcpy\<close> is called with the difference of two pointers in the
  wrong order, a length that leaves the address space.
\<close>
theorem restore_seg_iff:
  assumes "list_sort_ok srt" and "seg_ok (t\<lparr>sb_holes := HL []\<rparr>)" and "sb_holes t = HL hs"
    and "\<forall>h \<in> set hs. h_len h \<noteq> 0 \<and> no_wrap (h_start h) (h_len h)"
  shows "(\<exists>r. restore_seg srt t m = Inr r) \<longleftrightarrow> holes_ok (sb_buf t) (sb_len t) hs"
proof
  assume "holes_ok (sb_buf t) (sb_len t) hs"
  then have "seg_ok t" using assms(2,3) by (simp add: seg_ok_def)
  with assms(1) show "\<exists>r. restore_seg srt t m = Inr r" by (rule restore_seg_ok) blast
qed (use restore_seg_needs [OF assms] in blast)

text \<open>
  C18. An array that is full is lost when one more segment is saved: the reallocation copies the
  list heads by value, so that restoring through the caller's new pointer runs into a list that
  leads to freed memory, and restoring through any other copy of the old pointer, as the stack
  of arrays keeps one, reads the freed array.
\<close>
theorem full_array_lost:
  assumes "alloc_ok al" and "arr_ok p s" and "room p s = 0" and "saved p s \<noteq> Map.empty"
    and "copy_stack_buf al p a n s = Inr (0, p', s')"
  shows "restore_stack_buf srt p s' = Inl UseAfterFree \<and> restore_stack_buf srt p' s' = Inl UseAfterFree"
proof -
  from assms(2) obtain arr where arr: "sbufs s p = Some arr" "heap_ok (live s)" "p \<in> blocks s" "p \<noteq> 0"
    "unat (s_cur arr) \<le> unat (s_cap arr)"
    by (rule arr_okD)
  have full: "s_cur arr = s_cap arr" using assms(3) arr(1,5) by (simp add: room_def word_unat_eq_iff)
  have cur: "s_cur arr \<noteq> 0" using assms(4) arr(1) by (auto simp: saved_def active_def)
  have at: "sbuf_at p s = Inr arr" using arr(1,4) by (simp add: sbuf_at_def)
  from assms(5) obtain r s1 where g: "grow_stack_buf al p arr s = Inr (r, s1)"
    by (cases "grow_stack_buf al p arr s") (auto simp: copy_stack_buf_def at full)
  then obtain p1 arr1 where r: "r = Some (p1, arr1)"
    using assms(5) by (cases r) (auto simp: copy_stack_buf_def at full)
  obtain b s2 where k: "kmalloc al n s1 = (b, s2)" by fastforce
  let ?cur = "unat (s_cur arr)"
  have len: "?cur < length (s_items arr1)"
    using assms(5) g r full by (simp add: copy_stack_buf_def at Let_def split: if_splits)
  let ?new = "\<lambda>t. arr1\<lparr>s_items := (s_items arr1)[?cur := Some t], s_cur := s_cur arr1 + 1\<rparr>"
  from assms(5) g r full k len obtain m t where
    p': "p' = p1" and s': "s' = s2\<lparr>mem := m, sbufs := (sbufs s2)(p1 \<mapsto> ?new t)\<rparr>"
    by (auto simp: copy_stack_buf_def at bind_res_eq_Inr Let_def)
  have sb: "sbufs s2 = sbufs s1" using kmalloc_sbufs [OF k] .
  from grow_stack_buf_dangling [OF g [unfolded r] cur assms(1) arr(2,3)] obtain t0 ts hs where
    d: "s_items arr1 = Some t0 # ts" "sb_holes t0 = HL_dangling hs" "s_cur arr1 = s_cur arr"
      "p1 \<noteq> p" "p1 \<noteq> 0" "sbufs s1 p = None" "length (s_items arr1) < 2 ^ 63" .
  have "restore_stack_buf srt p s' = Inl UseAfterFree"
    using d(4,6) arr(4) by (simp add: s' sb restore_stack_buf_def sbuf_at_def)
  moreover have "restore_stack_buf srt p1 s' = Inl UseAfterFree"
  proof (rule restore_dangling [of _ _ "?new t" t0 _ hs])
    obtain j where "?cur = Suc j" using cur by (metis not0_implies_Suc unat_eq_0)
    then show "s_items (?new t) = Some t0 # ts[?cur - 1 := Some t]" using d(1) by simp
    have "unat (s_cur arr + 1) = Suc ?cur" using len d(7) by (simp add: unat_word_ariths)
    then show "s_cur (?new t) \<noteq> 0" using d(3) by (auto simp flip: unat_eq_0)
  qed (use d s' in simp_all)
  ultimately show ?thesis using p' by simp
qed

section \<open>Witnesses\<close>

text \<open>An array of two elements; the first one is a segment of 16 bytes at 0x1000 with a hole.\<close>

definition seg1 :: sbuf_t where
  "seg1 = \<lparr>sb_buf = kernel_base + 112, sb_start = 0x1000, sb_len = 16,
     sb_holes = HL [\<lparr>h_start = kernel_base + 120, h_len = 4\<rparr>]\<rparr>"

definition sb_state :: "u64 \<Rightarrow> u64 \<Rightarrow> sbuf_t option list \<Rightarrow> sbst" where
  "sb_state cur cap its = \<lparr>mem = ucast, live = [(kernel_base + 112, 16), (kernel_base, 112)], calls = 2,
     addr_limit = USER_DS, fdtab = [], closed = [],
     sbufs = [kernel_base \<mapsto> \<lparr>s_cur = cur, s_cap = cap, s_items = its\<rparr>]\<rparr>"

lemmas sb_defs = seg1_def sb_state_def kernel_base_def

lemma seg1_ok: "seg_ok seg1"
  by (simp add: seg_ok_def sb_defs user_region_def user_top_def no_wrap_def holes_ok_def)

lemma sb_heap_ok: "heap_ok (live (sb_state cur cap its))" "kernel_base \<in> blocks (sb_state cur cap its)"
  by (simp_all add: sb_defs heap_ok_def apart_def no_wrap_def blocks_def)

lemma sb_state_ok:
  "arr_ok kernel_base (sb_state 1 2 [Some seg1, None])"
  "arr_ok kernel_base (sb_state 1 1 [Some seg1])"
  "arr_ok kernel_base (sb_state 0 2 [None, None])"
  using sb_heap_ok seg1_ok by (simp_all add: arr_ok_def active_def) (simp_all add: sb_defs active_def)

theorem restore_stack_buf_spec_witness:
  "\<exists>s'. restore_stack_buf sort_cmp kernel_base (sb_state 1 2 [Some seg1, None]) = Inr (0, s') \<and>
     mem s' 0x1001 = 0x71 \<and> mem s' 0x1009 = 9 \<and> mem s' 0x100c = 0x7c"
proof -
  let ?s = "sb_state 1 2 [Some seg1, None]"
  have "saved kernel_base ?s 0x1001 = Some 0x71" "saved kernel_base ?s 0x1009 = None"
    "saved kernel_base ?s 0x100c = Some 0x7c"
    by (simp_all add: saved_def active_def sb_defs seg_map_def in_region_def in_hole_def)
  moreover have "mem ?s 0x1009 = 9" by (simp add: sb_state_def)
  ultimately show ?thesis using restore_stack_buf_spec [OF sort_cmp_ok sb_state_ok(1)] by fastforce
qed

theorem restore_seg_iff_witness:
  "\<not> (\<exists>r. restore_seg sort_cmp (seg1\<lparr>sb_holes := HL [\<lparr>h_start = kernel_base + 120, h_len = 4\<rparr>,
     \<lparr>h_start = kernel_base + 122, h_len = 4\<rparr>]\<rparr>) ucast = Inr r)"
proof -
  let ?hs = "[\<lparr>h_start = kernel_base + 120, h_len = 4\<rparr>, \<lparr>h_start = kernel_base + 122, h_len = 4\<rparr>]"
  have "seg_ok (seg1\<lparr>sb_holes := HL ?hs, sb_holes := HL []\<rparr>)"
    using seg1_ok by (simp add: seg_ok_def sb_defs holes_ok_def)
  from restore_seg_iff [OF sort_cmp_ok this, of ?hs ucast] show ?thesis
    by (simp add: holes_ok_def apart_def no_wrap_def kernel_base_def)
qed

lemma sb_state_full:
  "\<exists>p' s'. copy_stack_buf bump kernel_base 0x2000 8 (sb_state 1 1 [Some seg1]) = Inr (0, p', s')"
  by (simp add: copy_stack_buf_def sbuf_at_def grow_stack_buf_def sb_defs kmalloc_def bump_def heap_top_def Let_def
      new_sbufs_def sizeof_sbuf_def memcpy_def no_wrap_def kfree_def ZERO_SIZE_PTR_def)

theorem full_array_lost_witness:
  "\<exists>p' s'. copy_stack_buf bump kernel_base 0x2000 8 (sb_state 1 1 [Some seg1]) = Inr (0, p', s') \<and>
     restore_stack_buf sort_cmp kernel_base s' = Inl UseAfterFree \<and>
     restore_stack_buf sort_cmp p' s' = Inl UseAfterFree"
proof -
  let ?s = "sb_state 1 1 [Some seg1]"
  have r: "room kernel_base ?s = 0" by (simp add: room_def sb_state_def)
  have "saved kernel_base ?s 0x1001 = Some 0x71"
    by (simp add: saved_def active_def sb_defs seg_map_def in_region_def in_hole_def)
  then have "saved kernel_base ?s \<noteq> Map.empty" by (metis option.distinct(1))
  from full_array_lost [OF alloc_ok_bump sb_state_ok(2) r this] sb_state_full show ?thesis by blast
qed

theorem save_restore_round_trip_witness:
  "\<exists>s1 s2. copy_stack_buf bump kernel_base 0x2000 8 (sb_state 0 2 [None, None]) = Inr (0, kernel_base, s1) \<and>
     restore_stack_buf sort_cmp kernel_base (s1\<lparr>mem := fill (mem s1) 0x2000 0x30 8\<rparr>) = Inr (0, s2) \<and>
     mem s2 0x2003 = 3"
proof -
  let ?s = "sb_state 0 2 [None, None]"
  have seg: "segment 0x2000 8" by (simp add: segment_def user_region_def user_top_def)
  have rm: "room kernel_base ?s = 2" by (simp add: room_def sb_state_def)
  have "allocs_ok bump [8] ?s" by (simp add: sb_defs kmalloc_def bump_def heap_top_def Let_def)
  then obtain s1 where s1: "copy_stack_buf bump kernel_base 0x2000 8 ?s = Inr (0, kernel_base, s1)"
    and ok1: "arr_ok kernel_base s1"
    using rm by (cases rule: copy_stack_buf_ok [OF alloc_ok_bump sb_state_ok(3) _ seg]) auto
  have hp: "heap_ok (live s1)" using arr_okD [OF ok1] .
  let ?s1 = "s1\<lparr>mem := fill (mem s1) 0x2000 0x30 8\<rparr>"
  have "user_region 0x2000 8" using seg by (simp add: segment_def)
  then have "same_kernel (mem s1) (mem ?s1)"
    using in_user_region by (auto simp: same_kernel_def fill_def)
  then have "others_ran s1 ?s1" using hp by (auto simp: others_ran_def intro: frame_user)
  with s1 seg have ses: "session (copy_stack_buf bump) mem others_ran kernel_base ([] @ [(0x2000, 8, mem ?s)]) ?s ?s1"
    by (intro session.ran [OF session.saved [OF session.start]])
  have "snaps ([] @ [(0x2000, 8, mem ?s)]) 0x2003 = Some 3"
    by (simp add: snapshot_def in_region_def sb_state_def)
  moreover have "saved kernel_base ?s = Map.empty" by (simp add: saved_def active_def sb_state_def)
  ultimately show ?thesis
    using save_restore_round_trip [OF alloc_ok_bump sort_cmp_ok sb_state_ok(3) _ ses] s1 rm by fastforce
qed

end
