(* ===== verification/Params.thy ===== *)
theory Params
  imports Machine
begin

text \<open>
  The parameter list that a user program passes to the system calls, and the accesses the
  kernel code makes to single words of memory. The list lives in the memory of the user
  program; the model passes it as a value.
\<close>

text \<open>
  The parameter list of \<open>memclear_para.h\<close>, as the kernel patch adds it. The count of pointer
  levels is an \<open>int\<close>; it is only compared with zero and decremented, so it is kept as 32 bits,
  which wrap around as the kernel's compiler flags make them.
\<close>

record para_t =
  p_addr :: u64
  p_size :: u64
  p_pointer :: u32

record para_list_t =
  pl_size :: int
  pl_list :: "para_t list"

text \<open>Reading and writing an \<open>unsigned long\<close> through a pointer.\<close>

definition load_ulong :: "addr \<Rightarrow> memory \<Rightarrow> u64 res" where
  "load_ulong a m =
     (if a = 0 then Inl NullDeref else if \<not> no_wrap a 8 then Inl BadAccess else Inr (load64 m a))"

definition store_ulong :: "addr \<Rightarrow> u64 \<Rightarrow> memory \<Rightarrow> memory res" where
  "store_ulong a v m =
     (if a = 0 then Inl NullDeref else if \<not> no_wrap a 8 then Inl BadAccess else Inr (store64 m a v))"

end
