(* ===== verification/Jprobe.thy ===== *)
theory Jprobe
  imports Parse_Elf Stack_Buf Params
begin

text \<open>
  The probes of the module, \<open>kernel_probe/jprobe.c\<close>: on \<open>encrypt_stack\<close> the stack frame of the
  calling function is saved and overwritten, except for the parameters it passes on, and on
  \<open>decrypt_stack\<close> the frame on top is written back. The globals of the module are the fields
  of \<open>kst\<close>. The parameter list, which lives in the heap of the user program, is a value; the
  handlers change it in place and return it. A result \<open>None\<close> of the encrypting loop stands for
  a loop that does not end.
\<close>

section \<open>Data\<close>

text \<open>An element of the call stack; its \<open>key\<close> is never read or written.\<close>

record cs_item_t =
  cs_self :: addr
  cs_op :: int
  cs_rsp :: u64
  cs_rbp :: u64
  cs_name :: cstr

definition ENCRYPT :: int where "ENCRYPT = 0"

definition sizeof_csit :: u64 where "sizeof_csit = 32"

definition sizeof_hole :: u64 where "sizeof_hole = 32"

record kst = sbst +
  mapper :: "mapper_t option"
  init :: int
  call_stack_top :: int
  call_stack :: "cs_item_t option list"
  sbuf_stack_top :: int
  sbuf_stack :: "addr list"
  pid :: int
  pg :: addr

text \<open>The globals as the module is loaded.\<close>
definition loaded :: "sbst \<Rightarrow> kst" where
  "loaded s = sbst.extend s
     \<lparr>mapper = None, init = 0, call_stack_top = 0, call_stack = replicate 64 None,
      sbuf_stack_top = 0, sbuf_stack = replicate 16 0, pid = -1, pg = 0\<rparr>"

definition path_to_exe :: cstring where
  "path_to_exe = map of_char ''/home/test/ftest''"

section \<open>Parameters\<close>

text \<open>How many bytes from \<open>a\<close> on belong to a parameter passed by value, \<open>n\<close> entries left.\<close>
fun contains_list :: "nat \<Rightarrow> para_t list \<Rightarrow> u64 \<Rightarrow> u64 res" where
  "contains_list 0 ps a = Inr 0"
| "contains_list (Suc n) [] a = Inl OutOfBounds"
| "contains_list (Suc n) (t # ps) a =
     (if a = p_addr t then (if p_pointer t \<noteq> 0 then Inr 0 else Inr (p_size t))
      else contains_list n ps a)"

definition contains :: "u64 \<Rightarrow> para_list_t \<Rightarrow> u64 res" where
  "contains a plt = contains_list (nat (pl_size plt)) (pl_list plt) a"

text \<open>The address in a buffer from which the bytes at \<open>a\<close> can be copied, or NULL.\<close>
fun find_seg :: "nat \<Rightarrow> sbuf_t option list \<Rightarrow> addr \<Rightarrow> u64 \<Rightarrow> addr res" where
  "find_seg 0 its a len = Inr 0"
| "find_seg (Suc n) [] a len = Inl OutOfBounds"
| "find_seg (Suc n) (None # its) a len = Inl Uninitialised"
| "find_seg (Suc n) (Some t # its) a len =
     (if sb_start t \<le> a \<and> a + len \<le> sb_start t + sb_len t then Inr (sb_buf t + (a - sb_start t))
      else find_seg n its a len)"

definition find_in_stack_buf :: "addr \<Rightarrow> u64 \<Rightarrow> addr \<Rightarrow> 'a sbst_scheme \<Rightarrow> addr res" where
  "find_in_stack_buf a len p s =
     bind_res (sbuf_at p s) (\<lambda>arr. find_seg (unat (s_cur arr)) (s_items arr) a len)"

text \<open>\<open>list_add_tail\<close> on the list of the first element.\<close>
fun list_add_tail :: "hole_t \<Rightarrow> hole_list \<Rightarrow> hole_list res" where
  "list_add_tail h (HL hs) = Inr (HL (hs @ [h]))"
| "list_add_tail h (HL_dangling []) = Inl UseAfterFree"
| "list_add_tail h (HL_dangling (g # gs)) = Inr (HL_dangling (g # gs @ [h]))"

fun add_to_first :: "hole_t \<Rightarrow> sbuf_t option list \<Rightarrow> sbuf_t option list res" where
  "add_to_first h [] = Inl OutOfBounds"
| "add_to_first h (None # its) = Inl Uninitialised"
| "add_to_first h (Some t # its) =
     bind_res (list_add_tail h (sb_holes t)) (\<lambda>hl. Inr (Some (t\<lparr>sb_holes := hl\<rparr>) # its))"

text \<open>A new hole; whichever buffer it lies in, it is put into the list of the first element.\<close>
definition add_hole :: "alloc \<Rightarrow> addr \<Rightarrow> addr \<Rightarrow> u64 \<Rightarrow> 'a sbst_scheme \<Rightarrow> 'a sbst_scheme res" where
  "add_hole al p start len s =
     (let (h, s1) = kmalloc al sizeof_hole s
      in if h = 0 then Inl NullDeref
         else bind_res (sbuf_at p s1) (\<lambda>arr.
              bind_res (add_to_first \<lparr>h_start = start, h_len = len\<rparr> (s_items arr)) (\<lambda>its.
              Inr (s1\<lparr>sbufs := (sbufs s1)(p \<mapsto> arr\<lparr>s_items := its\<rparr>)\<rparr>))))"

text \<open>One level of a pointer: its value is put back on the stack and then followed.\<close>
definition follow :: "alloc \<Rightarrow> addr \<Rightarrow> addr \<Rightarrow> addr \<Rightarrow> 'a sbst_scheme \<Rightarrow> (addr \<times> 'a sbst_scheme) res" where
  "follow al p addr_in_stack addr_in_buf s =
     bind_res (load_ulong addr_in_buf (mem s)) (\<lambda>org_value.
     bind_res (store_ulong addr_in_stack org_value (mem s)) (\<lambda>m.
     bind_res (add_hole al p addr_in_buf 8 (s\<lparr>mem := m\<rparr>)) (\<lambda>s1.
     bind_res (load_ulong addr_in_stack (mem s1)) (\<lambda>next_addr. Inr (next_addr, s1)))))"

text \<open>The inner loop over the remaining levels, which does not look at the result of the search.\<close>
fun chase :: "alloc \<Rightarrow> nat \<Rightarrow> addr \<Rightarrow> addr \<Rightarrow> 'a sbst_scheme \<Rightarrow> (addr \<times> 'a sbst_scheme) res" where
  "chase al 0 p a s = Inr (a, s)"
| "chase al (Suc k) p a s =
     bind_res (find_in_stack_buf a 8 p s) (\<lambda>b.
     bind_res (follow al p a b s) (\<lambda>(a', s'). chase al k p a' s'))"

text \<open>The body of the loop for a parameter that is a pointer.\<close>
definition restore_pointer ::
  "alloc \<Rightarrow> para_t \<Rightarrow> addr \<Rightarrow> 'a sbst_scheme \<Rightarrow> (int \<times> para_t \<times> 'a sbst_scheme) res" where
  "restore_pointer al t p s =
     (let t1 = t\<lparr>p_pointer := p_pointer t - 1\<rparr>
      in bind_res (find_in_stack_buf (p_addr t) 8 p s) (\<lambda>b.
         if b = 0 then Inr (-1, t1, s)
         else bind_res (follow al p (p_addr t) b s) (\<lambda>(a1, s1).
              bind_res (chase al (unat (p_pointer t1)) p a1 s1) (\<lambda>(a2, s2).
              let t2 = t1\<lparr>p_pointer := 0\<rparr>
              in bind_res (find_in_stack_buf a2 (p_size t) p s2) (\<lambda>b2.
                 if b2 \<noteq> 0
                 then bind_res (memcpy a2 b2 (p_size t) (mem s2)) (\<lambda>m.
                      bind_res (add_hole al p b2 (p_size t) (s2\<lparr>mem := m\<rparr>)) (\<lambda>s3. Inr (0, t2, s3)))
                 else Inr (0, t2, s2))))))"

fun restore_params ::
  "alloc \<Rightarrow> nat \<Rightarrow> para_t list \<Rightarrow> addr \<Rightarrow> 'a sbst_scheme \<Rightarrow> (int \<times> para_t list \<times> 'a sbst_scheme) res" where
  "restore_params al 0 ps p s = Inr (0, ps, s)"
| "restore_params al (Suc n) [] p s = Inl OutOfBounds"
| "restore_params al (Suc n) (t # ps) p s =
     (if p_pointer t = 0
      then bind_res (restore_params al n ps p s) (\<lambda>(r, ps', s'). Inr (r, t # ps', s'))
      else bind_res (restore_pointer al t p s) (\<lambda>(r, t', s1).
           if r = -1 then Inr (-1, t' # ps, s1)
           else bind_res (restore_params al n ps p s1) (\<lambda>(r', ps', s'). Inr (r', t' # ps', s'))))"

definition restore_pointers ::
  "alloc \<Rightarrow> para_list_t \<Rightarrow> addr \<Rightarrow> 'a sbst_scheme \<Rightarrow> (int \<times> para_list_t \<times> 'a sbst_scheme) res" where
  "restore_pointers al plt p s =
     bind_res (restore_params al (nat (pl_size plt)) (pl_list plt) p s) (\<lambda>(r, ps, s').
     Inr (r, plt\<lparr>pl_list := ps\<rparr>, s'))"

section \<open>Encrypting\<close>

text \<open>Save a segment and overwrite it with the character 0; the result of saving is not looked at.\<close>
definition wipe :: "alloc \<Rightarrow> addr \<Rightarrow> addr \<Rightarrow> u64 \<Rightarrow> 'a sbst_scheme \<Rightarrow> (addr \<times> 'a sbst_scheme) res" where
  "wipe al p a n s =
     bind_res (copy_stack_buf al p a n s) (\<lambda>(ret, p1, s1).
     bind_res (memset a 0x30 n (mem s1)) (\<lambda>m. Inr (p1, s1\<lparr>mem := m\<rparr>)))"

text \<open>One round of the loop: \<open>i\<close>, \<open>prev_rsp\<close>, the array and the state.\<close>
definition enc_step ::
  "alloc \<Rightarrow> para_list_t \<Rightarrow> u64 \<Rightarrow> u64 \<times> u64 \<times> addr \<times> 'a sbst_scheme \<Rightarrow> (u64 \<times> u64 \<times> addr \<times> 'a sbst_scheme) res" where
  "enc_step al plt user_rbp st =
     (case st of (i, prev_rsp, p, s) \<Rightarrow>
        bind_res (contains i plt) (\<lambda>skip.
        if skip \<noteq> 0
        then bind_res (if prev_rsp < i then wipe al p prev_rsp (i - prev_rsp) s else Inr (p, s)) (\<lambda>(p1, s1).
             Inr (i + skip, i + skip, p1, s1))
        else if i = user_rbp
        then bind_res (if prev_rsp < i then wipe al p prev_rsp (i - prev_rsp) s else Inr (p, s)) (\<lambda>(p1, s1).
             Inr (i + 1, prev_rsp, p1, s1))
        else Inr (i + 1, prev_rsp, p, s)))"

partial_function (option) enc_loop ::
  "alloc \<Rightarrow> para_list_t \<Rightarrow> u64 \<Rightarrow> u64 \<times> u64 \<times> addr \<times> 'a sbst_scheme \<Rightarrow> (addr \<times> 'a sbst_scheme) res option" where
  "enc_loop al plt user_rbp st =
     (if fst st \<le> user_rbp
      then (case enc_step al plt user_rbp st of
              Inl e \<Rightarrow> Some (Inl e)
            | Inr st' \<Rightarrow> enc_loop al plt user_rbp st')
      else Some (Inr (snd (snd st))))"

text \<open>What an element of the call stack points to.\<close>
definition csit_at :: "int \<Rightarrow> 'a kst_scheme \<Rightarrow> cs_item_t res" where
  "csit_at i s =
     bind_res (at_index i (call_stack s)) (\<lambda>c.
     case c of
       None \<Rightarrow> Inl NullDeref
     | Some csit \<Rightarrow> if cs_self csit \<in> blocks s then Inr csit else Inl UseAfterFree)"

fun init_sbufs :: "alloc \<Rightarrow> nat \<Rightarrow> 'a sbst_scheme \<Rightarrow> (addr list \<times> 'a sbst_scheme) res" where
  "init_sbufs al 0 s = Inr ([], s)"
| "init_sbufs al (Suc n) s =
     bind_res (init_stack_buf al 32 s) (\<lambda>(p, s1).
     bind_res (init_sbufs al n s1) (\<lambda>(ps, s2). Inr (p # ps, s2)))"

text \<open>What the first call does before anything else.\<close>
definition first_call :: "alloc \<Rightarrow> 'v vfs_scheme \<Rightarrow> 'a kst_scheme \<Rightarrow> 'a kst_scheme res" where
  "first_call al v s =
     bind_res (init_mapper al 8 s) (\<lambda>(mp, s1).
     bind_res (init_sbufs al 16 (s1\<lparr>mapper := mp\<rparr>)) (\<lambda>(ps, s2).
     bind_res (parse al v path_to_exe (mapper s2) (s2\<lparr>sbuf_stack := ps\<rparr>)) (\<lambda>(mp', s3).
     Inr (s3\<lparr>mapper := mp', init := 1\<rparr>))))"

text \<open>The new element of the call stack.\<close>
definition push_csit :: "alloc \<Rightarrow> cstring \<Rightarrow> u64 \<Rightarrow> u64 \<Rightarrow> 'a kst_scheme \<Rightarrow> 'a kst_scheme res" where
  "push_csit al func_name user_rsp user_rbp s =
     (let (c, s1) = kmalloc al sizeof_csit s
      in if c = 0 then Inl NullDeref
         else bind_res (dup_cstr al func_name s1) (\<lambda>(nm, s2).
              let csit = \<lparr>cs_self = c, cs_op = ENCRYPT, cs_rsp = user_rsp, cs_rbp = user_rbp, cs_name = nm\<rparr>;
                  top = call_stack_top s2
              in bind_res (at_index top (call_stack s2)) (\<lambda>_.
                 Inr (s2\<lparr>call_stack := (call_stack s2)[nat top := Some csit], call_stack_top := top + 1\<rparr>))))"

text \<open>From the two checks on; \<open>None\<close> when the loop does not end.\<close>
definition encrypt_frame ::
  "alloc \<Rightarrow> cstring \<Rightarrow> u64 \<Rightarrow> u64 \<Rightarrow> para_list_t \<Rightarrow> 'a kst_scheme \<Rightarrow> (int \<times> para_list_t \<times> 'a kst_scheme) res option" where
  "encrypt_frame al func_name user_rsp user_rbp plt s =
     (case push_csit al func_name user_rsp user_rbp s of
        Inl e \<Rightarrow> Some (Inl e)
      | Inr s1 \<Rightarrow>
          (case at_index (sbuf_stack_top s1) (sbuf_stack s1) of
             Inl e \<Rightarrow> Some (Inl e)
           | Inr stack_buf \<Rightarrow>
               (let s2 = s1\<lparr>sbuf_stack_top := sbuf_stack_top s1 + 1\<rparr>
                in case enc_loop al plt user_rbp (user_rsp, user_rsp, stack_buf, s2) of
                     None \<Rightarrow> None
                   | Some r \<Rightarrow>
                       Some (bind_res r (\<lambda>(p, s3).
                             bind_res (restore_pointers al plt p s3) (\<lambda>(ret, plt', s4).
                             Inr (0, plt', s4)))))))"

definition jsys_encrypt_stack ::
  "alloc \<Rightarrow> 'v vfs_scheme \<Rightarrow> addr \<Rightarrow> u64 \<Rightarrow> para_list_t \<Rightarrow> 'a kst_scheme
     \<Rightarrow> (int \<times> para_list_t \<times> 'a kst_scheme) res option" where
  "jsys_encrypt_stack al v kernel_rbp regs_sp para_list s =
     (let user_ip = load64 (mem s) (kernel_rbp + 96);
          user_rbp = load64 (mem s) kernel_rbp;
          user_rsp = regs_sp + 0x750
      in case (if init s = 0 then first_call al v s else Inr s) of
           Inl e \<Rightarrow> Some (Inl e)
         | Inr s1 \<Rightarrow>
             (case get_func_name (mapper s1) user_ip of
                Inl e \<Rightarrow> Some (Inl e)
              | Inr None \<Rightarrow> Some (Inr (0, para_list, s1))
              | Inr (Some func_name) \<Rightarrow>
                  if user_rbp < user_rsp then Some (Inr (-1, para_list, s1))
                  else (case (if 0 < call_stack_top s1
                              then bind_res (csit_at (call_stack_top s1 - 1) s1) (\<lambda>prev_csit. Inr ())
                              else Inr ()) of
                          Inl e \<Rightarrow> Some (Inl e)
                        | Inr _ \<Rightarrow> encrypt_frame al func_name user_rsp user_rbp para_list s1)))"

section \<open>Decrypting\<close>

definition jsys_decrypt_stack ::
  "sorter \<Rightarrow> addr \<Rightarrow> 'a kst_scheme \<Rightarrow> (int \<times> 'a kst_scheme) res" where
  "jsys_decrypt_stack srt kernel_rbp s =
     (let user_ip = load64 (mem s) (kernel_rbp + 96)
      in bind_res (get_func_name (mapper s) user_ip) (\<lambda>func_name.
         if call_stack_top s = 0 then Inr (-1, s)
         else bind_res (csit_at (call_stack_top s - 1) s) (\<lambda>prev_csit.
              case func_name of
                None \<Rightarrow> Inl NullDeref
              | Some fn \<Rightarrow>
                  (let _ = strcmp (snd (cs_name prev_csit)) fn;
                       s1 = s\<lparr>call_stack_top := call_stack_top s - 1\<rparr>
                   in bind_res (csit_at (call_stack_top s1) s1) (\<lambda>csit.
                      bind_res (kfree (fst (cs_name csit)) s1) (\<lambda>s2.
                      bind_res (kfree (cs_self csit) s2) (\<lambda>s3.
                      let s4 = s3\<lparr>sbuf_stack_top := sbuf_stack_top s3 - 1\<rparr>
                      in bind_res (at_index (sbuf_stack_top s4) (sbuf_stack s4)) (\<lambda>stack_buf.
                         bind_res (restore_stack_buf srt stack_buf s4) (\<lambda>(ret, s5). Inr (0, s5))))))))))"

section \<open>The probes on the write path\<close>

text \<open>
  They remember the process that writes to \<open>text.txt\<close> and the page its bytes are copied into.
  Registering them is commented out in \<open>jprobe_init\<close>.
\<close>

definition text_txt :: cstring where
  "text_txt = map of_char ''text.txt''"

text \<open>The bytes that \<open>jvfs_write\<close> prints, if any.\<close>
definition jvfs_write :: "cstring \<Rightarrow> (addr \<Rightarrow> addr) \<Rightarrow> 'a kst_scheme \<Rightarrow> int \<times> u8 list option" where
  "jvfs_write file_name kmap_atomic s =
     (0, if strcmp file_name text_txt = 0 \<and> pg s \<noteq> 0
         then Some (load_bytes (mem s) (kmap_atomic (pg s)) 512) else None)"

definition jgeneric_perform_write :: "cstring \<Rightarrow> int \<Rightarrow> 'a kst_scheme \<Rightarrow> int \<times> 'a kst_scheme" where
  "jgeneric_perform_write file_name current_pid s =
     (0, if strcmp file_name text_txt = 0 then s\<lparr>pid := current_pid\<rparr> else s)"

definition jiov_iter_copy_from_user_atomic :: "int \<Rightarrow> addr \<Rightarrow> u64 \<Rightarrow> 'a kst_scheme \<Rightarrow> u64 \<times> 'a kst_scheme" where
  "jiov_iter_copy_from_user_atomic current_pid page bytes s =
     (0, if current_pid = pid s \<and> bytes = 512 then s\<lparr>pg := page\<rparr> else s)"

section \<open>Loading and unloading\<close>

text \<open>
  \<open>register_jprobe\<close> is a parameter; the probes are named by their symbols. The result comes
  with the probes that are registered when the function returns.
\<close>
definition jprobe_init :: "(string \<Rightarrow> int) \<Rightarrow> int \<times> string list" where
  "jprobe_init register_jprobe =
     (let ret = register_jprobe ''sys_encrypt_stack''
      in if ret < 0 then (-1, [])
         else let ret2 = register_jprobe ''sys_decrypt_stack''
         in if ret2 < 0 then (-1, [''sys_encrypt_stack''])
         else (0, [''sys_encrypt_stack'', ''sys_decrypt_stack'']))"

definition jprobe_exit :: "string list \<Rightarrow> string list" where
  "jprobe_exit registered =
     filter (\<lambda>x. x \<noteq> ''sys_decrypt_stack'') (filter (\<lambda>x. x \<noteq> ''sys_encrypt_stack'') registered)"

end
