(* ===== verification/Vault.thy ===== *)
theory Vault
  imports Jprobe
begin

text \<open>
  What the probes of \<open>kernel_probe/jprobe.c\<close> do to the memory of the user program.
\<close>

section \<open>The scan as a list of segments\<close>

text \<open>
  The segments between \<open>i\<close> and \<open>rbp\<close> that the loop saves, when \<open>sk\<close> says how many bytes to skip
  at an address: a reference for \<open>enc_loop\<close> over natural numbers, without side effects.
\<close>
function segs :: "(nat \<Rightarrow> nat) \<Rightarrow> nat \<Rightarrow> nat \<Rightarrow> nat \<Rightarrow> (nat \<times> nat) list" where
  "segs sk rbp i prev =
     (if rbp < i then []
      else if sk i \<noteq> 0
      then (if prev < i then [(prev, i)] else []) @ segs sk rbp (i + sk i) (i + sk i)
      else if i = rbp then (if prev < i then [(prev, i)] else [])
      else segs sk rbp (i + 1) prev)"
  by pat_completeness auto
termination by (relation "measure (\<lambda>(sk, rbp, i, prev). Suc rbp - i)") auto

declare segs.simps [simp del]

text \<open>Saving and overwriting a list of segments.\<close>
fun wipe_all :: "alloc \<Rightarrow> (addr \<times> u64) list \<Rightarrow> addr \<Rightarrow> 'a sbst_scheme \<Rightarrow> (addr \<times> 'a sbst_scheme) res" where
  "wipe_all al [] p s = Inr (p, s)"
| "wipe_all al ((a, n) # xs) p s = bind_res (wipe al p a n s) (\<lambda>(p1, s1). wipe_all al xs p1 s1)"

text \<open>Natural numbers as the addresses and lengths of the code.\<close>
definition to_seg :: "nat \<times> nat \<Rightarrow> addr \<times> u64" where
  "to_seg ab = (of_nat (fst ab), of_nat (snd ab) - of_nat (fst ab))"

text \<open>What \<open>contains\<close> answers, over natural numbers.\<close>
definition skip_of :: "para_list_t \<Rightarrow> nat \<Rightarrow> nat" where
  "skip_of plt i = (case contains (of_nat i) plt of Inl e \<Rightarrow> 0 | Inr n \<Rightarrow> unat n)"

text \<open>
  A parameter list that fits the call: the count is that of the list, and every parameter
  passed by value ends below the top of user memory.
\<close>
definition plist_ok :: "para_list_t \<Rightarrow> bool" where
  "plist_ok plt \<longleftrightarrow>
     pl_size plt = int (length (pl_list plt)) \<and>
     (\<forall>t \<in> set (pl_list plt). p_pointer t = 0 \<longrightarrow> user_region (p_addr t) (p_size t))"

lemma contains_list_cases:
  "n \<le> length ps \<Longrightarrow>
     contains_list n ps a = Inr 0 \<or>
     (\<exists>t \<in> set ps. a = p_addr t \<and> p_pointer t = 0 \<and> contains_list n ps a = Inr (p_size t))"
  by (induction n ps a rule: contains_list.induct) auto

lemma contains_ok:
  assumes "plist_ok plt"
  shows "\<exists>n. contains a plt = Inr n \<and> (n = 0 \<or> user_region a n)"
proof -
  have "nat (pl_size plt) \<le> length (pl_list plt)" using assms by (simp add: plist_ok_def)
  from contains_list_cases [OF this, of a] assms show ?thesis
    by (auto simp: contains_def plist_ok_def)
qed

lemma wipe_all_append:
  "wipe_all al (xs @ ys) p s = bind_res (wipe_all al xs p s) (\<lambda>(p1, s1). wipe_all al ys p1 s1)"
  by (induction al xs p s rule: wipe_all.induct) (auto simp: bind_res_def split: sum.splits prod.splits)

lemma unat_user: "unat (rbp :: u64) < unat user_top \<Longrightarrow> i \<le> unat rbp + 2 ^ 47 \<Longrightarrow> unat (of_nat i :: u64) = i"
  by (simp add: user_top_def unat_of_nat)

text \<open>The loop of the probe is the reference scan, and it ends.\<close>
lemma enc_loop_segs:
  assumes "plist_ok plt" and "unat rbp < unat user_top"
  shows "i \<le> unat rbp + 2 ^ 47 \<Longrightarrow> prev \<le> i \<Longrightarrow>
    enc_loop al plt rbp (of_nat i, of_nat prev, p, s) =
      Some (wipe_all al (map to_seg (segs (skip_of plt) (unat rbp) i prev)) p s)"
proof (induction "skip_of plt" "unat rbp" i prev arbitrary: p s rule: segs.induct)
  case (1 i prev)
  have i: "unat (of_nat i :: u64) = i" "unat (of_nat prev :: u64) = prev"
    using unat_user [OF assms(2)] 1(3,4) by auto
  have cmp: "(of_nat i \<le> rbp) = (i \<le> unat rbp)" "((of_nat prev :: u64) < of_nat i) = (prev < i)"
    "(of_nat i = rbp) = (i = unat rbp)"
    using i by (auto simp: word_le_nat_alt word_less_nat_alt word_unat_eq_iff)
  obtain n where n: "contains (of_nat i) plt = Inr n" "n = 0 \<or> user_region (of_nat i) n"
    using contains_ok [OF assms(1)] by blast
  then have sk: "skip_of plt i = unat n" by (simp add: skip_of_def)
  have seg: "(of_nat prev, of_nat i - of_nat prev) = to_seg (prev, i)" by (simp add: to_seg_def)
  show ?case
  proof (cases "i \<le> unat rbp")
    case False
    then show ?thesis by (subst enc_loop.simps) (simp add: cmp segs.simps)
  next
    case le: True
    let ?st = "(of_nat i, of_nat prev, p, s)"
    have loop: "enc_loop al plt rbp ?st =
      (case enc_step al plt rbp ?st of Inl e \<Rightarrow> Some (Inl e) | Inr st' \<Rightarrow> enc_loop al plt rbp st')"
      using le by (subst enc_loop.simps) (simp add: cmp)
    have wiped: "(if (of_nat prev :: u64) < of_nat i then wipe al p (of_nat prev) (of_nat i - of_nat prev) s
        else Inr (p, s)) = wipe_all al (map to_seg (if prev < i then [(prev, i)] else [])) p s"
      by (simp add: cmp to_seg_def bind_res_def split: sum.splits)
    show ?thesis
    proof (cases "n = 0")
      case False
      have nx: "of_nat i + n = (of_nat (i + unat n) :: u64)" by simp
      have "i + unat n \<le> unat rbp + 2 ^ 47"
        using n(2) False i(1) by (simp add: user_region_def user_top_def)
      then have IH: "enc_loop al plt rbp (of_nat (i + unat n), of_nat (i + unat n), p1, s1) =
          Some (wipe_all al (map to_seg (segs (skip_of plt) (unat rbp) (i + unat n) (i + unat n))) p1 s1)"
        for p1 :: addr and s1 :: "'a sbst_scheme"
        using 1(1) [of p1 s1] le False sk by (simp add: unat_eq_zero)
      have "enc_step al plt rbp ?st =
          bind_res (wipe_all al (map to_seg (if prev < i then [(prev, i)] else [])) p s) (\<lambda>(p1, s1).
          Inr (of_nat (i + unat n), of_nat (i + unat n), p1, s1))"
        using n False unfolding wiped [symmetric] nx [symmetric] by (simp add: enc_step_def)
      moreover have "segs (skip_of plt) (unat rbp) i prev =
          (if prev < i then [(prev, i)] else []) @ segs (skip_of plt) (unat rbp) (i + unat n) (i + unat n)"
        using le False sk by (subst segs.simps) (simp add: unat_eq_zero)
      ultimately show ?thesis
        unfolding loop
        by (cases "wipe_all al (map to_seg (if prev < i then [(prev, i)] else [])) p s")
          (auto simp: IH wipe_all_append simp del: of_nat_add)
    next
      case True
      have nx: "of_nat i + 1 = (of_nat (i + 1) :: u64)" by simp
      show ?thesis
      proof (cases "i = unat rbp")
        case True
        have "enc_step al plt rbp ?st =
            bind_res (wipe_all al (map to_seg (if prev < i then [(prev, i)] else [])) p s) (\<lambda>(p1, s1).
            Inr (of_nat (i + 1), of_nat prev, p1, s1))"
          using n \<open>n = 0\<close> True cmp unfolding wiped [symmetric] nx [symmetric] by (simp add: enc_step_def)
        moreover have "segs (skip_of plt) (unat rbp) i prev = (if prev < i then [(prev, i)] else [])"
          using True sk \<open>n = 0\<close> by (subst segs.simps) simp
        moreover have "unat (of_nat (i + 1) :: u64) = i + 1"
          by (rule unat_user [OF assms(2)]) (use True in simp)
        then have "enc_loop al plt rbp (of_nat (i + 1), of_nat prev, p1, s1) = Some (Inr (p1, s1))"
          for p1 :: addr and s1 :: "'a sbst_scheme"
          using True by (subst enc_loop.simps) (simp add: word_le_nat_alt del: of_nat_add)
        ultimately show ?thesis
          unfolding loop
          by (cases "wipe_all al (map to_seg (if prev < i then [(prev, i)] else [])) p s")
            (auto simp del: of_nat_add)
      next
        case False
        then have "enc_step al plt rbp ?st = Inr (of_nat (i + 1), of_nat prev, p, s)"
          using n \<open>n = 0\<close> cmp unfolding nx [symmetric] by (simp add: enc_step_def)
        moreover have "segs (skip_of plt) (unat rbp) i prev = segs (skip_of plt) (unat rbp) (i + 1) prev"
          using le False sk \<open>n = 0\<close> by (subst segs.simps) simp
        ultimately show ?thesis
          unfolding loop using 1(2) [of p s] le False sk \<open>n = 0\<close> 1(3,4) by (simp del: of_nat_add)
      qed
    qed
  qed
qed

section \<open>What the scan covers\<close>

definition hit :: "(nat \<times> nat) list \<Rightarrow> nat \<Rightarrow> bool" where
  "hit xs x \<longleftrightarrow> (\<exists>(a, b) \<in> set xs. a \<le> x \<and> x < b)"

lemma hit_simps [simp]:
  "\<not> hit [] x" "hit ((a, b) # xs) x \<longleftrightarrow> a \<le> x \<and> x < b \<or> hit xs x"
  "hit (xs @ ys) x \<longleftrightarrow> hit xs x \<or> hit ys x"
  by (auto simp: hit_def)

lemma segs_range: "prev \<le> i \<Longrightarrow> (a, b) \<in> set (segs sk rbp i prev) \<Longrightarrow> prev \<le> a \<and> a < b \<and> b \<le> rbp"
proof (induction sk rbp i prev rule: segs.induct)
  case (1 sk rbp i prev)
  from 1(4) show ?case
    using 1(1,2,3) by (subst (asm) segs.simps) (fastforce split: if_splits)
qed

lemma segs_sorted: "prev \<le> i \<Longrightarrow> sorted_wrt (\<lambda>x y. snd x \<le> fst y) (segs sk rbp i prev)"
proof (induction sk rbp i prev rule: segs.induct)
  case (1 sk rbp i prev)
  have "i \<le> fst y" if "y \<in> set (segs sk rbp (i + sk i) (i + sk i))" for y
    using segs_range [of "i + sk i" "i + sk i" "fst y" "snd y" sk rbp] that by simp
  then show ?case using 1 by (subst segs.simps) (auto simp: sorted_wrt_append)
qed

text \<open>
  \<open>K\<close> are the bytes to keep, \<open>B\<close> the addresses that are not inside a run of them. If the scan is
  told to skip exactly the runs, its segments are the bytes that are not to be kept.
\<close>
lemma segs_cover:
  assumes zero: "\<And>i. i \<le> rbp \<Longrightarrow> B i \<Longrightarrow> sk i = 0 \<Longrightarrow> \<not> K i \<and> B (i + 1)"
    and run: "\<And>i x. i \<le> rbp \<Longrightarrow> B i \<Longrightarrow> i \<le> x \<Longrightarrow> x < i + sk i \<Longrightarrow> K x"
    and end_run: "\<And>i. i \<le> rbp \<Longrightarrow> B i \<Longrightarrow> B (i + sk i)"
  shows "prev \<le> i \<Longrightarrow> i \<le> rbp \<or> rbp \<le> prev \<Longrightarrow> B i \<Longrightarrow> (\<And>y. prev \<le> y \<Longrightarrow> y < i \<Longrightarrow> \<not> K y) \<Longrightarrow>
    hit (segs sk rbp i prev) x \<longleftrightarrow> prev \<le> x \<and> x < rbp \<and> \<not> K x"
proof (induction "Suc rbp - i" arbitrary: i prev rule: less_induct)
  case less
  note pre = less.prems(4)
  consider (past) "rbp < i" | (skip) "i \<le> rbp" "sk i \<noteq> 0" | (last) "i = rbp" "sk i = 0"
    | (step) "i < rbp" "sk i = 0" by linarith
  then show ?case
  proof cases
    case past
    then show ?thesis using less.prems(2) by (subst segs.simps) auto
  next
    case skip
    let ?j = "i + sk i"
    have "hit (segs sk rbp ?j ?j) x \<longleftrightarrow> ?j \<le> x \<and> x < rbp \<and> \<not> K x"
      using less.hyps [of ?j ?j] skip end_run [OF skip(1) less.prems(3)] by force
    moreover have "segs sk rbp i prev = (if prev < i then [(prev, i)] else []) @ segs sk rbp ?j ?j"
      using skip by (subst segs.simps) simp
    moreover have "x < i \<or> K x \<or> ?j \<le> x"
      using run [OF skip(1) less.prems(3)] by (metis linorder_not_less)
    ultimately show ?thesis using pre [of x] less.prems(1) skip(1) by auto
  next
    case last
    then show ?thesis using pre [of x] by (subst segs.simps) auto
  next
    case step
    note z = zero [OF less_imp_le [OF step(1)] less.prems(3) step(2)]
    have "\<not> K y" if "prev \<le> y" "y < i + 1" for y using pre [of y] z that by (cases "y = i") auto
    then have "hit (segs sk rbp (i + 1) prev) x \<longleftrightarrow> prev \<le> x \<and> x < rbp \<and> \<not> K x"
      using less.hyps [of "i + 1" prev] step z less.prems(1) by force
    moreover have "segs sk rbp i prev = segs sk rbp (i + 1) prev"
      using step by (subst segs.simps) simp
    ultimately show ?thesis by simp
  qed
qed

section \<open>Saving and overwriting\<close>

text \<open>The bytes in one of the segments.\<close>
definition cover :: "(addr \<times> u64) list \<Rightarrow> addr \<Rightarrow> bool" where
  "cover xs x \<longleftrightarrow> (\<exists>(a, n) \<in> set xs. in_region a n x)"

lemma cover_simps [simp]:
  "\<not> cover [] x" "cover ((a, n) # xs) x \<longleftrightarrow> in_region a n x \<or> cover xs x"
  by (auto simp: cover_def)

text \<open>A step that touches memory, the heap and the arrays only.\<close>
definition sb_step :: "'a sbst_scheme \<Rightarrow> 'a sbst_scheme \<Rightarrow> bool" where
  "sb_step s s' \<longleftrightarrow> s' = s\<lparr>mem := mem s', live := live s', calls := calls s', sbufs := sbufs s'\<rparr>"

lemma sb_step_refl [simp, intro]: "sb_step s s"
  by (simp add: sb_step_def)

lemma sb_step_trans: "sb_step s t \<Longrightarrow> sb_step t u \<Longrightarrow> sb_step s u"
  by (cases s; cases t; cases u) (simp add: sb_step_def)

lemma kmalloc_cong:
  assumes "kmalloc al n s = (a, s')" and "calls t = calls s" and "live t = live s"
  shows "kmalloc al n t = (a, t\<lparr>calls := calls s', live := live s'\<rparr>)"
  using assms by (cases t) (auto simp: kmalloc_def Let_def split: if_splits)

lemma allocs_ok_cong:
  "calls t = calls s \<Longrightarrow> live t = live s \<Longrightarrow> allocs_ok al ns t = allocs_ok al ns s"
proof (induction ns arbitrary: s t)
  case (Cons n ns)
  obtain a s' where k: "kmalloc al n s = (a, s')" by fastforce
  note k' = kmalloc_cong [OF k Cons.prems]
  show ?case using Cons.IH [of "t\<lparr>calls := calls s', live := live s'\<rparr>" s'] k k' by simp
qed simp

text \<open>One segment.\<close>
lemma wipe_ok:
  assumes "alloc_ok al" and "arr_ok p s" and "0 < room p s" and "segment a n"
  obtains (null) "wipe al p a n s = Inl NullDeref" and "\<not> allocs_ok al [n] s"
    | (ok) s' where "wipe al p a n s = Inr (p, s')" and "sb_step s s'" and "arr_ok p s'"
      and "room p s = Suc (room p s')" and "saved p s' = saved p s ++ snapshot (mem s) a n"
      and "\<forall>x. is_user x \<longrightarrow> mem s' x = (if in_region a n x then 0x30 else mem s x)"
      and "frame s s'" and "\<forall>q. q \<noteq> p \<longrightarrow> sbufs s' q = sbufs s q"
      and "\<And>ns. allocs_ok al (n # ns) s \<Longrightarrow> allocs_ok al ns s'"
      and "\<exists>b. b \<notin> blocks s \<and> active (the (sbufs s' p)) = active (the (sbufs s p)) @
             [\<lparr>sb_buf = b, sb_start = a, sb_len = n, sb_holes = HL []\<rparr>]"
proof (cases rule: copy_stack_buf_ok [OF assms])
  case 1
  then show ?thesis using null by (simp add: wipe_def)
next
  case (2 b s1)
  have seg: "a \<noteq> 0" "user_region a n" using assms(4) by (auto simp: segment_def)
  let ?s = "s1\<lparr>mem := fill (mem s1) a 0x30 n\<rparr>"
  have r: "wipe al p a n s = Inr (p, ?s)"
    using 2(1) memset_ok [OF seg(1) user_region_no_wrap [OF seg(2)]] by (simp add: wipe_def)
  have uk: "same_kernel (mem s1) (mem ?s)"
    using in_user_region [OF seg(2)] by (auto simp: same_kernel_def fill_def)
  have hp: "heap_ok (live s1)" using arr_okD [OF 2(3)] .
  have ok1: "arr_ok p ?s" by (rule arr_ok_frame [OF 2(3)]) (use hp in simp_all)
  have sv: "saved p ?s = saved p s ++ snapshot (mem s) a n"
    using saved_same_kernel [OF 2(3) uk] 2(4) by simp
  have "frame s1 ?s" using uk hp by (intro frame_user) simp_all
  then have fr: "frame s ?s" using 2(6) frame_trans by blast
  have al: "allocs_ok al (n # ns) s \<Longrightarrow> allocs_ok al ns ?s" for ns
    using 2(2) allocs_ok_cong [of ?s "s1\<lparr>mem := mem s, sbufs := sbufs s\<rparr>"] by simp
  have st: "sb_step s ?s"
    using kmalloc_heap_step [OF 2(2)] by (cases s; cases s1) (simp add: heap_step_def sb_step_def)
  have "b \<notin> blocks s" using hp 2(9) heap_ok_fresh by (auto simp: blocks_def)
  then show ?thesis
    by (intro ok [OF r st ok1 _ sv _ fr _ al]) (use 2 in \<open>auto simp: fill_def room_def\<close>)
qed

lemma active_block:
  assumes "arr_ok p s" and "t \<in> set (active (the (sbufs s p)))"
  shows "sb_buf t \<in> blocks s"
  using assms(1)
proof (rule arr_okD)
  fix arr
  assume "sbufs s p = Some arr" "\<forall>t \<in> set (active arr). (sb_buf t, sb_len t) \<in> set (live s)"
  then have "(sb_buf t, sb_len t) \<in> set (live s)" using assms(2) by simp
  then show ?thesis unfolding blocks_def by (metis fst_conv image_eqI)
qed

text \<open>All segments, which come one after the other.\<close>
lemma wipe_all_ok:
  assumes "alloc_ok al"
  shows "\<lbrakk>arr_ok p s; length xs \<le> room p s; \<forall>(a, n) \<in> set xs. segment a n;
      sorted_wrt (\<lambda>(a, n) (b, k). apart a n b k) xs\<rbrakk> \<Longrightarrow>
    (wipe_all al xs p s = Inl NullDeref \<and> \<not> allocs_ok al (map snd xs) s) \<or>
    (\<exists>s'. wipe_all al xs p s = Inr (p, s') \<and> sb_step s s' \<and> arr_ok p s' \<and>
       room p s = room p s' + length xs \<and>
       saved p s' = saved p s ++ (\<lambda>x. if cover xs x then Some (mem s x) else None) \<and>
       (\<forall>x. is_user x \<longrightarrow> mem s' x = (if cover xs x then 0x30 else mem s x)) \<and>
       frame s s' \<and> (\<forall>q. q \<noteq> p \<longrightarrow> sbufs s' q = sbufs s q) \<and>
       (\<exists>ts. active (the (sbufs s' p)) = active (the (sbufs s p)) @ ts \<and>
          map (\<lambda>t. (sb_start t, sb_len t)) ts = xs \<and>
          (\<forall>t \<in> set ts. sb_buf t \<notin> blocks s \<and> sb_holes t = HL []) \<and> distinct (map sb_buf ts)) \<and>
       (\<forall>ks. allocs_ok al (map snd xs @ ks) s \<longrightarrow> allocs_ok al ks s'))"
proof (induction xs arbitrary: s)
  case Nil
  have "(\<lambda>x. None) = Map.empty" by simp
  then show ?case using Nil.prems by (auto simp: frame_def)
next
  case (Cons c xs)
  obtain a n where c: "c = (a, n)" by (cases c)
  have seg: "segment a n" and rm: "0 < room p s" using Cons.prems(2,3) c by auto
  have later: "\<not> in_region a n x" if "cover xs x" for x
  proof
    assume "in_region a n x"
    from that obtain b k where b: "(b, k) \<in> set xs" "in_region b k x" by (auto simp: cover_def)
    then have "apart a n b k" "segment b k" using Cons.prems(3,4) c by auto
    moreover from this seg have "no_wrap a n" "no_wrap b k"
      using user_region_no_wrap by (auto simp: segment_def)
    ultimately show False using b(2) \<open>in_region a n x\<close> apart_not_in_region by blast
  qed
  have user: "is_user x" if "cover xs x" for x
    using that Cons.prems(3) in_user_region by (auto simp: cover_def segment_def)
  show ?case
  proof (cases rule: wipe_ok [OF assms Cons.prems(1) rm seg])
    case 1
    then show ?thesis by (auto simp: c)
  next
    case (2 s1)
    have pre: "length xs \<le> room p s1" "\<forall>(a, n) \<in> set xs. segment a n"
      "sorted_wrt (\<lambda>(a, n) (b, k). apart a n b k) xs"
      using Cons.prems(2-4) 2(4) by auto
    from Cons.IH [OF 2(3) pre] show ?thesis
    proof (elim disjE exE conjE)
      assume "wipe_all al xs p s1 = Inl NullDeref" "\<not> allocs_ok al (map snd xs) s1"
      then show ?thesis using 2(1) 2(9) [of "map snd xs"] by (auto simp: c)
    next
      fix s'
      assume o: "wipe_all al xs p s1 = Inr (p, s')" "sb_step s1 s'" "arr_ok p s'"
        "room p s1 = room p s' + length xs"
        "saved p s' = saved p s1 ++ (\<lambda>x. if cover xs x then Some (mem s1 x) else None)"
        "\<forall>x. is_user x \<longrightarrow> mem s' x = (if cover xs x then 0x30 else mem s1 x)"
        "frame s1 s'" "\<forall>q. q \<noteq> p \<longrightarrow> sbufs s' q = sbufs s1 q"
        "\<forall>ks. allocs_ok al (map snd xs @ ks) s1 \<longrightarrow> allocs_ok al ks s'"
      fix ts
      assume ts: "active (the (sbufs s' p)) = active (the (sbufs s1 p)) @ ts"
        "map (\<lambda>t. (sb_start t, sb_len t)) ts = xs" "\<forall>t \<in> set ts. sb_buf t \<notin> blocks s1 \<and> sb_holes t = HL []"
        "distinct (map sb_buf ts)"
      from 2(10) obtain b where b: "b \<notin> blocks s"
        "active (the (sbufs s1 p)) = active (the (sbufs s p)) @ [\<lparr>sb_buf = b, sb_start = a, sb_len = n, sb_holes = HL []\<rparr>]"
        by blast
      have "b \<in> blocks s1" using b(2) active_block [OF 2(3)] by (metis in_set_conv_decomp sbuf_t.select_convs(1))
      moreover have "blocks s \<subseteq> blocks s1" using 2(7) by (auto simp: frame_def blocks_def)
      ultimately have "\<exists>ts. active (the (sbufs s' p)) = active (the (sbufs s p)) @ ts \<and>
          map (\<lambda>t. (sb_start t, sb_len t)) ts = c # xs \<and> (\<forall>t \<in> set ts. sb_buf t \<notin> blocks s \<and> sb_holes t = HL []) \<and>
          distinct (map sb_buf ts)"
        using ts b c by (intro exI [of _ "\<lparr>sb_buf = b, sb_start = a, sb_len = n, sb_holes = HL []\<rparr> # ts"]) auto
      moreover have "mem s1 x = mem s x" if "cover xs x" for x
        using 2(6) user [OF that] later [OF that] by simp
      then have "(\<lambda>x. if cover (c # xs) x then Some (mem s x) else None) =
          snapshot (mem s) a n ++ (\<lambda>x. if cover xs x then Some (mem s1 x) else None)"
        using later by (auto simp: c snapshot_def map_add_def fun_eq_iff)
      moreover from this have "saved p s' = saved p s ++ (\<lambda>x. if cover (c # xs) x then Some (mem s x) else None)"
        using o(5) 2(5) by (simp add: map_add_assoc)
      moreover have "\<forall>x. is_user x \<longrightarrow> mem s' x = (if cover (c # xs) x then 0x30 else mem s x)"
        using o(6) 2(6) by (auto simp: c)
      moreover have "wipe_all al (c # xs) p s = Inr (p, s')" using 2(1) o(1) by (simp add: c)
      moreover have "sb_step s s'" "frame s s'" "\<forall>q. q \<noteq> p \<longrightarrow> sbufs s' q = sbufs s q"
        using sb_step_trans [OF 2(2) o(2)] frame_trans [OF 2(7) o(7)] 2(8) o(8) by auto
      moreover have "room p s = room p s' + length (c # xs)" using 2(4) o(4) by simp
      moreover have "\<forall>ks. allocs_ok al (map snd (c # xs) @ ks) s \<longrightarrow> allocs_ok al ks s'"
        using 2(9) o(9) by (simp add: c)
      ultimately show ?thesis using o(3) by (intro disjI2 exI [of _ s'] conjI)
    qed
  qed
qed

section \<open>The frame of a function\<close>

definition by_value :: "para_list_t \<Rightarrow> para_t list" where
  "by_value plt = filter (\<lambda>t. p_pointer t = 0 \<and> p_size t \<noteq> 0) (pl_list plt)"

text \<open>The bytes of the frame that belong to a parameter passed by value.\<close>
definition kept :: "para_list_t \<Rightarrow> addr \<Rightarrow> addr \<Rightarrow> bool" where
  "kept plt rsp x \<longleftrightarrow> (\<exists>t \<in> set (by_value plt). rsp \<le> p_addr t \<and> in_region (p_addr t) (p_size t) x)"

text \<open>Parameters at different addresses, those passed by value pairwise apart.\<close>
definition params_ok :: "para_list_t \<Rightarrow> bool" where
  "params_ok plt \<longleftrightarrow>
     plist_ok plt \<and> distinct (map p_addr (pl_list plt)) \<and>
     sorted_wrt (\<lambda>t u. apart (p_addr t) (p_size t) (p_addr u) (p_size u)) (by_value plt)"

text \<open>The bytes of the frame that are to be hidden.\<close>
definition secret :: "para_list_t \<Rightarrow> addr \<Rightarrow> addr \<Rightarrow> addr \<Rightarrow> bool" where
  "secret plt rsp rbp x \<longleftrightarrow> rsp \<le> x \<and> x < rbp \<and> \<not> kept plt rsp x"

text \<open>The segments of a frame.\<close>
definition frame_segs :: "para_list_t \<Rightarrow> addr \<Rightarrow> addr \<Rightarrow> (addr \<times> u64) list" where
  "frame_segs plt rsp rbp = map to_seg (segs (skip_of plt) (unat rbp) (unat rsp) (unat rsp))"

text \<open>A frame the probe can handle: in user memory, and not more than 2 GB.\<close>
definition frame_ok :: "addr \<Rightarrow> addr \<Rightarrow> bool" where
  "frame_ok rsp rbp \<longleftrightarrow> rsp \<noteq> 0 \<and> rsp \<le> rbp \<and> rbp < user_top \<and> unat rbp - unat rsp \<le> 2 ^ 31"

lemma contains_list_found:
  "distinct (map p_addr ps) \<Longrightarrow> t \<in> set ps \<Longrightarrow> p_pointer t = 0 \<Longrightarrow>
     contains_list (length ps) ps (p_addr t) = Inr (p_size t)"
  by (induction ps) (auto simp: image_iff)

lemma by_value_iff: "t \<in> set (by_value plt) \<longleftrightarrow> t \<in> set (pl_list plt) \<and> p_pointer t = 0 \<and> p_size t \<noteq> 0"
  by (auto simp: by_value_def)

lemma skip_of_iff:
  assumes "params_ok plt" and "i < 2 ^ 64"
  shows "skip_of plt i \<noteq> 0 \<longleftrightarrow> (\<exists>t \<in> set (by_value plt). unat (p_addr t) = i)"
    and "t \<in> set (by_value plt) \<Longrightarrow> unat (p_addr t) = i \<Longrightarrow> skip_of plt i = unat (p_size t)"
proof -
  have sz: "nat (pl_size plt) = length (pl_list plt)"
    using assms(1) by (simp add: params_ok_def plist_ok_def)
  have d: "distinct (map p_addr (pl_list plt))" using assms(1) by (simp add: params_ok_def)
  have i: "unat (of_nat i :: u64) = i" using assms(2) by (simp add: unat_of_nat)
  show 1: "skip_of plt i = unat (p_size t)" if "t \<in> set (by_value plt)" "unat (p_addr t) = i" for t
  proof -
    have "p_addr t = of_nat i" using that(2) i by (simp add: word_unat_eq_iff)
    then show ?thesis
      using contains_list_found [OF d, of t] that(1) sz by (auto simp: skip_of_def contains_def by_value_iff)
  qed
  show "skip_of plt i \<noteq> 0 \<longleftrightarrow> (\<exists>t \<in> set (by_value plt). unat (p_addr t) = i)"
  proof
    assume "skip_of plt i \<noteq> 0"
    with contains_list_cases [of "nat (pl_size plt)" "pl_list plt" "of_nat i"] sz
    obtain t where "t \<in> set (pl_list plt)" "of_nat i = p_addr t" "p_pointer t = 0" "p_size t \<noteq> 0"
      by (auto simp: skip_of_def contains_def unat_eq_0 unat_gt_0)
    then show "\<exists>t \<in> set (by_value plt). unat (p_addr t) = i" using i by (metis by_value_iff)
  next
    assume "\<exists>t \<in> set (by_value plt). unat (p_addr t) = i"
    then show "skip_of plt i \<noteq> 0" using 1 by (auto simp: by_value_iff unat_eq_0 unat_gt_0)
  qed
qed

lemma by_value_apart:
  assumes "params_ok plt" and "t \<in> set (by_value plt)" and "u \<in> set (by_value plt)" and "t \<noteq> u"
  shows "apart (p_addr t) (p_size t) (p_addr u) (p_size u)"
proof -
  have "sorted_wrt (\<lambda>t u. apart (p_addr t) (p_size t) (p_addr u) (p_size u)) ps \<Longrightarrow>
    t \<in> set ps \<Longrightarrow> u \<in> set ps \<Longrightarrow> t \<noteq> u \<Longrightarrow> apart (p_addr t) (p_size t) (p_addr u) (p_size u)" for ps
    by (induction ps) (auto simp: apart_sym)
  then show ?thesis using assms by (auto simp: params_ok_def)
qed

lemma kept_nat:
  assumes "params_ok plt"
  shows "kept plt rsp x \<longleftrightarrow>
    (\<exists>t \<in> set (by_value plt). unat rsp \<le> unat (p_addr t) \<and> unat (p_addr t) \<le> unat x \<and>
       unat x < unat (p_addr t) + unat (p_size t))"
proof -
  have "no_wrap (p_addr t) (p_size t)" if "t \<in> set (by_value plt)" for t
    using that assms user_region_no_wrap by (auto simp: by_value_iff params_ok_def plist_ok_def)
  then show ?thesis by (auto simp: kept_def in_region_iff word_le_nat_alt)
qed

text \<open>The scan hits exactly the bytes to be hidden.\<close>
lemma segs_secret:
  assumes "params_ok plt" and "frame_ok rsp rbp"
  shows "hit (segs (skip_of plt) (unat rbp) (unat rsp) (unat rsp)) (unat x) \<longleftrightarrow> secret plt rsp rbp x"
proof -
  let ?V = "set (by_value plt)"
  let ?K = "\<lambda>y. \<exists>t \<in> ?V. unat rsp \<le> unat (p_addr t) \<and> unat (p_addr t) \<le> y \<and> y < unat (p_addr t) + unat (p_size t)"
  let ?B = "\<lambda>i. unat rsp \<le> i \<and> (\<forall>t \<in> ?V. unat rsp \<le> unat (p_addr t) \<longrightarrow>
    \<not> (unat (p_addr t) < i \<and> i < unat (p_addr t) + unat (p_size t)))"
  have small: "i < 2 ^ 64" if "i \<le> unat rbp" for i using that unat_u64_less [of rbp] by simp
  note sk = skip_of_iff [OF assms(1) small]
  have zero: "\<not> ?K i \<and> ?B (i + 1)" if "i \<le> unat rbp" "?B i" "skip_of plt i = 0" for i
  proof -
    have none: "unat (p_addr t) \<noteq> i" if "t \<in> ?V" for t using sk(1) [of i] that \<open>i \<le> unat rbp\<close> \<open>skip_of plt i = 0\<close> by auto
    show ?thesis using that(2) none by (force simp: le_less)
  qed
  have run: "?K y" if "i \<le> unat rbp" "?B i" "i \<le> y" "y < i + skip_of plt i" for i y
  proof -
    note a = that
    obtain t where t: "t \<in> ?V" "unat (p_addr t) = i" using sk(1) [OF a(1)] a(3,4) by auto
    then show ?thesis using sk(2) [OF a(1) t] a by auto
  qed
  have end_run: "?B (i + skip_of plt i)" if "i \<le> unat rbp" "?B i" for i
  proof (cases "skip_of plt i = 0")
    case False
    note a = that
    obtain t where t: "t \<in> ?V" "unat (p_addr t) = i" using sk(1) [OF a(1)] False by auto
    note n = sk(2) [OF a(1) t]
    have "\<not> (unat (p_addr u) < i + skip_of plt i \<and> i + skip_of plt i < unat (p_addr u) + unat (p_size u))"
      if "u \<in> ?V" for u
      using by_value_apart [OF assms(1) t(1) that] t n by (cases "u = t") (auto simp: apart_def)
    then show ?thesis using a(2) by auto
  qed (use that in simp)
  have start: "?B (unat rsp)" "unat rsp \<le> unat rbp"
    using assms(2) by (auto simp: frame_ok_def word_le_nat_alt)
  have "hit (segs (skip_of plt) (unat rbp) (unat rsp) (unat rsp)) (unat x) \<longleftrightarrow>
      unat rsp \<le> unat x \<and> unat x < unat rbp \<and> \<not> ?K (unat x)"
    by (rule segs_cover [where B = ?B, OF zero run end_run]) (use start in auto)
  then show ?thesis
    by (simp add: secret_def kept_nat [OF assms(1)] word_le_nat_alt word_less_nat_alt)
qed

lemma to_seg_nat:
  assumes "a < b" and "b \<le> unat (rbp :: u64)"
  shows "unat (fst (to_seg (a, b))) = a" and "unat (snd (to_seg (a, b))) = b - a"
    and "no_wrap (fst (to_seg (a, b))) (snd (to_seg (a, b)))"
proof -
  have u: "unat (of_nat a :: u64) = a" "unat (of_nat b :: u64) = b"
    using assms unat_u64_less [of rbp] by (simp_all add: unat_of_nat)
  then have "(of_nat a :: u64) \<le> of_nat b" using assms(1) by (simp add: word_le_nat_alt)
  then have "unat ((of_nat b :: u64) - of_nat a) = b - a" using u by (simp add: unat_sub)
  with u show f: "unat (fst (to_seg (a, b))) = a" and n: "unat (snd (to_seg (a, b))) = b - a"
    by (simp_all add: to_seg_def)
  show "no_wrap (fst (to_seg (a, b))) (snd (to_seg (a, b)))"
    using f n assms unat_u64_less [of rbp] by (simp add: no_wrap_def)
qed

lemma frame_segs_ok:
  assumes "params_ok plt" and "frame_ok rsp rbp"
  shows "\<forall>(a, n) \<in> set (frame_segs plt rsp rbp). segment a n"
    and "sorted_wrt (\<lambda>(a, n) (b, k). apart a n b k) (frame_segs plt rsp rbp)"
    and "cover (frame_segs plt rsp rbp) x \<longleftrightarrow> secret plt rsp rbp x"
proof -
  let ?S = "segs (skip_of plt) (unat rbp) (unat rsp) (unat rsp)"
  have rg: "unat rsp \<le> a \<and> a < b \<and> b \<le> unat rbp" if "(a, b) \<in> set ?S" for a b
    using segs_range [OF order_refl that] .
  note u = to_seg_nat [of _ _ rbp]
  have rbp: "unat rbp < unat user_top" "unat rbp - unat rsp \<le> 2 ^ 31" "0 < unat rsp"
    using assms(2) by (auto simp: frame_ok_def word_less_nat_alt unat_gt_0)
  have "segment (fst (to_seg (a, b))) (snd (to_seg (a, b)))" if "(a, b) \<in> set ?S" for a b
    using rg [OF that] u [of a b] rbp
    by (auto simp: segment_def user_region_def simp flip: unat_eq_0)
  then show "\<forall>(a, n) \<in> set (frame_segs plt rsp rbp). segment a n"
    by (auto simp: frame_segs_def split_beta)
  have "apart (fst (to_seg ab)) (snd (to_seg ab)) (fst (to_seg cd)) (snd (to_seg cd))"
    if "ab \<in> set ?S" "cd \<in> set ?S" "snd ab \<le> fst cd" for ab cd
    using rg [of "fst ab" "snd ab"] rg [of "fst cd" "snd cd"] u [of "fst ab" "snd ab"] u [of "fst cd" "snd cd"] that
    by (simp add: apart_def)
  then show "sorted_wrt (\<lambda>(a, n) (b, k). apart a n b k) (frame_segs plt rsp rbp)"
    using segs_sorted [of "unat rsp" "unat rsp" "skip_of plt" "unat rbp"]
    by (auto simp: frame_segs_def sorted_wrt_map split_beta elim!: sorted_wrt_mono_rel [rotated])
  have "in_region (fst (to_seg (a, b))) (snd (to_seg (a, b))) x \<longleftrightarrow> a \<le> unat x \<and> unat x < b"
    if "(a, b) \<in> set ?S" for a b
    using rg [OF that] u [of a b] by (auto simp: in_region_iff)
  then have r: "in_region (fst (to_seg ab)) (snd (to_seg ab)) x \<longleftrightarrow> fst ab \<le> unat x \<and> unat x < snd ab"
    if "ab \<in> set ?S" for ab
    using that by (cases ab) auto
  have "cover (frame_segs plt rsp rbp) x \<longleftrightarrow> (\<exists>ab \<in> set ?S. in_region (fst (to_seg ab)) (snd (to_seg ab)) x)"
    by (simp add: cover_def frame_segs_def split_beta)
  also have "\<dots> \<longleftrightarrow> hit ?S (unat x)" unfolding hit_def split_beta by (rule bex_cong [OF refl r])
  finally have "cover (frame_segs plt rsp rbp) x \<longleftrightarrow> hit ?S (unat x)" .
  then show "cover (frame_segs plt rsp rbp) x \<longleftrightarrow> secret plt rsp rbp x"
    using segs_secret [OF assms] by simp
qed

text \<open>Every segment ends at a parameter or at the end of the frame.\<close>
lemma segs_ends:
  "(a, b) \<in> set (segs sk rbp i prev) \<Longrightarrow> b = rbp \<or> (b \<le> rbp \<and> sk b \<noteq> 0)"
proof (induction sk rbp i prev rule: segs.induct)
  case (1 sk rbp i prev)
  then show ?case by (subst (asm) (3) segs.simps) (auto split: if_splits)
qed

lemma frame_segs_length:
  assumes "params_ok plt" and "frame_ok rsp rbp"
  shows "length (frame_segs plt rsp rbp) \<le> Suc (length (by_value plt))"
proof -
  let ?S = "segs (skip_of plt) (unat rbp) (unat rsp) (unat rsp)"
  have "sorted_wrt (<) (map snd ?S)"
  proof -
    have "snd ab < snd cd" if "cd \<in> set ?S" "snd ab \<le> fst cd" for ab cd
      using segs_range [OF order_refl, of "fst cd" "snd cd"] that by fastforce
    then show ?thesis
      using segs_sorted [of "unat rsp" "unat rsp" "skip_of plt" "unat rbp"]
      by (auto simp: sorted_wrt_map elim!: sorted_wrt_mono_rel [rotated])
  qed
  then have d: "distinct (map snd ?S)" by (simp add: strict_sorted_iff)
  have "set (map snd ?S) \<subseteq> insert (unat rbp) (set (map (unat \<circ> p_addr) (by_value plt)))"
  proof
    fix b
    assume "b \<in> set (map snd ?S)"
    then obtain a where "(a, b) \<in> set ?S" by auto
    from segs_ends [OF this] show "b \<in> insert (unat rbp) (set (map (unat \<circ> p_addr) (by_value plt)))"
      using skip_of_iff(1) [OF assms(1), of b] unat_u64_less [of rbp] by fastforce
  qed
  then have "card (set (map snd ?S)) \<le> card (insert (unat rbp) (set (map (unat \<circ> p_addr) (by_value plt))))"
    by (intro card_mono) auto
  also have "\<dots> \<le> Suc (card (set (map (unat \<circ> p_addr) (by_value plt))))" by (rule card_insert_le_m1) simp_all
  also have "\<dots> \<le> Suc (length (by_value plt))" using card_length [of "map (unat \<circ> p_addr) (by_value plt)"] by simp
  finally show ?thesis using distinct_card [OF d] by (simp add: frame_segs_def)
qed

section \<open>The invariant of the module\<close>

text \<open>The blocks that the elements of the call stack consist of.\<close>
definition cs_used :: "'a kst_scheme \<Rightarrow> cs_item_t list" where
  "cs_used s = map the (take (nat (call_stack_top s)) (call_stack s))"

definition cs_blocks :: "cs_item_t list \<Rightarrow> addr list" where
  "cs_blocks cs = concat (map (\<lambda>c. [cs_self c, fst (cs_name c)]) cs)"

text \<open>The arrays and buffers of the saved frames.\<close>
definition bufs :: "addr \<Rightarrow> 'a sbst_scheme \<Rightarrow> addr set" where
  "bufs p s = sb_buf ` set (active (the (sbufs s p)))"

definition store_blocks :: "'a kst_scheme \<Rightarrow> addr set" where
  "store_blocks s = set (sbuf_stack s) \<union> (\<Union>p \<in> set (sbuf_stack s). bufs p s)"

text \<open>
  The arrays of the sixteen frames: all well-formed, with 32 elements each, and those above
  the top empty.
\<close>
definition stores_ok :: "'a kst_scheme \<Rightarrow> bool" where
  "stores_ok s \<longleftrightarrow>
     length (sbuf_stack s) = 16 \<and> distinct (sbuf_stack s) \<and>
     0 \<le> sbuf_stack_top s \<and> sbuf_stack_top s \<le> 16 \<and>
     (\<forall>p \<in> set (sbuf_stack s). arr_ok p s \<and> room p s + length (active (the (sbufs s p))) = 32) \<and>
     (\<forall>p \<in> set (drop (nat (sbuf_stack_top s)) (sbuf_stack s)). active (the (sbufs s p)) = [])"

text \<open>The call stack is as high as the stack of arrays and owns its blocks alone.\<close>
definition calls_ok :: "'a kst_scheme \<Rightarrow> bool" where
  "calls_ok s \<longleftrightarrow>
     length (call_stack s) = 64 \<and> call_stack_top s = sbuf_stack_top s \<and>
     None \<notin> set (take (nat (call_stack_top s)) (call_stack s)) \<and>
     distinct (cs_blocks (cs_used s)) \<and> set (cs_blocks (cs_used s)) \<subseteq> blocks s \<and>
     set (cs_blocks (cs_used s)) \<inter> store_blocks s = {} \<and>
     (\<forall>mp. mapper s = Some mp \<longrightarrow> set (cs_blocks (cs_used s)) \<inter> owned mp = {})"

text \<open>The module after the first call.\<close>
definition vault_ok :: "'a kst_scheme \<Rightarrow> bool" where
  "vault_ok s \<longleftrightarrow>
     init s = 1 \<and> heap_ok (live s) \<and> (\<exists>mp. mapper s = Some mp \<and> mapper_ok mp s) \<and>
     stores_ok s \<and> calls_ok s"

text \<open>What the module holds for the user program: the saved bytes of every frame, newest last.\<close>
definition frames :: "'a kst_scheme \<Rightarrow> (addr \<Rightarrow> u8 option) list" where
  "frames s = map (\<lambda>p. saved p s) (take (nat (sbuf_stack_top s)) (sbuf_stack s))"

lemma vault_okD:
  assumes "vault_ok s"
  obtains mp where "mapper s = Some mp" and "mapper_ok mp s" and "init s = 1" and "heap_ok (live s)"
    and "stores_ok s" and "calls_ok s"
  using assms by (auto simp: vault_ok_def)

lemma mapper_ok_blocks:
  assumes "mapper_ok mp s" and "heap_ok (live s')" and "owned mp \<subseteq> blocks s'"
  shows "mapper_ok mp s'"
  using assms by (auto simp: mapper_ok_def names_ok_def owned_def)

lemma get_func_name_short:
  assumes "mapper_ok mp s" and "get_func_name (Some mp) ip = Inr (Some fn)"
  shows "short_str fn"
proof -
  have "owner (entries mp) ip = Some fn"
    using ft.look_owner [of "bump" "Some mp" s ip] assms alloc_ok_bump
    by (simp add: table_ok_def table_entries_def)
  then obtain e where "e \<in> set (entries mp)" "fst e = fn"
    by (auto simp: owner_def find_Some_iff) (metis fst_conv nth_mem)
  then show ?thesis using assms(1) by (auto simp: entries_def entry_of_def mapper_ok_def names_ok_def)
qed

lemma get_func_name_ok: "mapper_ok mp s \<Longrightarrow> \<exists>r. get_func_name (Some mp) ip = Inr r"
  using ft.look_owner [of "bump" "Some mp" s ip] alloc_ok_bump by (simp add: table_ok_def)

section \<open>Decrypting\<close>

definition without :: "addr set \<Rightarrow> 'a machine_scheme \<Rightarrow> 'a machine_scheme" where
  "without F s = s\<lparr>live := filter (\<lambda>b. fst b \<notin> F) (live s)\<rparr>"

lemma kfree_without:
  assumes "p \<in> blocks s" and "heap_ok (live s)"
  shows "kfree p s = Inr (without {p} s)"
proof -
  from assms obtain n where "(p, n) \<in> set (live s)" by (auto simp: blocks_def)
  then have "kernel_base \<le> p" using heap_ok_block assms(2) by blast
  then show ?thesis
    using assms(1) kernel_nonzero kernel_not_ZERO_SIZE_PTR
    by (auto simp: kfree_def without_def blocks_def)
qed

lemma without_without: "without F (without G s) = without (G \<union> F) s"
  by (simp add: without_def conj_commute)

lemma blocks_without: "blocks (without F s) = blocks s - F"
  by (auto simp: without_def blocks_def)

lemma without_simps [simp]:
  "mem (without F s) = mem s" "heap_ok (live s) \<Longrightarrow> heap_ok (live (without F s))"
  "calls (without F s) = calls s"
  by (simp_all add: without_def heap_ok_filter)

lemma sbufs_without [simp]: "sbufs (without F s) = sbufs s"
  by (simp add: without_def)

lemma arr_ok_without:
  assumes "arr_ok p s" and "p \<notin> F" and "bufs p s \<inter> F = {}"
  shows "arr_ok p (without F s)"
  using assms(1)
proof (rule arr_okD)
  fix arr
  assume a: "sbufs s p = Some arr" "heap_ok (live s)" "p \<in> blocks s"
    "\<forall>t \<in> set (active arr). (sb_buf t, sb_len t) \<in> set (live s)"
  have "p \<in> blocks (without F s)" using a(3) assms(2) by (simp add: blocks_without)
  moreover have "(sb_buf t, sb_len t) \<in> set (live (without F s))" if "t \<in> set (active arr)" for t
    using a(1,4) assms(3) that by (auto simp: without_def bufs_def)
  ultimately show ?thesis
    using assms(1) a(1,2) by (simp add: arr_ok_def)
qed

lemma csit_at_top:
  assumes "calls_ok s" and "0 < call_stack_top s" and "call_stack_top s \<le> 16"
  obtains c where "csit_at (call_stack_top s - 1) s = Inr c" and "call_stack s ! nat (call_stack_top s - 1) = Some c"
    and "cs_used s = map the (take (nat (call_stack_top s - 1)) (call_stack s)) @ [c]"
proof -
  let ?k = "nat (call_stack_top s - 1)"
  have n: "nat (call_stack_top s) = Suc ?k" "?k < length (call_stack s)"
    using assms by (auto simp: calls_ok_def)
  have tk: "take (Suc ?k) (call_stack s) = take ?k (call_stack s) @ [call_stack s ! ?k]"
    using n(2) by (rule take_Suc_conv_app_nth)
  then have "call_stack s ! ?k \<noteq> None" using assms(1) n(1) by (auto simp: calls_ok_def)
  then obtain c where c: "call_stack s ! ?k = Some c" by blast
  have used: "cs_used s = map the (take ?k (call_stack s)) @ [c]" by (simp add: cs_used_def n(1) tk c)
  then have "cs_self c \<in> blocks s" using assms(1) by (auto simp: calls_ok_def cs_blocks_def)
  then have "csit_at (call_stack_top s - 1) s = Inr c"
    using c n(2) assms(2) by (simp add: csit_at_def at_index_def)
  then show ?thesis using that c used by blast
qed

lemma cs_blocks_append [simp]: "cs_blocks (xs @ ys) = cs_blocks xs @ cs_blocks ys"
  by (simp add: cs_blocks_def)

lemma cs_blocks_single [simp]: "cs_blocks [c] = [cs_self c, fst (cs_name c)]"
  by (simp add: cs_blocks_def)

text \<open>
  The state in which the top frame has been written back: two blocks freed, the array \<open>p\<close> emptied
  and user memory changed.
\<close>
lemma vault_ok_pop:
  assumes "vault_ok s" and "0 < sbuf_stack_top s"
    and "cs_used s = map the (take (nat (call_stack_top s - 1)) (call_stack s)) @ [c]"
    and "p = sbuf_stack s ! nat (sbuf_stack_top s - 1)"
    and "live s' = live (without {cs_self c, fst (cs_name c)} s)"
    and "same_kernel (mem s) (mem s')" and "arr_ok p s'" and "active (the (sbufs s' p)) = []" and "room p s' = 32"
    and "\<forall>q. q \<noteq> p \<longrightarrow> sbufs s' q = sbufs s q" and "init s' = init s" and "mapper s' = mapper s"
    and "call_stack s' = call_stack s" and "call_stack_top s' = call_stack_top s - 1"
    and "sbuf_stack s' = sbuf_stack s" and "sbuf_stack_top s' = sbuf_stack_top s - 1"
  shows "vault_ok s'" and "frames s = frames s' @ [saved p s]"
proof -
  let ?F = "{cs_self c, fst (cs_name c)}" and ?k = "nat (sbuf_stack_top s - 1)"
  from assms(1) obtain mp where mp: "mapper s = Some mp" "mapper_ok mp s" "init s = 1" "heap_ok (live s)"
    and st: "stores_ok s" and ca: "calls_ok s" by (rule vault_okD)
  have top: "sbuf_stack_top s \<le> 16" "length (sbuf_stack s) = 16" "distinct (sbuf_stack s)"
    "call_stack_top s = sbuf_stack_top s"
    using st ca by (auto simp: stores_ok_def calls_ok_def)
  have k: "?k < 16" "nat (sbuf_stack_top s) = Suc ?k" using top assms(2) by auto
  have p: "p \<in> set (sbuf_stack s)" using assms(4) k top(2) by simp
  have blk: "blocks s' = blocks s - ?F" using assms(5) blocks_without by (metis blocks_def)
  have hp: "heap_ok (live s')" using assms(5) mp(4) by simp
  have F: "?F \<inter> store_blocks s = {}" "?F \<inter> owned mp = {}" "?F \<subseteq> blocks s"
    using ca mp(1) assms(3) by (auto simp: calls_ok_def)
  have arr: "arr_ok q s'" "saved q s' = saved q s" if "q \<in> set (sbuf_stack s)" "q \<noteq> p" for q
  proof -
    have "arr_ok q s" using st that(1) by (simp add: stores_ok_def)
    moreover have "q \<notin> ?F" "bufs q s \<inter> ?F = {}" using F(1) that(1) by (auto simp: store_blocks_def)
    ultimately have "arr_ok q (without ?F s)" by (rule arr_ok_without)
    moreover have sb: "sbufs s' q = sbufs s q" using assms(10) that(2) by simp
    ultimately show "arr_ok q s'" using hp assms(5) by (intro arr_ok_frame [of q "without ?F s" s']) simp_all
    show "saved q s' = saved q s" using \<open>arr_ok q s\<close> assms(6) sb by (rule saved_same_kernel)
  qed
  have bs: "bufs q s' = bufs q s" if "q \<noteq> p" for q using assms(10) that by (simp add: bufs_def)
  have bp: "bufs p s' = {}" using assms(8) by (simp add: bufs_def)
  have sub: "store_blocks s' \<subseteq> store_blocks s"
  proof -
    have "bufs q s' \<subseteq> bufs q s" for q using bs [of q] bp by (cases "q = p") auto
    then show ?thesis using assms(15) by (fastforce simp: store_blocks_def)
  qed
  have tk: "take (Suc ?k) (sbuf_stack s) = take ?k (sbuf_stack s) @ [p]"
    using k top(2) assms(4) by (simp add: take_Suc_conv_app_nth)
  have dr: "drop ?k (sbuf_stack s) = p # drop (Suc ?k) (sbuf_stack s)"
    using k top(2) assms(4) by (simp add: Cons_nth_drop_Suc)
  have neq: "q \<noteq> p" if "q \<in> set (take ?k (sbuf_stack s))" for q
    using top(3) that tk by (metis append_take_drop_id distinct_append disjoint_iff dr list.set_intros(1))
  have "mapper_ok mp s'"
    by (rule mapper_ok_blocks [OF mp(2) hp]) (use blk F(2) mapper_okD(8,9) [OF mp(2)] in \<open>auto simp: owned_def\<close>)
  moreover have "stores_ok s'"
  proof -
    have "arr_ok q s' \<and> room q s' + length (active (the (sbufs s' q))) = 32" if "q \<in> set (sbuf_stack s)" for q
      using that st arr(1) assms(7-10) by (cases "q = p") (simp_all add: stores_ok_def room_def)
    moreover have "active (the (sbufs s' q)) = []" if "q \<in> set (drop ?k (sbuf_stack s))" for q
    proof (cases "q = p")
      case False
      then have "q \<in> set (drop (nat (sbuf_stack_top s)) (sbuf_stack s))" using that dr k(2) by simp
      then show ?thesis using st assms(10) False by (simp add: stores_ok_def)
    qed (use assms(8) in simp)
    ultimately show ?thesis using top assms(2,15,16) by (simp add: stores_ok_def)
  qed
  moreover have "calls_ok s'"
  proof -
    have used: "cs_used s = cs_used s' @ [c]" using assms(3,13,14) by (simp add: cs_used_def)
    have "set (take ?k (call_stack s)) \<subseteq> set (take (Suc ?k) (call_stack s))"
      by (rule set_take_subset_set_take) simp
    then have "None \<notin> set (take (nat (call_stack_top s')) (call_stack s'))"
      using ca k(2) top(4) assms(13,14) by (auto simp: calls_ok_def)
    moreover have "set (cs_blocks (cs_used s')) \<inter> ?F = {}" "distinct (cs_blocks (cs_used s'))"
      "set (cs_blocks (cs_used s')) \<subseteq> blocks s" "set (cs_blocks (cs_used s')) \<inter> store_blocks s = {}"
      "set (cs_blocks (cs_used s')) \<inter> owned mp = {}"
      using ca used mp(1) by (auto simp: calls_ok_def)
    ultimately show ?thesis
      using ca blk sub top(4) mp(1) assms(12-14,16) by (auto simp: calls_ok_def)
  qed
  ultimately show "vault_ok s'" using mp hp assms(11,12) by (auto simp: vault_ok_def)
  have "map (\<lambda>q. saved q s') (take ?k (sbuf_stack s)) = map (\<lambda>q. saved q s) (take ?k (sbuf_stack s))"
    using arr(2) neq by (auto dest: in_set_takeD)
  then show "frames s = frames s' @ [saved p s]" by (simp add: frames_def k(2) tk assms(15,16))
qed

text \<open>
  The bookkeeping before the array of the top frame is written back: it does not look at the
  arrays.
\<close>
lemma decrypt_restores:
  assumes "calls_ok s" and "heap_ok (live s)" and "0 < sbuf_stack_top s" and "sbuf_stack_top s \<le> 16"
    and "length (sbuf_stack s) = 16"
    and "get_func_name (mapper s) (load64 (mem s) (kernel_rbp + 96)) = Inr (Some fn)"
  obtains c where "cs_used s = map the (take (nat (call_stack_top s - 1)) (call_stack s)) @ [c]"
    and "jsys_decrypt_stack srt kernel_rbp s =
      bind_res (restore_stack_buf srt (sbuf_stack s ! nat (sbuf_stack_top s - 1))
        ((without {fst (cs_name c), cs_self c} (s\<lparr>call_stack_top := call_stack_top s - 1\<rparr>))
           \<lparr>sbuf_stack_top := sbuf_stack_top s - 1\<rparr>)) (\<lambda>(ret, s5). Inr (0, s5))"
proof -
  have top: "call_stack_top s = sbuf_stack_top s" using assms(1) by (simp add: calls_ok_def)
  from assms(1,3,4) top obtain c where c: "csit_at (call_stack_top s - 1) s = Inr c"
    "cs_used s = map the (take (nat (call_stack_top s - 1)) (call_stack s)) @ [c]"
    by (metis csit_at_top)
  let ?F = "{fst (cs_name c), cs_self c}" and ?p = "sbuf_stack s ! nat (sbuf_stack_top s - 1)"
  let ?s1 = "s\<lparr>call_stack_top := call_stack_top s - 1\<rparr>"
  let ?s4 = "(without ?F ?s1)\<lparr>sbuf_stack_top := sbuf_stack_top s - 1\<rparr>"
  have blk: "blocks ?s1 = blocks s" by (simp add: blocks_def)
  have F: "fst (cs_name c) \<in> blocks s" "cs_self c \<in> blocks s" "cs_self c \<noteq> fst (cs_name c)"
    using assms(1) c(2) by (auto simp: calls_ok_def)
  have "kfree (fst (cs_name c)) ?s1 = Inr (without {fst (cs_name c)} ?s1)"
    using F(1) assms(2) blk by (intro kfree_without) simp_all
  moreover have "kfree (cs_self c) (without {fst (cs_name c)} ?s1) = Inr (without ?F ?s1)"
    using F(2,3) assms(2) blk kfree_without [of "cs_self c" "without {fst (cs_name c)} ?s1"]
    by (simp add: blocks_without without_without insert_commute)
  moreover have "csit_at (call_stack_top ?s1) ?s1 = Inr c"
    using c(1) unfolding csit_at_def blk by simp
  moreover have "at_index (sbuf_stack_top ?s4) (sbuf_stack ?s4) = Inr ?p"
    using assms(3-5) by (simp add: at_index_def without_def)
  ultimately have "jsys_decrypt_stack srt kernel_rbp s =
      bind_res (restore_stack_buf srt ?p ?s4) (\<lambda>(ret, s5). Inr (0, s5))"
    using assms(3,6) c(1) top by (simp add: jsys_decrypt_stack_def Let_def without_def)
  then show ?thesis using that c(2) by blast
qed

text \<open>What \<open>jsys_decrypt_stack\<close> does on the state of a running module.\<close>
lemma decrypt_ok:
  assumes "list_sort_ok srt" and "vault_ok s" and "frames s \<noteq> []"
    and "get_func_name (mapper s) (load64 (mem s) (kernel_rbp + 96)) = Inr (Some fn)"
  obtains s' where "jsys_decrypt_stack srt kernel_rbp s = Inr (0, s')" and "vault_ok s'"
    and "frames s' = butlast (frames s)" and "mem s' = override (mem s) (last (frames s))"
    and "mapper s' = mapper s"
proof -
  have st: "stores_ok s" and ca: "calls_ok s" and hp: "heap_ok (live s)"
    using assms(2) by (auto simp: vault_ok_def)
  have top: "0 < sbuf_stack_top s" "sbuf_stack_top s \<le> 16" "length (sbuf_stack s) = 16"
    using assms(3) st by (auto simp: frames_def stores_ok_def)
  let ?p = "sbuf_stack s ! nat (sbuf_stack_top s - 1)"
  from ca hp top assms(4) obtain c where
    c: "cs_used s = map the (take (nat (call_stack_top s - 1)) (call_stack s)) @ [c]"
    and dec: "jsys_decrypt_stack srt kernel_rbp s =
      bind_res (restore_stack_buf srt ?p ((without {fst (cs_name c), cs_self c} (s\<lparr>call_stack_top := call_stack_top s - 1\<rparr>))
           \<lparr>sbuf_stack_top := sbuf_stack_top s - 1\<rparr>)) (\<lambda>(ret, s5). Inr (0, s5))"
    by (rule decrypt_restores)
  let ?F = "{fst (cs_name c), cs_self c}"
  let ?s4 = "(without ?F (s\<lparr>call_stack_top := call_stack_top s - 1\<rparr>))\<lparr>sbuf_stack_top := sbuf_stack_top s - 1\<rparr>"
  have F: "?F \<inter> store_blocks s = {}" using ca c by (auto simp: calls_ok_def)
  have p: "?p \<in> set (sbuf_stack s)" using top by (intro nth_mem) simp
  have arr: "arr_ok ?p s" "room ?p s + length (active (the (sbufs s ?p))) = 32"
    using st p by (auto simp: stores_ok_def)
  have "arr_ok ?p (without ?F s)"
    by (rule arr_ok_without [OF arr(1)]) (use F p in \<open>auto simp: store_blocks_def\<close>)
  then have "arr_ok ?p ?s4"
    using hp by (rule_tac arr_ok_frame [of ?p "without ?F s"]) (simp_all add: without_def heap_ok_filter)
  with assms(1) obtain s' where
    r: "restore_stack_buf srt ?p ?s4 = Inr (0, s')" "mem s' = override (mem ?s4) (saved ?p ?s4)"
      "live s' = live ?s4" "arr_ok ?p s'" "saved ?p s' = Map.empty"
      "\<forall>q. q \<noteq> ?p \<longrightarrow> sbufs s' q = sbufs ?s4 q"
      "room ?p s' = room ?p ?s4 + length (active (the (sbufs ?s4 ?p)))" "same_kernel (mem ?s4) (mem s')"
      "calls s' = calls ?s4" "active (the (sbufs s' ?p)) = []" "s' = ?s4\<lparr>mem := mem s', sbufs := sbufs s'\<rparr>"
    by (rule restore_stack_buf_ok)
  have fields: "init s' = init s" "mapper s' = mapper s" "call_stack s' = call_stack s"
    "call_stack_top s' = call_stack_top s - 1" "sbuf_stack s' = sbuf_stack s"
    "sbuf_stack_top s' = sbuf_stack_top s - 1"
    by (subst r(11), simp add: without_def)+
  have same: "mem ?s4 = mem s" "sbufs ?s4 = sbufs s" "saved ?p ?s4 = saved ?p s" "room ?p ?s4 = room ?p s"
    by (simp_all add: without_def saved_def room_def split: option.split)
  have "live s' = live (without {cs_self c, fst (cs_name c)} s)"
    using r(3) by (simp add: without_def insert_commute)
  note pop = vault_ok_pop [OF assms(2) top(1) c refl this _ r(4,10) _ _ fields]
  have "vault_ok s'" and fr: "frames s = frames s' @ [saved ?p s]"
    using r(6-8) same arr(2) by (intro pop; simp)+
  then show ?thesis using that [of s'] dec r(1,2) same fields(2) by simp
qed

section \<open>Encrypting\<close>

lemma store_blocks_sub:
  assumes "stores_ok s"
  shows "store_blocks s \<subseteq> blocks s"
proof -
  have "p \<in> blocks s \<and> bufs p s \<subseteq> blocks s" if "p \<in> set (sbuf_stack s)" for p
  proof -
    have "arr_ok p s" using assms that by (simp add: stores_ok_def)
    then show ?thesis by (rule arr_okD) (force simp: bufs_def blocks_def)
  qed
  then show ?thesis by (auto simp: store_blocks_def)
qed

text \<open>The state in which one more frame has been saved in the array \<open>p\<close>.\<close>
lemma vault_ok_push:
  assumes "vault_ok s" and "sbuf_stack_top s < 16" and "p = sbuf_stack s ! nat (sbuf_stack_top s)"
    and "frame s s'" and "heap_ok (live s')" and "arr_ok p s'"
    and "room p s' + length (active (the (sbufs s' p))) = 32"
    and "\<forall>q. q \<noteq> p \<longrightarrow> sbufs s' q = sbufs s q" and "init s' = init s" and "mapper s' = mapper s"
    and "call_stack s' = (call_stack s)[nat (call_stack_top s) := Some c]"
    and "call_stack_top s' = call_stack_top s + 1"
    and "sbuf_stack s' = sbuf_stack s" and "sbuf_stack_top s' = sbuf_stack_top s + 1"
    and "cs_self c \<notin> blocks s" and "fst (cs_name c) \<notin> blocks s" and "cs_self c \<noteq> fst (cs_name c)"
    and "{cs_self c, fst (cs_name c)} \<subseteq> blocks s'"
    and "bufs p s' \<inter> (blocks s \<union> {cs_self c, fst (cs_name c)}) = {}"
  shows "vault_ok s'" and "frames s' = frames s @ [saved p s']"
proof -
  let ?F = "{cs_self c, fst (cs_name c)}" and ?k = "nat (sbuf_stack_top s)"
  from assms(1) obtain mp where mp: "mapper s = Some mp" "mapper_ok mp s" "init s = 1" "heap_ok (live s)"
    and st: "stores_ok s" and ca: "calls_ok s" by (rule vault_okD)
  have top: "0 \<le> sbuf_stack_top s" "length (sbuf_stack s) = 16" "distinct (sbuf_stack s)"
    "call_stack_top s = sbuf_stack_top s" "length (call_stack s) = 64"
    using st ca by (auto simp: stores_ok_def calls_ok_def)
  have k: "?k < 16" "nat (sbuf_stack_top s + 1) = Suc ?k" using top assms(2) by auto
  have live: "set (live s) \<subseteq> set (live s')" using assms(4) by (simp add: frame_def)
  then have blk: "blocks s \<subseteq> blocks s'" by (auto simp: blocks_def)
  have tk: "take (Suc ?k) (sbuf_stack s) = take ?k (sbuf_stack s) @ [p]"
    using k top(2) assms(3) by (simp add: take_Suc_conv_app_nth)
  have dr: "drop ?k (sbuf_stack s) = p # drop (Suc ?k) (sbuf_stack s)"
    using k top(2) assms(3) by (simp add: Cons_nth_drop_Suc)
  have dis: "distinct (take ?k (sbuf_stack s) @ p # drop (Suc ?k) (sbuf_stack s))"
    using top(3) dr by (metis append_take_drop_id)
  then have neq: "p \<notin> set (take ?k (sbuf_stack s))" "p \<notin> set (drop (Suc ?k) (sbuf_stack s))" by auto
  have arr: "arr_ok q s'" "saved q s' = saved q s" if "q \<in> set (sbuf_stack s)" "q \<noteq> p" for q
    using st that arr_ok_frame [OF _ live assms(5)] saved_frame [OF _ assms(4)] assms(8)
    by (auto simp: stores_ok_def)
  have sb: "store_blocks s' \<subseteq> store_blocks s \<union> bufs p s'"
  proof -
    have "bufs q s' \<subseteq> bufs q s \<union> bufs p s'" for q using assms(8) by (cases "q = p") (auto simp: bufs_def)
    then show ?thesis using assms(13) by (fastforce simp: store_blocks_def)
  qed
  have "owned mp \<subseteq> blocks s" using mapper_okD(8,9) [OF mp(2)] by (auto simp: owned_def)
  then have own: "owned mp \<subseteq> blocks s'" "?F \<inter> owned mp = {}" using blk assms(15,16) by auto
  have "stores_ok s'"
  proof -
    have "arr_ok q s' \<and> room q s' + length (active (the (sbufs s' q))) = 32" if "q \<in> set (sbuf_stack s)" for q
      using that st arr(1) assms(6-8) by (cases "q = p") (simp_all add: stores_ok_def room_def)
    moreover have "active (the (sbufs s' q)) = []" if "q \<in> set (drop (Suc ?k) (sbuf_stack s))" for q
      using that st dr neq(2) assms(8) by (auto simp: stores_ok_def)
    ultimately show ?thesis using top assms(2,13,14) k(2) by (simp add: stores_ok_def)
  qed
  moreover have "calls_ok s'"
  proof -
    have tk': "take (Suc ?k) (call_stack s') = take ?k (call_stack s) @ [Some c]"
      using k(1) top(4,5) assms(11) by (simp add: take_Suc_conv_app_nth)
    have used: "cs_used s' = cs_used s @ [c]"
      using tk' assms(12) k(2) top(4) by (simp add: cs_used_def)
    have "set (cs_blocks (cs_used s)) \<subseteq> blocks s" "distinct (cs_blocks (cs_used s))"
      "set (cs_blocks (cs_used s)) \<inter> store_blocks s = {}" "set (cs_blocks (cs_used s)) \<inter> owned mp = {}"
      using ca mp(1) by (auto simp: calls_ok_def)
    moreover from this have "distinct (cs_blocks (cs_used s'))" "set (cs_blocks (cs_used s')) \<subseteq> blocks s'"
      using assms(15-18) blk unfolding used by auto
    moreover have "?F \<inter> store_blocks s = {}" using store_blocks_sub [OF st] assms(15,16) by auto
    ultimately have "set (cs_blocks (cs_used s)) \<inter> store_blocks s' = {}" "?F \<inter> store_blocks s' = {}"
      using sb assms(19) by blast+
    then have "set (cs_blocks (cs_used s')) \<inter> store_blocks s' = {}"
      "set (cs_blocks (cs_used s')) \<inter> owned mp = {}"
      using own(2) \<open>set (cs_blocks (cs_used s)) \<inter> owned mp = {}\<close> unfolding used by auto
    moreover have "None \<notin> set (take (nat (call_stack_top s')) (call_stack s'))"
      using ca tk' assms(12) k(2) top(4) by (simp add: calls_ok_def)
    ultimately show ?thesis
      using \<open>distinct (cs_blocks (cs_used s'))\<close> \<open>set (cs_blocks (cs_used s')) \<subseteq> blocks s'\<close> top(4,5) mp(1)
        assms(10-12,14) by (simp add: calls_ok_def)
  qed
  ultimately show "vault_ok s'"
    using mp assms(5,9,10) mapper_ok_blocks [OF mp(2) assms(5) own(1)] by (simp add: vault_ok_def)
  have "map (\<lambda>q. saved q s') (take ?k (sbuf_stack s)) = map (\<lambda>q. saved q s) (take ?k (sbuf_stack s))"
    using arr(2) neq(1) by (auto dest: in_set_takeD)
  then show "frames s' = frames s @ [saved p s']" by (simp add: frames_def k(2) tk assms(13,14))
qed

lemma push_csit_cases:
  assumes "alloc_ok al" and "heap_ok (live s)" and "short_str fn" and "0 \<le> call_stack_top s"
    and "call_stack_top s < int (length (call_stack s))"
  obtains (null) "push_csit al fn rsp rbp s = Inl NullDeref"
      and "\<And>ns. \<not> allocs_ok al (sizeof_csit # of_nat (length fn + 1) # ns) s"
    | (ok) c s1 where "push_csit al fn rsp rbp s = Inr s1" and "heap_ok (live s1)"
      and "live s1 = (fst (cs_name c), of_nat (length fn + 1)) # (cs_self c, sizeof_csit) # live s"
      and "s1 = s\<lparr>live := live s1, calls := calls s1,
             call_stack := (call_stack s)[nat (call_stack_top s) := Some c], call_stack_top := call_stack_top s + 1\<rparr>"
      and "cs_self c \<notin> blocks s" and "fst (cs_name c) \<notin> blocks s" and "cs_self c \<noteq> fst (cs_name c)"
      and "snd (cs_name c) = fn" and "cs_rsp c = rsp" and "cs_rbp c = rbp"
      and "\<And>ns. allocs_ok al (sizeof_csit # of_nat (length fn + 1) # ns) s \<Longrightarrow> allocs_ok al ns s1"
proof -
  note failed = null and pushed = ok
  obtain c s0 where k: "kmalloc al sizeof_csit s = (c, s0)" by fastforce
  show ?thesis
  proof (cases "c = 0")
    case True
    then show ?thesis using failed k by (simp add: push_csit_def)
  next
    case False
    have n: "sizeof_csit \<noteq> 0" by (simp add: sizeof_csit_def)
    note f = kmalloc_fresh [OF k assms(1,2) n False]
    have s0: "s0 = s\<lparr>calls := calls s0, live := live s0\<rparr>" using kmalloc_Some [OF k n False] by simp
    have c: "c \<notin> blocks s" using heap_ok_fresh [OF f(1)] by (auto simp: blocks_def)
    have hp: "heap_ok (live s0)" using f by simp
    from assms(1) hp assms(3) show ?thesis
    proof (cases rule: dup_cstr_cases)
      case null
      have "\<not> allocs_ok al (sizeof_csit # of_nat (length fn + 1) # ns) s" for ns
        using null(2) k False by (auto simp del: of_nat_add of_nat_Suc split: prod.splits)
      then show ?thesis using failed null(1) k False by (simp add: push_csit_def)
    next
      case (ok p s2)
      let ?c = "\<lparr>cs_self = c, cs_op = ENCRYPT, cs_rsp = rsp, cs_rbp = rbp, cs_name = (p, fn)\<rparr>"
      let ?s1 = "s2\<lparr>call_stack := (call_stack s2)[nat (call_stack_top s2) := Some ?c], call_stack_top := call_stack_top s2 + 1\<rparr>"
      have s2: "s2 = s\<lparr>live := live s2, calls := calls s2\<rparr>"
        using ok(2) s0 by (cases s; cases s0; cases s2) (simp add: heap_step_def)
      have fields: "call_stack s2 = call_stack s" "call_stack_top s2 = call_stack_top s"
        by (subst s2, simp)+
      have r: "push_csit al fn rsp rbp s = Inr ?s1"
        using k False ok(1) fields assms(4,5) by (simp add: push_csit_def Let_def at_index_def)
      have p: "p \<notin> blocks s" "c \<noteq> p" using ok(5) f(2) by (auto simp: blocks_def)
      show ?thesis
      proof (rule pushed [OF r, of ?c])
        show "?s1 = s\<lparr>live := live ?s1, calls := calls ?s1,
            call_stack := (call_stack s)[nat (call_stack_top s) := Some ?c], call_stack_top := call_stack_top s + 1\<rparr>"
          using s2 fields by (cases s; cases s2) simp
        show "allocs_ok al ns ?s1" if "allocs_ok al (sizeof_csit # of_nat (length fn + 1) # ns) s" for ns
          using that k False ok(8) allocs_ok_cong [of ?s1 s2] by (simp del: of_nat_add of_nat_Suc)
      qed (use ok f c p in simp_all)
    qed
  qed
qed

text \<open>The bytes a frame hides, as they are in a memory.\<close>
definition hidden :: "para_list_t \<Rightarrow> addr \<Rightarrow> addr \<Rightarrow> memory \<Rightarrow> addr \<Rightarrow> u8 option" where
  "hidden plt rsp rbp m x = (if secret plt rsp rbp x then Some (m x) else None)"

text \<open>The sizes of the blocks that encrypting a frame allocates.\<close>
definition frame_allocs :: "cstring \<Rightarrow> para_list_t \<Rightarrow> addr \<Rightarrow> addr \<Rightarrow> u64 list" where
  "frame_allocs fn plt rsp rbp = sizeof_csit # of_nat (length fn + 1) # map snd (frame_segs plt rsp rbp)"

text \<open>A call the probe can handle: few enough parameters, and a place on both stacks.\<close>
definition call_ok :: "para_list_t \<Rightarrow> addr \<Rightarrow> addr \<Rightarrow> 'a kst_scheme \<Rightarrow> bool" where
  "call_ok plt rsp rbp s \<longleftrightarrow>
     params_ok plt \<and> frame_ok rsp rbp \<and> length (by_value plt) < 32 \<and> sbuf_stack_top s < 16"

lemma enc_loop_frame:
  assumes "params_ok plt" and "frame_ok rsp rbp"
  shows "enc_loop al plt rbp (rsp, rsp, p, s) = Some (wipe_all al (frame_segs plt rsp rbp) p s)"
proof -
  have "plist_ok plt" "unat rbp < unat user_top" "unat rsp \<le> unat rbp"
    using assms by (auto simp: params_ok_def frame_ok_def word_less_nat_alt word_le_nat_alt)
  from enc_loop_segs [OF this(1,2), of "unat rsp" "unat rsp" al p s] this(3) show ?thesis
    by (simp add: frame_segs_def)
qed

text \<open>Up to the loop that puts pointers back.\<close>
lemma encrypt_scan:
  assumes "alloc_ok al" and "vault_ok s" and "short_str fn" and "call_ok plt rsp rbp s"
  obtains (null) "encrypt_frame al fn rsp rbp plt s = Some (Inl NullDeref)"
      and "\<not> allocs_ok al (frame_allocs fn plt rsp rbp) s"
    | (ok) p s' ts where "encrypt_frame al fn rsp rbp plt s =
          Some (bind_res (restore_pointers al plt p s') (\<lambda>(ret, plt', s4). Inr (0, plt', s4)))"
      and "vault_ok s'" and "frames s' = frames s @ [hidden plt rsp rbp (mem s)]"
      and "\<forall>x. is_user x \<longrightarrow> mem s' x = (if secret plt rsp rbp x then 0x30 else mem s x)"
      and "frame s s'" and "mapper s' = mapper s" and "p = sbuf_stack s' ! nat (sbuf_stack_top s)"
      and "sbuf_stack_top s' = sbuf_stack_top s + 1"
      and "active (the (sbufs s' p)) = ts" and "map (\<lambda>t. (sb_start t, sb_len t)) ts = frame_segs plt rsp rbp"
      and "\<forall>t \<in> set ts. sb_holes t = HL []" and "distinct (map sb_buf ts)"
      and "\<And>ks. allocs_ok al (frame_allocs fn plt rsp rbp @ ks) s \<Longrightarrow> allocs_ok al ks s'"
proof -
  note failed = null and scanned = ok
  have call: "params_ok plt" "frame_ok rsp rbp" "length (by_value plt) < 32" "sbuf_stack_top s < 16"
    using assms(4) by (auto simp: call_ok_def)
  have st: "stores_ok s" and ca: "calls_ok s" and hp: "heap_ok (live s)"
    using assms(2) by (auto simp: vault_ok_def)
  have top: "0 \<le> sbuf_stack_top s" "length (sbuf_stack s) = 16" "call_stack_top s = sbuf_stack_top s"
    "length (call_stack s) = 64" using st ca by (auto simp: stores_ok_def calls_ok_def)
  let ?k = "nat (sbuf_stack_top s)" and ?xs = "frame_segs plt rsp rbp"
  let ?p = "sbuf_stack s ! ?k"
  have k: "?k < 16" using top call(4) by simp
  then have p: "?p \<in> set (sbuf_stack s)" "?p \<in> set (drop ?k (sbuf_stack s))"
    using top(2) Cons_nth_drop_Suc [of ?k "sbuf_stack s"] by (simp, metis list.set_intros(1))
  then have arr: "arr_ok ?p s" "active (the (sbufs s ?p)) = []" "room ?p s = 32"
    using st by (auto simp: stores_ok_def)
  have pre: "0 \<le> call_stack_top s" "call_stack_top s < int (length (call_stack s))" using top call(4) by auto
  from assms(1) hp assms(3) pre show ?thesis
  proof (cases rule: push_csit_cases [where rsp = rsp and rbp = rbp])
    case null
    then show ?thesis using failed by (simp add: encrypt_frame_def frame_allocs_def)
  next
    case (ok c s1)
    let ?s2 = "s1\<lparr>sbuf_stack_top := sbuf_stack_top s1 + 1\<rparr>"
    have f1: "mem s1 = mem s" "sbufs s1 = sbufs s" "init s1 = init s" "mapper s1 = mapper s"
      "sbuf_stack s1 = sbuf_stack s" "sbuf_stack_top s1 = sbuf_stack_top s"
      "call_stack s1 = (call_stack s)[nat (call_stack_top s) := Some c]" "call_stack_top s1 = call_stack_top s + 1"
      by (subst ok(4), simp)+
    have enc: "encrypt_frame al fn rsp rbp plt s =
        Some (bind_res (wipe_all al ?xs ?p ?s2) (\<lambda>(p, s3).
              bind_res (restore_pointers al plt p s3) (\<lambda>(ret, plt', s4). Inr (0, plt', s4))))"
      using ok(1) f1(5,6) call(4) top(1,2)
      by (simp add: encrypt_frame_def at_index_def Let_def enc_loop_frame [OF call(1,2)])
    have sub: "set (live s) \<subseteq> set (live ?s2)" using ok(3) by auto
    have a2: "arr_ok ?p ?s2" using arr_ok_frame [OF arr(1) sub] ok(2) f1(2) by simp
    have r2: "room ?p ?s2 = 32" "active (the (sbufs ?s2 ?p)) = []" "saved ?p ?s2 = Map.empty"
      using arr(2,3) f1(2) by (auto simp: room_def saved_def split: option.split)
    have len: "length ?xs \<le> room ?p ?s2" using frame_segs_length [OF call(1,2)] call(3) r2(1) by simp
    note w = wipe_all_ok [OF assms(1) a2 len frame_segs_ok(1,2) [OF call(1,2)]]
    have al: "allocs_ok al (map snd ?xs @ ks) ?s2" if "allocs_ok al (frame_allocs fn plt rsp rbp @ ks) s" for ks
      using ok(11) [of "map snd ?xs @ ks"] that allocs_ok_cong [of ?s2 s1] by (simp add: frame_allocs_def)
    from w show ?thesis
    proof (elim disjE exE conjE)
      assume "wipe_all al ?xs ?p ?s2 = Inl NullDeref" "\<not> allocs_ok al (map snd ?xs) ?s2"
      then show ?thesis using failed enc al [of "[]"] by auto
    next
      fix s' ts
      assume o: "wipe_all al ?xs ?p ?s2 = Inr (?p, s')" "sb_step ?s2 s'" "arr_ok ?p s'"
        "room ?p ?s2 = room ?p s' + length ?xs"
        "saved ?p s' = saved ?p ?s2 ++ (\<lambda>x. if cover ?xs x then Some (mem ?s2 x) else None)"
        "\<forall>x. is_user x \<longrightarrow> mem s' x = (if cover ?xs x then 0x30 else mem ?s2 x)"
        "frame ?s2 s'" "\<forall>q. q \<noteq> ?p \<longrightarrow> sbufs s' q = sbufs ?s2 q"
        and ts: "active (the (sbufs s' ?p)) = active (the (sbufs ?s2 ?p)) @ ts"
        "map (\<lambda>t. (sb_start t, sb_len t)) ts = ?xs" "\<forall>t \<in> set ts. sb_buf t \<notin> blocks ?s2 \<and> sb_holes t = HL []"
        "distinct (map sb_buf ts)" and alk: "\<forall>ks. allocs_ok al (map snd ?xs @ ks) ?s2 \<longrightarrow> allocs_ok al ks s'"
      note cover = frame_segs_ok(3) [OF call(1,2)]
      have f2: "init s' = init s" "mapper s' = mapper s" "sbuf_stack s' = sbuf_stack s"
        "sbuf_stack_top s' = sbuf_stack_top s + 1" "call_stack s' = (call_stack s)[nat (call_stack_top s) := Some c]"
        "call_stack_top s' = call_stack_top s + 1"
        using o(2) f1 by (cases s'; cases s1; simp add: sb_step_def)+
      have "frame s ?s2" using sub f1(1) by (simp add: frame_def)
      then have fr: "frame s s'" using o(7) by (rule frame_trans)
      have b2: "blocks ?s2 = insert (fst (cs_name c)) (insert (cs_self c) (blocks s))"
        using ok(3) by (simp add: blocks_def)
      have "blocks ?s2 \<subseteq> blocks s'" using o(7) by (auto simp: frame_def blocks_def)
      then have "{cs_self c, fst (cs_name c)} \<subseteq> blocks s'" using b2 by auto
      moreover have "bufs ?p s' \<inter> (blocks s \<union> {cs_self c, fst (cs_name c)}) = {}"
        using ts(1,3) r2(2) b2 by (auto simp: bufs_def)
      moreover have "heap_ok (live s')" using arr_okD [OF o(3)] .
      moreover have "room ?p s' + length (active (the (sbufs s' ?p))) = 32"
        using o(4) r2(1,2) ts(1) arg_cong [OF ts(2), of length] by simp
      ultimately have v: "vault_ok s'" "frames s' = frames s @ [saved ?p s']"
        using o(3,8) f1(2) fr f2 ok(5-7) top(3) call(4)
        by (intro vault_ok_push [OF assms(2) call(4) refl, where c = c]; simp)+
      have "saved ?p s' = hidden plt rsp rbp (mem s)"
        using o(5) r2(3) f1(1) cover by (auto simp: hidden_def fun_eq_iff)
      then have fs: "frames s' = frames s @ [hidden plt rsp rbp (mem s)]" using v(2) by simp
      have um: "\<forall>x. is_user x \<longrightarrow> mem s' x = (if secret plt rsp rbp x then 0x30 else mem s x)"
        using o(6) f1(1) cover by simp
      have act: "active (the (sbufs s' ?p)) = ts" using ts(1) r2(2) by simp
      have e: "encrypt_frame al fn rsp rbp plt s =
          Some (bind_res (restore_pointers al plt ?p s') (\<lambda>(ret, plt', s4). Inr (0, plt', s4)))"
        unfolding enc o(1) by simp
      have nh: "\<forall>t \<in> set ts. sb_holes t = HL []" using ts(3) by blast
      have p': "?p = sbuf_stack s' ! ?k" by (simp only: f2(3))
      show ?thesis by (rule scanned [OF e v(1) fs um fr f2(2) p' f2(4) act ts(2) nh ts(4)]) (use al alk in blast)
    qed
  qed
qed

end
