(* ===== verification/Pointers.thy ===== *)
theory Pointers
  imports Vault
begin

text \<open>
  Parameters that are pointers, \<open>restore_pointers\<close> of \<open>kernel_probe/jprobe.c\<close>: after the frame was
  saved and overwritten, the words and the object a pointer parameter leads to are written
  back and become holes of the saved frame. This theory says which bytes those are, what the
  loop does to the state, and when the frame can still be revealed.
\<close>

section \<open>What a parameter leads to\<close>

text \<open>The words of the pointers on the way, and the address that the last of them holds.\<close>
fun slots :: "memory \<Rightarrow> nat \<Rightarrow> addr \<Rightarrow> addr list" where
  "slots m 0 a = []"
| "slots m (Suc k) a = a # slots m k (load64 m a)"

fun target :: "memory \<Rightarrow> nat \<Rightarrow> addr \<Rightarrow> addr" where
  "target m 0 a = a"
| "target m (Suc k) a = target m k (load64 m a)"

text \<open>The test of \<open>find_in_stack_buf\<close> on the saved segments.\<close>
definition seg_found :: "(addr \<times> u64) list \<Rightarrow> addr \<Rightarrow> u64 \<Rightarrow> bool" where
  "seg_found xs a n \<longleftrightarrow> (\<exists>(b, k) \<in> set xs. b \<le> a \<and> a + n \<le> b + k)"

text \<open>
  The regions that are written back for a parameter: the words on the way, and the object at
  the end if it lies in the frame.
\<close>
definition leads_to :: "(addr \<times> u64) list \<Rightarrow> memory \<Rightarrow> para_t \<Rightarrow> (addr \<times> u64) list" where
  "leads_to xs m t =
     (if p_pointer t = 0 then []
      else let k = unat (p_pointer t); a = target m k (p_addr t)
           in map (\<lambda>b. (b, 8)) (slots m k (p_addr t)) @ (if seg_found xs a (p_size t) then [(a, p_size t)] else []))"

definition passed :: "para_list_t \<Rightarrow> addr \<Rightarrow> addr \<Rightarrow> memory \<Rightarrow> (addr \<times> u64) list" where
  "passed plt rsp rbp m = concat (map (leads_to (frame_segs plt rsp rbp) m) (pl_list plt))"

text \<open>A region that is not empty and lies in another one.\<close>
definition inside :: "addr \<times> u64 \<Rightarrow> addr \<times> u64 \<Rightarrow> bool" where
  "inside r x \<longleftrightarrow>
     snd r \<noteq> 0 \<and> unat (fst x) \<le> unat (fst r) \<and> unat (fst r) + unat (snd r) \<le> unat (fst x) + unat (snd x)"

text \<open>All that is written back lies in the saved segments of the frame.\<close>
definition pointers_in :: "para_list_t \<Rightarrow> addr \<Rightarrow> addr \<Rightarrow> memory \<Rightarrow> bool" where
  "pointers_in plt rsp rbp m \<longleftrightarrow>
     (\<forall>r \<in> set (passed plt rsp rbp m). \<exists>x \<in> set (frame_segs plt rsp rbp). inside r x)"

text \<open>It lies in the first of them, and no two of the regions overlap.\<close>
definition pointers_first :: "para_list_t \<Rightarrow> addr \<Rightarrow> addr \<Rightarrow> memory \<Rightarrow> bool" where
  "pointers_first plt rsp rbp m \<longleftrightarrow>
     (\<forall>r \<in> set (passed plt rsp rbp m). frame_segs plt rsp rbp \<noteq> [] \<and> inside r (hd (frame_segs plt rsp rbp))) \<and>
     sorted_wrt (\<lambda>(a, n) (b, k). apart a n b k) (passed plt rsp rbp m)"

lemma pointers_first_in: "pointers_first plt rsp rbp m \<Longrightarrow> pointers_in plt rsp rbp m"
  by (auto simp: pointers_first_def pointers_in_def dest: hd_in_set)

lemma no_pointers_passed:
  "\<forall>t \<in> set (pl_list plt). p_pointer t = 0 \<Longrightarrow> passed plt rsp rbp m = []"
  by (simp add: passed_def leads_to_def)

text \<open>The parameter list as the handler leaves it: all counts of levels are zero.\<close>
definition spent :: "para_list_t \<Rightarrow> para_list_t" where
  "spent plt = plt\<lparr>pl_list := map (\<lambda>t. t\<lparr>p_pointer := 0\<rparr>) (pl_list plt)\<rparr>"

section \<open>Finding a region in the buffers\<close>

definition lookup_buf :: "sbuf_t list \<Rightarrow> addr \<Rightarrow> u64 \<Rightarrow> addr" where
  "lookup_buf ts a n =
     (case find (\<lambda>t. sb_start t \<le> a \<and> a + n \<le> sb_start t + sb_len t) ts of
        None \<Rightarrow> 0 | Some t \<Rightarrow> sb_buf t + (a - sb_start t))"

fun set_holes :: "hole_t list \<Rightarrow> sbuf_t list \<Rightarrow> sbuf_t list" where
  "set_holes hs [] = []"
| "set_holes hs (t # ts) = t\<lparr>sb_holes := HL hs\<rparr> # ts"

lemma find_seg_lookup: "find_seg (length ts) (map Some ts @ rest) a n = Inr (lookup_buf ts a n)"
  by (induction ts) (auto simp: lookup_buf_def)

lemma length_set_holes [simp]: "length (set_holes hs ts) = length ts"
  by (cases ts) simp_all

lemma lookup_set_holes [simp]: "lookup_buf (set_holes hs ts) a n = lookup_buf ts a n"
  by (cases ts) (simp_all add: lookup_buf_def)

lemma set_holes_again [simp]: "set_holes hs (set_holes gs ts) = set_holes hs ts"
  by (cases ts) simp_all

lemma set_holes_id: "ts = [] \<or> sb_holes (hd ts) = HL hs \<Longrightarrow> set_holes hs ts = ts"
  by (cases ts) simp_all

lemma sb_buf_set_holes [simp]: "sb_buf ` set (set_holes hs ts) = sb_buf ` set ts"
  by (cases ts) simp_all

text \<open>
  The array \<open>p\<close> right after the scan, when the frame had the contents \<open>m\<close>: segments that are
  pairwise apart, without holes, whose buffers hold those contents.
\<close>
definition scanned :: "addr \<Rightarrow> memory \<Rightarrow> 'a sbst_scheme \<Rightarrow> bool" where
  "scanned p m s \<longleftrightarrow>
     arr_ok p s \<and>
     (let ts = active (the (sbufs s p))
      in sorted_wrt (\<lambda>t u. apart (sb_start t) (sb_len t) (sb_start u) (sb_len u)) ts \<and>
         (\<forall>t \<in> set ts. sb_holes t = HL [] \<and>
            (\<forall>x. in_region (sb_start t) (sb_len t) x \<longrightarrow> mem s (sb_buf t + (x - sb_start t)) = m x)))"

text \<open>The extent of the segments.\<close>
definition spans :: "sbuf_t list \<Rightarrow> (addr \<times> u64) list" where
  "spans ts = map (\<lambda>t. (sb_start t, sb_len t)) ts"

lemma sorted_apart:
  "sorted_wrt (\<lambda>t u. apart (sb_start t) (sb_len t) (sb_start u) (sb_len u)) ts \<Longrightarrow>
     t \<in> set ts \<Longrightarrow> u \<in> set ts \<Longrightarrow> t \<noteq> u \<Longrightarrow> apart (sb_start t) (sb_len t) (sb_start u) (sb_len u)"
  by (induction ts) (auto simp: apart_sym)

lemma inside_region:
  assumes "inside (a, n) (b, k)" and "no_wrap b k"
  shows "no_wrap a n" and "a + n \<le> b + k" and "b \<le> a" and "unat (a - b) = unat a - unat b"
    and "in_region a n x \<Longrightarrow> in_region b k x"
proof -
  have le: "unat b \<le> unat a" "unat a + unat n \<le> unat b + unat k" "n \<noteq> 0" using assms(1) by (auto simp: inside_def)
  then show nw: "no_wrap a n" using assms(2) by (simp add: no_wrap_def)
  show ba: "b \<le> a" using le(1) by (simp add: word_le_nat_alt)
  then show "unat (a - b) = unat a - unat b" by (simp add: unat_sub)
  have "unat (a + n) = unat a + unat n" "unat (b + k) = unat b + unat k"
    using no_wrap_unat_add nw assms(2) by blast+
  then show "a + n \<le> b + k" using le by (simp add: word_le_nat_alt)
  show "in_region b k x" if "in_region a n x"
    using that le by (simp add: in_region_iff nw assms(2))
qed

lemma word_shift_eq: "(b :: u64) + (a - s) + (x - a) = b + (x - s)"
  by simp

lemma lookup_inside:
  assumes "\<forall>t \<in> set ts. seg_ok t"
    and "sorted_wrt (\<lambda>t u. apart (sb_start t) (sb_len t) (sb_start u) (sb_len u)) ts"
    and "t \<in> set ts" and "inside (a, n) (sb_start t, sb_len t)"
  shows "lookup_buf ts a n = sb_buf t + (a - sb_start t)"
proof -
  let ?P = "\<lambda>t. sb_start t \<le> a \<and> a + n \<le> sb_start t + sb_len t"
  have nw: "no_wrap (sb_start u) (sb_len u)" if "u \<in> set ts" for u
    using assms(1) that user_region_no_wrap by (auto simp: seg_ok_def)
  note r = inside_region [OF assms(4) nw [OF assms(3)]]
  have an: "unat (a + n) = unat a + unat n" "0 < unat n"
    using no_wrap_unat_add r(1) assms(4) by (auto simp: inside_def unat_gt_0)
  have only: "u = t" if "u \<in> set ts" "?P u" for u
  proof (rule ccontr)
    assume "u \<noteq> t"
    then have "apart (sb_start u) (sb_len u) (sb_start t) (sb_len t)"
      using sorted_apart assms(2,3) that(1) by blast
    moreover have "unat (sb_start u + sb_len u) = unat (sb_start u) + unat (sb_len u)"
      using no_wrap_unat_add nw [OF that(1)] by blast
    ultimately show False
      using that(2) an assms(4) by (auto simp: apart_def inside_def word_le_nat_alt)
  qed
  have "find ?P ts \<noteq> None" using r assms(3) by (auto simp: find_None_iff)
  then obtain u where u: "find ?P ts = Some u" by blast
  then have "u \<in> set ts" "?P u" by (auto simp: find_Some_iff)
  then show ?thesis using u only by (simp add: lookup_buf_def)
qed

text \<open>The place of a region of the frame in the buffer of its segment.\<close>
lemma lookup_place:
  assumes "seg_ok t" and "inside (a, n) (sb_start t, sb_len t)"
  defines "b \<equiv> sb_buf t + (a - sb_start t)"
  shows "unat b = unat (sb_buf t) + (unat a - unat (sb_start t))" and "kernel_base \<le> b" and "no_wrap b n"
    and "inside (b, n) (sb_buf t, sb_len t)" and "a \<noteq> 0" and "user_region a n"
proof -
  have ok: "user_region (sb_start t) (sb_len t)" "kernel_base \<le> sb_buf t" "no_wrap (sb_buf t) (sb_len t)" "sb_start t \<noteq> 0"
    using assms(1) by (auto simp: seg_ok_def)
  note r = inside_region [OF assms(2) user_region_no_wrap [OF ok(1)]]
  have in': "unat (sb_start t) \<le> unat a" "unat a + unat n \<le> unat (sb_start t) + unat (sb_len t)" "n \<noteq> 0"
    using assms(2) by (auto simp: inside_def)
  have "a - sb_start t \<le> sb_len t" using in' r(4) by (simp add: word_le_nat_alt)
  then show u: "unat b = unat (sb_buf t) + (unat a - unat (sb_start t))"
    using no_wrap_unat_add [OF ok(3)] r(4) by (simp add: b_def)
  show "kernel_base \<le> b" using ok(2) u by (simp add: word_le_nat_alt)
  show "inside (b, n) (sb_buf t, sb_len t)" unfolding inside_def fst_conv snd_conv u using in' by linarith
  then show "no_wrap b n" using inside_region(1) ok(3) by blast
  show "a \<noteq> 0" using in'(1) ok(4) by (auto simp: unat_eq_0)
  show "user_region a n" using ok(1) in' by (simp add: user_region_def)
qed

section \<open>Writing regions back\<close>

definition hole_in :: "sbuf_t list \<Rightarrow> addr \<times> u64 \<Rightarrow> hole_t" where
  "hole_in ts r = \<lparr>h_start = lookup_buf ts (fst r) (snd r), h_len = snd r\<rparr>"

text \<open>
  The state when the regions \<open>rs\<close> were written back: they have their old contents, and they are
  the holes of the first segment.
\<close>
definition exposed :: "addr \<Rightarrow> memory \<Rightarrow> 'a sbst_scheme \<Rightarrow> (addr \<times> u64) list \<Rightarrow> 'a sbst_scheme \<Rightarrow> bool" where
  "exposed p m s0 rs s \<longleftrightarrow>
     sb_step s0 s \<and> heap_ok (live s) \<and> set (live s0) \<subseteq> set (live s) \<and>
     (\<forall>x. cover rs x \<longrightarrow> is_user x) \<and> mem s = (\<lambda>x. if cover rs x then m x else mem s0 x) \<and>
     (let arr = the (sbufs s0 p); ts = active arr
      in sbufs s = (sbufs s0)(p \<mapsto> arr\<lparr>s_items := map Some (set_holes (map (hole_in ts) rs) ts) @
           drop (unat (s_cur arr)) (s_items arr)\<rparr>))"

lemma exposed_Nil:
  assumes "scanned p m s"
  shows "exposed p m s [] s"
proof -
  have a: "arr_ok p s" using assms by (simp add: scanned_def)
  then obtain arr where arr: "sbufs s p = Some arr" "heap_ok (live s)"
    "s_items arr = map Some (active arr) @ drop (unat (s_cur arr)) (s_items arr)" by (rule arr_okD)
  have "set_holes [] (active arr) = active arr"
    using assms arr(1) by (cases "active arr") (auto simp: scanned_def Let_def)
  then have "arr\<lparr>s_items := map Some (set_holes [] (active arr)) @ drop (unat (s_cur arr)) (s_items arr)\<rparr> = arr"
    using arr(3) by simp
  then show ?thesis using arr(1,2) by (auto simp: exposed_def Let_def)
qed

lemma exposed_array:
  assumes "scanned p m s0" and "exposed p m s0 rs s"
  obtains arr where "sbufs s0 p = Some arr" and "p \<noteq> 0" and "length (active arr) = unat (s_cur arr)"
    and "sbuf_at p s = Inr (arr\<lparr>s_items := map Some (set_holes (map (hole_in (active arr)) rs) (active arr)) @
           drop (unat (s_cur arr)) (s_items arr)\<rparr>)"
    and "\<forall>t \<in> set (active arr). seg_ok t" and "\<forall>t \<in> set (active arr). (sb_buf t, sb_len t) \<in> set (live s0)"
    and "sorted_wrt (\<lambda>t u. apart (sb_start t) (sb_len t) (sb_start u) (sb_len u)) (active arr)"
    and "\<And>t x. t \<in> set (active arr) \<Longrightarrow> in_region (sb_start t) (sb_len t) x \<Longrightarrow>
           mem s0 (sb_buf t + (x - sb_start t)) = m x"
proof -
  have "arr_ok p s0" using assms(1) by (simp add: scanned_def)
  then obtain arr where arr: "sbufs s0 p = Some arr" "p \<noteq> 0" "length (active arr) = unat (s_cur arr)"
    "\<forall>t \<in> set (active arr). seg_ok t" "\<forall>t \<in> set (active arr). (sb_buf t, sb_len t) \<in> set (live s0)" by (rule arr_okD)
  moreover have "sbuf_at p s = Inr (arr\<lparr>s_items := map Some (set_holes (map (hole_in (active arr)) rs) (active arr)) @
           drop (unat (s_cur arr)) (s_items arr)\<rparr>)"
    using assms(2) arr(1,2) by (simp add: exposed_def sbuf_at_def Let_def)
  ultimately show ?thesis using that assms(1) by (simp add: scanned_def Let_def)
qed

lemma exposed_find:
  assumes "scanned p m s0" and "exposed p m s0 rs s"
  shows "find_in_stack_buf a n p s = Inr (lookup_buf (active (the (sbufs s0 p))) a n)"
  using assms
proof (rule exposed_array)
  fix arr
  assume arr: "sbufs s0 p = Some arr" "length (active arr) = unat (s_cur arr)"
    "sbuf_at p s = Inr (arr\<lparr>s_items := map Some (set_holes (map (hole_in (active arr)) rs) (active arr)) @
           drop (unat (s_cur arr)) (s_items arr)\<rparr>)"
  show ?thesis
    using find_seg_lookup [of "set_holes (map (hole_in (active arr)) rs) (active arr)"] arr
    by (simp add: find_in_stack_buf_def)
qed

text \<open>The bytes copied back from the buffer of a segment are the old ones.\<close>
lemma exposed_copy:
  assumes "scanned p m s0" and "exposed p m s0 rs s" and "t \<in> set (active (the (sbufs s0 p)))"
    and "inside (a, n) (sb_start t, sb_len t)"
  defines "b \<equiv> lookup_buf (active (the (sbufs s0 p))) a n"
  shows "copy (mem s) a b n = (\<lambda>x. if cover (rs @ [(a, n)]) x then m x else mem s0 x)"
    and "\<forall>x. cover (rs @ [(a, n)]) x \<longrightarrow> is_user x"
    and "a \<noteq> 0" and "b \<noteq> 0" and "no_wrap a n" and "no_wrap b n"
proof -
  from assms(1,2) obtain arr where arr: "sbufs s0 p = Some arr" "\<forall>t \<in> set (active arr). seg_ok t"
    "sorted_wrt (\<lambda>t u. apart (sb_start t) (sb_len t) (sb_start u) (sb_len u)) (active arr)"
    "\<And>t x. t \<in> set (active arr) \<Longrightarrow> in_region (sb_start t) (sb_len t) x \<Longrightarrow>
       mem s0 (sb_buf t + (x - sb_start t)) = m x"
    by (rule exposed_array) blast
  have t: "t \<in> set (active arr)" "seg_ok t" using arr(1,2) assms(3) by auto
  have b: "b = sb_buf t + (a - sb_start t)"
    using lookup_inside [OF arr(2,3) t(1) assms(4)] arr(1) by (simp add: b_def)
  note pl = lookup_place [OF t(2) assms(4), folded b]
  show "a \<noteq> 0" "no_wrap b n" using pl by simp_all
  show "b \<noteq> 0" using kernel_nonzero pl(2) by blast
  show nw: "no_wrap a n" using user_region_no_wrap pl(6) by blast
  have nws: "no_wrap (sb_start t) (sb_len t)" using t(2) user_region_no_wrap by (auto simp: seg_ok_def)
  have us: "\<forall>x. cover rs x \<longrightarrow> is_user x" and ms: "mem s = (\<lambda>x. if cover rs x then m x else mem s0 x)"
    using assms(2) by (auto simp: exposed_def)
  have cov: "cover (rs @ [(a, n)]) x \<longleftrightarrow> cover rs x \<or> in_region a n x" for x by (auto simp: cover_def)
  show "\<forall>x. cover (rs @ [(a, n)]) x \<longrightarrow> is_user x" using us in_user_region [OF pl(6)] cov by blast
  show "copy (mem s) a b n = (\<lambda>x. if cover (rs @ [(a, n)]) x then m x else mem s0 x)"
  proof
    fix x
    show "copy (mem s) a b n x = (if cover (rs @ [(a, n)]) x then m x else mem s0 x)"
    proof (cases "in_region a n x")
      case True
      have "in_region b n (b + (x - a))" using buf_byte [OF pl(3) True] .
      then have "\<not> is_user (b + (x - a))" using kernel_byte pl(2,3) by blast
      then have "mem s (b + (x - a)) = mem s0 (b + (x - a))" using us ms by auto
      also have "\<dots> = m x"
        unfolding b word_shift_eq using arr(4) t(1) inside_region(5) [OF assms(4) nws True] .
      finally show ?thesis using True cov by simp
    qed (use cov ms in simp)
  qed
qed

text \<open>A block for the hole, which is put into the list of the first segment.\<close>
lemma add_hole_cases:
  assumes "alloc_ok al" and "scanned p m s0" and "exposed p m s0 rs s" and "t \<in> set (active (the (sbufs s0 p)))"
    and "inside (a, n) (sb_start t, sb_len t)"
  defines "b \<equiv> lookup_buf (active (the (sbufs s0 p))) a n"
  obtains (null) "add_hole al p b n (s\<lparr>mem := copy (mem s) a b n\<rparr>) = Inl NullDeref"
      and "\<And>ns. \<not> allocs_ok al (sizeof_hole # ns) s"
    | (ok) s' where "add_hole al p b n (s\<lparr>mem := copy (mem s) a b n\<rparr>) = Inr s'"
      and "exposed p m s0 (rs @ [(a, n)]) s'" and "mem s' = copy (mem s) a b n"
      and "\<And>ns. allocs_ok al (sizeof_hole # ns) s \<Longrightarrow> allocs_ok al ns s'"
proof -
  note c = exposed_copy [OF assms(2-5), folded b_def]
  let ?s = "s\<lparr>mem := copy (mem s) a b n\<rparr>"
  obtain h s1 where k: "kmalloc al sizeof_hole s = (h, s1)" by fastforce
  have k': "kmalloc al sizeof_hole ?s = (h, ?s\<lparr>calls := calls s1, live := live s1\<rparr>)"
    using kmalloc_cong [OF k, of ?s] by simp
  have n: "sizeof_hole \<noteq> 0" by (simp add: sizeof_hole_def)
  show ?thesis
  proof (cases "h = 0")
    case True
    have "add_hole al p b n ?s = Inl NullDeref" using k' True by (simp add: add_hole_def)
    moreover have "\<not> allocs_ok al (sizeof_hole # ns) s" for ns using k True by simp
    ultimately show ?thesis by (rule null)
  next
    case False
    have e: "sb_step s0 s" "heap_ok (live s)" "set (live s0) \<subseteq> set (live s)" using assms(3) by (auto simp: exposed_def)
    have lv: "heap_ok (live s1)" "set (live s) \<subseteq> set (live s1)" "sbufs s1 = sbufs s"
      using kmalloc_fresh [OF k assms(1) e(2) n False] kmalloc_Some [OF k n False] by auto
    from assms(2,3) obtain arr where arr: "sbufs s0 p = Some arr" "p \<noteq> 0"
      "sbuf_at p s = Inr (arr\<lparr>s_items := map Some (set_holes (map (hole_in (active arr)) rs) (active arr)) @
           drop (unat (s_cur arr)) (s_items arr)\<rparr>)" by (rule exposed_array) blast
    have ne: "active arr \<noteq> []" using assms(4) arr(1) by auto
    let ?items = "\<lambda>rs. map Some (set_holes (map (hole_in (active arr)) rs) (active arr)) @ drop (unat (s_cur arr)) (s_items arr)"
    have add: "add_to_first \<lparr>h_start = b, h_len = n\<rparr> (?items rs) = Inr (?items (rs @ [(a, n)]))"
      using ne arr(1) by (cases "active arr") (simp_all add: hole_in_def b_def)
    let ?s' = "?s\<lparr>calls := calls s1, live := live s1, sbufs := (sbufs s)(p \<mapsto> arr\<lparr>s_items := ?items (rs @ [(a, n)])\<rparr>)\<rparr>"
    have "sbuf_at p (?s\<lparr>calls := calls s1, live := live s1\<rparr>) = Inr (arr\<lparr>s_items := ?items rs\<rparr>)"
      using arr(2,3) by (simp add: sbuf_at_def)
    then have "add_hole al p b n ?s = Inr ?s'" using k' False add by (simp add: add_hole_def)
    moreover have "exposed p m s0 (rs @ [(a, n)]) ?s'"
    proof -
      have "sb_step s0 ?s'" using e(1) by (cases s0; cases s) (simp add: sb_step_def)
      moreover have "sbufs ?s' = (sbufs s0)(p \<mapsto> arr\<lparr>s_items := ?items (rs @ [(a, n)])\<rparr>)"
        using assms(3) arr(1) by (simp add: exposed_def Let_def)
      ultimately show ?thesis
        unfolding exposed_def using lv e(3) c(1,2) arr(1) by (simp add: Let_def)
    qed
    moreover have "allocs_ok al ns ?s'" if "allocs_ok al (sizeof_hole # ns) s" for ns
      using that k allocs_ok_cong [of ?s' s1] by simp
    ultimately show ?thesis by (intro ok [of ?s']) simp_all
  qed
qed

text \<open>
  A piece of the code that writes the regions \<open>qs\<close> back after the regions \<open>rs\<close>, starting from \<open>s\<close>:
  it succeeds with a result made from the new state by \<open>v\<close>, or one of its allocations fails.
\<close>
definition writes_back ::
  "alloc \<Rightarrow> addr \<Rightarrow> memory \<Rightarrow> 'a sbst_scheme \<Rightarrow> (addr \<times> u64) list \<Rightarrow> (addr \<times> u64) list \<Rightarrow> 'a sbst_scheme
     \<Rightarrow> ('a sbst_scheme \<Rightarrow> 'b) \<Rightarrow> 'b res \<Rightarrow> bool" where
  "writes_back al p m s0 rs qs s v r \<longleftrightarrow>
     (let ns = replicate (length qs) sizeof_hole
      in (r = Inl NullDeref \<and> (\<forall>ks. \<not> allocs_ok al (ns @ ks) s)) \<or>
         (\<exists>s'. r = Inr (v s') \<and> exposed p m s0 (rs @ qs) s' \<and>
            (\<forall>ks. allocs_ok al (ns @ ks) s \<longrightarrow> allocs_ok al ks s')))"

lemma writes_back_return: "exposed p m s0 rs s \<Longrightarrow> writes_back al p m s0 rs [] s v (Inr (v s))"
  by (auto simp: writes_back_def)

lemma writes_back_bind:
  assumes "writes_back al p m s0 rs qs s v r"
    and "\<And>s'. exposed p m s0 (rs @ qs) s' \<Longrightarrow> writes_back al p m s0 (rs @ qs) qs' s' w (f (v s'))"
  shows "writes_back al p m s0 rs (qs @ qs') s w (bind_res r f)"
proof -
  let ?n = "\<lambda>qs. replicate (length qs) sizeof_hole"
  have n: "?n (qs @ qs') = ?n qs @ ?n qs'" by (simp add: replicate_add)
  from assms(1) consider (null) "r = Inl NullDeref" "\<forall>ks. \<not> allocs_ok al (?n qs @ ks) s"
    | (ok) s' where "r = Inr (v s')" "exposed p m s0 (rs @ qs) s'"
      "\<forall>ks. allocs_ok al (?n qs @ ks) s \<longrightarrow> allocs_ok al ks s'"
    unfolding writes_back_def Let_def by blast
  then show ?thesis
  proof cases
    case null
    then show ?thesis unfolding writes_back_def Let_def n append_assoc by simp
  next
    case ok
    from assms(2) [OF ok(2)] ok(1,3) show ?thesis
      unfolding writes_back_def Let_def n append_assoc by (auto simp only: bind_res_Inr)
  qed
qed

section \<open>The loops\<close>

text \<open>A region that lies in one of the segments of the array.\<close>
definition saved_in :: "addr \<Rightarrow> 'a sbst_scheme \<Rightarrow> addr \<times> u64 \<Rightarrow> bool" where
  "saved_in p s r \<longleftrightarrow> (\<exists>x \<in> set (spans (active (the (sbufs s p)))). inside r x)"

lemma add_hole_writes:
  assumes "alloc_ok al" and "scanned p m s0" and "exposed p m s0 rs s" and "saved_in p s0 (a, n)"
  defines "b \<equiv> lookup_buf (active (the (sbufs s0 p))) a n"
  shows "writes_back al p m s0 rs [(a, n)] s (\<lambda>s. s) (add_hole al p b n (s\<lparr>mem := copy (mem s) a b n\<rparr>))"
    and "a \<noteq> 0" and "b \<noteq> 0" and "no_wrap a n" and "no_wrap b n"
proof -
  obtain t where t: "t \<in> set (active (the (sbufs s0 p)))" "inside (a, n) (sb_start t, sb_len t)"
    using assms(4) by (auto simp: saved_in_def spans_def)
  show "a \<noteq> 0" "b \<noteq> 0" "no_wrap a n" "no_wrap b n"
    using exposed_copy(3-6) [OF assms(2,3) t] by (simp_all add: b_def)
  show "writes_back al p m s0 rs [(a, n)] s (\<lambda>s. s) (add_hole al p b n (s\<lparr>mem := copy (mem s) a b n\<rparr>))"
    unfolding b_def
    by (rule add_hole_cases [OF assms(1-3) t]) (auto simp: writes_back_def)
qed

lemma exposed_load:
  assumes "exposed p m s0 rs s" and "(a, 8) \<in> set rs"
  shows "load64 (mem s) a = load64 m a"
proof (rule load64_cong)
  fix i :: nat
  assume "i < 8"
  then have "in_region a 8 (a + of_nat i)" by (simp add: in_region_shift word_less_nat_alt unat_of_nat)
  then have "cover rs (a + of_nat i)" using assms(2) by (auto simp: cover_def)
  then show "mem s (a + of_nat i) = m (a + of_nat i)" using assms(1) by (simp add: exposed_def)
qed

lemma follow_writes:
  assumes "alloc_ok al" and "scanned p m s0" and "exposed p m s0 rs s" and "saved_in p s0 (a, 8)"
  defines "b \<equiv> lookup_buf (active (the (sbufs s0 p))) a 8"
  shows "writes_back al p m s0 rs [(a, 8)] s (\<lambda>s'. (load64 m a, s')) (follow al p a b s)"
proof -
  note w = add_hole_writes [OF assms(1-4), folded b_def]
  have f: "follow al p a b s = bind_res (add_hole al p b 8 (s\<lparr>mem := copy (mem s) a b 8\<rparr>)) (\<lambda>s1.
      bind_res (load_ulong a (mem s1)) (\<lambda>next_addr. Inr (next_addr, s1)))"
    using w(2-5) by (simp add: follow_def load_ulong_def store_ulong_def store64_load64_copy)
  have "writes_back al p m s0 rs ([(a, 8)] @ []) s (\<lambda>s'. (load64 m a, s')) (follow al p a b s)"
    unfolding f
  proof (rule writes_back_bind [OF w(1)])
    fix s'
    assume e: "exposed p m s0 (rs @ [(a, 8)]) s'"
    then have "load64 (mem s') a = load64 m a" by (rule exposed_load) simp
    then show "writes_back al p m s0 (rs @ [(a, 8)]) [] s' (\<lambda>s'. (load64 m a, s'))
        (bind_res (load_ulong a (mem s')) (\<lambda>next_addr. Inr (next_addr, s')))"
      using e w(2,4) by (simp add: load_ulong_def writes_back_def)
  qed
  then show ?thesis by simp
qed

lemma chase_writes:
  assumes "alloc_ok al" and "scanned p m s0"
  shows "exposed p m s0 rs s \<Longrightarrow> \<forall>b \<in> set (slots m k a). saved_in p s0 (b, 8) \<Longrightarrow>
    writes_back al p m s0 rs (map (\<lambda>b. (b, 8)) (slots m k a)) s (\<lambda>s'. (target m k a, s')) (chase al k p a s)"
proof (induction k arbitrary: rs s a)
  case 0
  then show ?case using writes_back_return [of p m s0 rs s al "\<lambda>s'. (a, s')"] by simp
next
  case (Suc k)
  let ?b = "lookup_buf (active (the (sbufs s0 p))) a 8"
  have eq: "chase al (Suc k) p a s = bind_res (follow al p a ?b s) (\<lambda>(a', s'). chase al k p a' s')"
    by (simp add: exposed_find [OF assms(2) Suc.prems(1)])
  have "writes_back al p m s0 rs ([(a, 8)] @ map (\<lambda>b. (b, 8)) (slots m k (load64 m a))) s
      (\<lambda>s'. (target m k (load64 m a), s')) (bind_res (follow al p a ?b s) (\<lambda>(a', s'). chase al k p a' s'))"
  proof (rule writes_back_bind [OF follow_writes [OF assms Suc.prems(1)]])
    show "saved_in p s0 (a, 8)" using Suc.prems(2) by simp
  qed (use Suc in auto)
  then show ?case using eq by simp
qed

lemma lookup_not_found: "\<not> seg_found (spans ts) a n \<Longrightarrow> lookup_buf ts a n = 0"
  by (auto simp: seg_found_def spans_def lookup_buf_def find_None_iff split: option.splits dest: find_Some_iff [THEN iffD1])

text \<open>The whole body for one pointer parameter.\<close>
lemma restore_pointer_writes:
  assumes "alloc_ok al" and "scanned p m s0" and "exposed p m s0 rs s" and "p_pointer t \<noteq> 0"
    and "\<forall>r \<in> set (leads_to (spans (active (the (sbufs s0 p)))) m t). saved_in p s0 r"
  shows "writes_back al p m s0 rs (leads_to (spans (active (the (sbufs s0 p)))) m t) s
    (\<lambda>s'. (0, t\<lparr>p_pointer := 0\<rparr>, s')) (restore_pointer al t p s)"
proof -
  let ?ts = "active (the (sbufs s0 p))"
  obtain k where k: "unat (p_pointer t) = Suc k" using assms(4) by (metis not0_implies_Suc unat_eq_0)
  then have k1: "unat (p_pointer t - 1) = k" using assms(4) by (simp add: unat_minus_one)
  let ?b = "p_addr t" and ?a1 = "load64 m (p_addr t)"
  let ?a = "target m k ?a1" and ?sl = "map (\<lambda>b. (b, 8)) (slots m k ?a1)"
  let ?obj = "if seg_found (spans ?ts) ?a (p_size t) then [(?a, p_size t)] else []"
  have lt: "leads_to (spans ?ts) m t = [(?b, 8)] @ ?sl @ ?obj"
    using assms(4) k by (simp add: leads_to_def)
  have in1: "saved_in p s0 (?b, 8)" and in2: "\<forall>b \<in> set (slots m k ?a1). saved_in p s0 (b, 8)"
    and in3: "seg_found (spans ?ts) ?a (p_size t) \<Longrightarrow> saved_in p s0 (?a, p_size t)"
    using assms(5) unfolding lt by auto
  let ?last = "\<lambda>(a2, s2). bind_res (find_in_stack_buf a2 (p_size t) p s2) (\<lambda>b2.
     if b2 \<noteq> 0 then bind_res (memcpy a2 b2 (p_size t) (mem s2)) (\<lambda>m.
          bind_res (add_hole al p b2 (p_size t) (s2\<lparr>mem := m\<rparr>)) (\<lambda>s3. Inr (0, t\<lparr>p_pointer := 0\<rparr>, s3)))
     else Inr (0, t\<lparr>p_pointer := 0\<rparr>, s2))"
  have obj: "writes_back al p m s0 qs ?obj s2 (\<lambda>s'. (0, t\<lparr>p_pointer := 0\<rparr>, s')) (?last (?a, s2))"
    if e: "exposed p m s0 qs s2" for qs s2
  proof (cases "seg_found (spans ?ts) ?a (p_size t)")
    case True
    note w = add_hole_writes [OF assms(1,2) e in3 [OF True]]
    let ?l = "lookup_buf ?ts ?a (p_size t)"
    have l: "?last (?a, s2) = bind_res (add_hole al p ?l (p_size t) (s2\<lparr>mem := copy (mem s2) ?a ?l (p_size t)\<rparr>))
        (\<lambda>s3. Inr (0, t\<lparr>p_pointer := 0\<rparr>, s3))"
      using w(2-5) exposed_find [OF assms(2) e] by (simp add: memcpy_ok)
    have "writes_back al p m s0 qs ([(?a, p_size t)] @ []) s2 (\<lambda>s'. (0, t\<lparr>p_pointer := 0\<rparr>, s')) (?last (?a, s2))"
      unfolding l
      by (rule writes_back_bind [OF w(1)]) (rule writes_back_return [where v = "\<lambda>s'. (0, t\<lparr>p_pointer := 0\<rparr>, s')"])
    then show ?thesis using True by simp
  next
    case False
    then show ?thesis
      using exposed_find [OF assms(2) e] lookup_not_found [OF False] e
        writes_back_return [OF e, where v = "\<lambda>s'. (0, t\<lparr>p_pointer := 0\<rparr>, s')"] by simp
  qed
  have cl: "t\<lparr>p_pointer := j, p_pointer := 0\<rparr> = t\<lparr>p_pointer := 0\<rparr>" for j by (cases t) simp
  have eq: "restore_pointer al t p s =
      bind_res (follow al p ?b (lookup_buf ?ts ?b 8) s) (\<lambda>(a1, s1). bind_res (chase al k p a1 s1) ?last)"
    using add_hole_writes(3) [OF assms(1-3) in1] k1
    by (simp add: restore_pointer_def exposed_find [OF assms(2,3)] Let_def cl cong: if_cong)
  show ?thesis
    unfolding lt eq
  proof (rule writes_back_bind [OF follow_writes [OF assms(1-3) in1]])
    fix s1
    assume e1: "exposed p m s0 (rs @ [(?b, 8)]) s1"
    show "writes_back al p m s0 (rs @ [(?b, 8)]) (?sl @ ?obj) s1 (\<lambda>s'. (0, t\<lparr>p_pointer := 0\<rparr>, s'))
        (case (?a1, s1) of (a1, s1) \<Rightarrow> bind_res (chase al k p a1 s1) ?last)"
      unfolding prod.case
      by (rule writes_back_bind [OF chase_writes [OF assms(1,2) e1 in2]]) (rule obj)
  qed
qed

lemma restore_params_writes:
  assumes "alloc_ok al" and "scanned p m s0"
  defines "xs \<equiv> spans (active (the (sbufs s0 p)))"
  shows "exposed p m s0 rs s \<Longrightarrow> \<forall>r \<in> set (concat (map (leads_to xs m) ps)). saved_in p s0 r \<Longrightarrow>
    writes_back al p m s0 rs (concat (map (leads_to xs m) ps)) s
      (\<lambda>s'. (0, map (\<lambda>t. t\<lparr>p_pointer := 0\<rparr>) ps, s')) (restore_params al (length ps) ps p s)"
proof (induction ps arbitrary: rs s)
  case Nil
  then show ?case using writes_back_return [of p m s0 rs s al "\<lambda>s'. (0, [], s')"] by simp
next
  case (Cons t ps)
  let ?cl = "\<lambda>t :: para_t. t\<lparr>p_pointer := 0\<rparr>"
  have rest: "writes_back al p m s0 qs (concat (map (leads_to xs m) ps) @ []) s1 (\<lambda>s'. (0, u # map ?cl ps, s'))
      (bind_res (restore_params al (length ps) ps p s1) (\<lambda>(r', ps', s'). Inr (r', u # ps', s')))"
    if "exposed p m s0 qs s1" for qs s1 and u :: para_t
  proof (rule writes_back_bind [OF Cons.IH [OF that]])
    show "\<forall>r \<in> set (concat (map (leads_to xs m) ps)). saved_in p s0 r" using Cons.prems(2) by auto
    show "writes_back al p m s0 (qs @ concat (map (leads_to xs m) ps)) [] s' (\<lambda>s'. (0, u # map ?cl ps, s'))
        (case (0, map ?cl ps, s') of (r', ps', s') \<Rightarrow> Inr (r', u # ps', s'))"
      if "exposed p m s0 (qs @ concat (map (leads_to xs m) ps)) s'" for s'
      using writes_back_return [OF that, where v = "\<lambda>s'. (0, u # map ?cl ps, s')"] by simp
  qed
  show ?case
  proof (cases "p_pointer t = 0")
    case True
    then have cl: "?cl t = t" and lt: "leads_to xs m t = []" by (simp_all add: leads_to_def)
    show ?thesis unfolding list.map cl lt concat.simps using rest [OF Cons.prems(1), of t] True by simp
  next
    case False
    have in1: "\<forall>r \<in> set (leads_to (spans (active (the (sbufs s0 p)))) m t). saved_in p s0 r"
      using Cons.prems(2) by (simp add: xs_def)
    have eq: "restore_params al (length (t # ps)) (t # ps) p s =
        bind_res (restore_pointer al t p s) (\<lambda>(r, t', s1).
           if r = -1 then Inr (-1, t' # ps, s1)
           else bind_res (restore_params al (length ps) ps p s1) (\<lambda>(r', ps', s'). Inr (r', t' # ps', s')))"
      using False by simp
    have "writes_back al p m s0 rs (leads_to xs m t @ concat (map (leads_to xs m) ps) @ []) s
        (\<lambda>s'. (0, ?cl t # map ?cl ps, s')) (restore_params al (length (t # ps)) (t # ps) p s)"
      unfolding eq
    proof (rule writes_back_bind [OF restore_pointer_writes [OF assms(1,2) Cons.prems(1) False in1, folded xs_def]])
      fix s1
      assume "exposed p m s0 (rs @ leads_to xs m t) s1"
      from rest [OF this, of "?cl t"] show "writes_back al p m s0 (rs @ leads_to xs m t) (concat (map (leads_to xs m) ps) @ []) s1
          (\<lambda>s'. (0, ?cl t # map ?cl ps, s')) (case (0 :: int, ?cl t, s1) of (r, t', s1) \<Rightarrow>
             if r = -1 then Inr (-1, t' # ps, s1)
             else bind_res (restore_params al (length ps) ps p s1) (\<lambda>(r', ps', s'). Inr (r', t' # ps', s')))"
        by simp
    qed
    then show ?thesis by simp
  qed
qed

lemma restore_pointers_writes:
  assumes "alloc_ok al" and "scanned p m s" and "params_ok plt"
    and "spans (active (the (sbufs s p))) = frame_segs plt rsp rbp" and "pointers_in plt rsp rbp m"
  shows "writes_back al p m s [] (passed plt rsp rbp m) s (\<lambda>s'. (0, spent plt, s')) (restore_pointers al plt p s)"
proof -
  let ?cl = "\<lambda>t :: para_t. t\<lparr>p_pointer := 0\<rparr>"
  have n: "nat (pl_size plt) = length (pl_list plt)" using assms(3) by (simp add: params_ok_def plist_ok_def)
  have "\<forall>r \<in> set (passed plt rsp rbp m). saved_in p s r"
    using assms(4,5) by (simp add: saved_in_def pointers_in_def)
  from restore_params_writes [OF assms(1,2) exposed_Nil [OF assms(2)], of "pl_list plt"] this
  have w: "writes_back al p m s [] (passed plt rsp rbp m) s (\<lambda>s'. (0, map ?cl (pl_list plt), s'))
      (restore_params al (length (pl_list plt)) (pl_list plt) p s)"
    by (simp add: passed_def assms(4))
  have "writes_back al p m s [] (passed plt rsp rbp m @ []) s (\<lambda>s'. (0, spent plt, s')) (restore_pointers al plt p s)"
    unfolding restore_pointers_def n
  proof (rule writes_back_bind [OF w])
    fix s'
    assume "exposed p m s ([] @ passed plt rsp rbp m) s'"
    from writes_back_return [OF this, where v = "\<lambda>s'. (0, spent plt, s')"]
    show "writes_back al p m s ([] @ passed plt rsp rbp m) [] s' (\<lambda>s'. (0, spent plt, s'))
        (case (0, map ?cl (pl_list plt), s') of (r, ps, s') \<Rightarrow> Inr (r, plt\<lparr>pl_list := ps\<rparr>, s'))"
      by (simp add: spent_def)
  qed
  then show ?thesis by simp
qed

section \<open>The state after the scan\<close>

lemma segs_map_outside:
  "(\<And>t. t \<in> set ts \<Longrightarrow> \<not> in_region (sb_start t) (sb_len t) x) \<Longrightarrow> segs_map ts m x = None"
  by (induction ts) (auto simp: seg_map_def Let_def map_add_None split: hole_list.splits)

lemma segs_map_apart:
  assumes "sorted_wrt (\<lambda>t u. apart (sb_start t) (sb_len t) (sb_start u) (sb_len u)) ts"
    and "\<forall>t \<in> set ts. seg_ok t" and "\<forall>t \<in> set ts. sb_holes t = HL []"
    and "t \<in> set ts" and "in_region (sb_start t) (sb_len t) x"
  shows "segs_map ts m x = Some (m (sb_buf t + (x - sb_start t)))"
  using assms
proof (induction ts)
  case (Cons u ts)
  have nw: "no_wrap (sb_start v) (sb_len v)" if "v \<in> set (u # ts)" for v
    using Cons.prems(2) that user_region_no_wrap by (auto simp: seg_ok_def)
  show ?case
  proof (cases "t \<in> set ts")
    case True
    then show ?thesis using Cons by (simp add: map_add_Some_iff)
  next
    case False
    then have u: "u = t" using Cons.prems(4) by simp
    have "\<not> in_region (sb_start v) (sb_len v) x" if "v \<in> set ts" for v
      using Cons.prems(1,5) that u nw apart_not_in_region [of "sb_start t" "sb_len t" "sb_start v" "sb_len v"] by auto
    then have "segs_map ts m x = None" by (rule segs_map_outside)
    then show ?thesis using Cons.prems(3,5) u by (simp add: seg_map_def map_add_def Let_def)
  qed
qed simp

lemma scanned_after:
  assumes "vault_ok s'" and "frames s' = fs @ [hidden plt rsp rbp m]" and "call_ok plt rsp rbp s"
    and "p = sbuf_stack s' ! nat (sbuf_stack_top s' - 1)" and "0 < sbuf_stack_top s'"
    and "active (the (sbufs s' p)) = ts" and "map (\<lambda>t. (sb_start t, sb_len t)) ts = frame_segs plt rsp rbp"
    and "\<forall>t \<in> set ts. sb_holes t = HL []"
  shows "scanned p m s'" and "saved p s' = hidden plt rsp rbp m" and "p \<in> set (sbuf_stack s')"
proof -
  have call: "params_ok plt" "frame_ok rsp rbp" using assms(3) by (auto simp: call_ok_def)
  have st: "stores_ok s'" using assms(1) by (simp add: vault_ok_def)
  let ?k = "nat (sbuf_stack_top s' - 1)"
  have k: "nat (sbuf_stack_top s') = Suc ?k" "?k < length (sbuf_stack s')" using st assms(5) by (auto simp: stores_ok_def)
  show p: "p \<in> set (sbuf_stack s')" using assms(4) k(2) by simp
  show sv: "saved p s' = hidden plt rsp rbp m"
    using assms(2,4) k by (simp add: frames_def take_Suc_conv_app_nth)
  have arr: "arr_ok p s'" using st p by (simp add: stores_ok_def)
  then obtain arr where a: "sbufs s' p = Some arr" "\<forall>t \<in> set (active arr). seg_ok t" by (rule arr_okD)
  have ap: "sorted_wrt (\<lambda>t u. apart (sb_start t) (sb_len t) (sb_start u) (sb_len u)) ts"
    using frame_segs_ok(2) [OF call] unfolding assms(7) [symmetric] by (simp add: sorted_wrt_map)
  have "mem s' (sb_buf t + (x - sb_start t)) = m x" if "t \<in> set ts" "in_region (sb_start t) (sb_len t) x" for t x
    using segs_map_apart [OF ap _ assms(8) that, of "mem s'"] a assms(6) fun_cong [OF sv, of x]
    by (auto simp: saved_def hidden_def split: if_splits)
  then show "scanned p m s'" using arr ap assms(6,8) by (simp add: scanned_def)
qed

section \<open>The holes in the first buffer\<close>

text \<open>Regions of a segment and their places in its buffer are apart together.\<close>
lemma places_apart:
  assumes "seg_ok t" and "inside (a, n) (sb_start t, sb_len t)" and "inside (b, k) (sb_start t, sb_len t)"
  shows "apart (sb_buf t + (a - sb_start t)) n (sb_buf t + (b - sb_start t)) k \<longleftrightarrow> apart a n b k"
  using lookup_place(1) [OF assms(1,2)] lookup_place(1) [OF assms(1,3)] assms(2,3)
  unfolding apart_def inside_def fst_conv snd_conv by linarith

lemma sorted_wrt_inside:
  "\<forall>x \<in> set xs. P x \<Longrightarrow> (\<And>x y. P x \<Longrightarrow> P y \<Longrightarrow> R x y = S x y) \<Longrightarrow> sorted_wrt R xs = sorted_wrt S xs"
  by (induction xs) auto

text \<open>
  The holes fit the first segment exactly if the regions all lie in it and do not overlap: a
  region of another segment has its place in another block of the heap.
\<close>
lemma holes_ok_first:
  assumes "scanned p m s" and "active (the (sbufs s p)) = t # ts" and "distinct (map sb_buf (t # ts))"
    and "\<forall>r \<in> set rs. saved_in p s r"
  shows "holes_ok (sb_buf t) (sb_len t) (map (hole_in (t # ts)) rs) \<longleftrightarrow>
    (\<forall>r \<in> set rs. inside r (sb_start t, sb_len t)) \<and> sorted_wrt (\<lambda>(a, n) (b, k). apart a n b k) rs"
proof -
  from assms(1) exposed_Nil [OF assms(1)] obtain arr where "sbufs s p = Some arr"
    "\<forall>u \<in> set (active arr). seg_ok u" "\<forall>u \<in> set (active arr). (sb_buf u, sb_len u) \<in> set (live s)"
    "sorted_wrt (\<lambda>t u. apart (sb_start t) (sb_len t) (sb_start u) (sb_len u)) (active arr)"
    by (rule exposed_array)
  then have ok: "\<forall>u \<in> set (t # ts). seg_ok u" "\<forall>u \<in> set (t # ts). (sb_buf u, sb_len u) \<in> set (live s)"
    "sorted_wrt (\<lambda>t u. apart (sb_start t) (sb_len t) (sb_start u) (sb_len u)) (t # ts)"
    using assms(2) by simp_all
  have hp: "heap_ok (live s)" using assms(1) arr_okD by (auto simp: scanned_def)
  note look = lookup_inside [OF ok(1,3)]
  have one: "h_len (hole_in (t # ts) r) \<noteq> 0 \<and> unat (sb_buf t) \<le> unat (h_start (hole_in (t # ts) r)) \<and>
      unat (h_start (hole_in (t # ts) r)) + unat (h_len (hole_in (t # ts) r)) \<le> unat (sb_buf t) + unat (sb_len t) \<longleftrightarrow>
    inside r (sb_start t, sb_len t)" (is "?L \<longleftrightarrow> _") if r: "r \<in> set rs" for r
  proof -
    obtain a n where an: "r = (a, n)" by (cases r)
    obtain u where u: "u \<in> set (t # ts)" "inside (a, n) (sb_start u, sb_len u)"
      using assms(2,4) r an by (auto simp: saved_in_def spans_def)
    note pl = lookup_place [OF bspec [OF ok(1) u(1)] u(2)]
    have h: "hole_in (t # ts) r = \<lparr>h_start = sb_buf u + (a - sb_start u), h_len = n\<rparr>"
      using look [OF u] by (simp add: hole_in_def an)
    show ?thesis
    proof (cases "u = t")
      case True
      then show ?thesis using u(2) pl(4) unfolding h by (simp add: an inside_def)
    next
      case False
      have n: "0 < unat n" using u(2) by (simp add: inside_def unat_gt_0)
      have "sb_buf u \<noteq> sb_buf t" using False u(1) assms(3) by (auto simp: image_iff)
      then have "apart (sb_buf u) (sb_len u) (sb_buf t) (sb_len t)"
        using heap_ok_apart [OF hp bspec [OF ok(2) u(1)], of "sb_buf t" "sb_len t"] ok(2) by simp
      then have "\<not> ?L" using pl(4) n unfolding h inside_def apart_def fst_conv snd_conv hole_t.select_convs by linarith
      moreover have "apart (sb_start u) (sb_len u) (sb_start t) (sb_len t)"
        using sorted_apart [OF ok(3) u(1)] False by simp
      then have "\<not> inside (a, n) (sb_start t, sb_len t)"
        using u(2) n unfolding inside_def apart_def fst_conv snd_conv by linarith
      ultimately show ?thesis using an by simp
    qed
  qed
  have two: "sorted_wrt (\<lambda>r q. apart (h_start (hole_in (t # ts) r)) (h_len (hole_in (t # ts) r))
        (h_start (hole_in (t # ts) q)) (h_len (hole_in (t # ts) q))) rs \<longleftrightarrow>
      sorted_wrt (\<lambda>(a, n) (b, k). apart a n b k) rs" if "\<forall>r \<in> set rs. inside r (sb_start t, sb_len t)"
  proof (rule sorted_wrt_inside [OF that])
    fix r q
    assume "inside r (sb_start t, sb_len t)" "inside q (sb_start t, sb_len t)"
    then show "apart (h_start (hole_in (t # ts) r)) (h_len (hole_in (t # ts) r))
        (h_start (hole_in (t # ts) q)) (h_len (hole_in (t # ts) q)) = (case r of (a, n) \<Rightarrow> \<lambda>(b, k). apart a n b k) q"
      using look [of t] places_apart [of t] ok(1) by (cases r; cases q) (simp add: hole_in_def)
  qed
  show ?thesis unfolding holes_ok_def sorted_wrt_map using one two by auto
qed

section \<open>The module after the pointers were written back\<close>

lemma exposed_fields:
  fixes s0 s :: "'a kst_scheme"
  assumes "exposed p m s0 rs s"
  shows "init s = init s0" and "mapper s = mapper s0" and "call_stack s = call_stack s0"
    and "call_stack_top s = call_stack_top s0" and "sbuf_stack s = sbuf_stack s0"
    and "sbuf_stack_top s = sbuf_stack_top s0"
  using assms by (cases s; cases s0; simp add: exposed_def sb_step_def)+

lemma exposed_frame:
  assumes "exposed p m s0 rs s" and "heap_ok (live s0)"
  shows "same_kernel (mem s0) (mem s)" and "frame s0 s"
proof -
  have e: "\<forall>x. cover rs x \<longrightarrow> is_user x" "mem s = (\<lambda>x. if cover rs x then m x else mem s0 x)"
    "set (live s0) \<subseteq> set (live s)"
    using assms(1) by (auto simp: exposed_def)
  then show sk: "same_kernel (mem s0) (mem s)" by (auto simp: same_kernel_def)
  show "frame s0 s" using e(3) sk block_not_user [OF assms(2)] by (simp add: frame_def same_kernel_def)
qed

text \<open>The array, with the holes in its first segment.\<close>
lemma exposed_active:
  assumes "scanned p m s0" and "exposed p m s0 rs s"
  defines "ts \<equiv> active (the (sbufs s0 p))"
  shows "active (the (sbufs s p)) = set_holes (map (hole_in ts) rs) ts" and "room p s = room p s0"
    and "bufs q s = bufs q s0"
    and "\<forall>q. q \<noteq> p \<longrightarrow> sbufs s q = sbufs s0 q"
proof -
  from assms(1,2) obtain arr where arr: "sbufs s0 p = Some arr" "length (active arr) = unat (s_cur arr)"
    by (rule exposed_array)
  have sb: "sbufs s = (sbufs s0)(p \<mapsto> arr\<lparr>s_items := map Some (set_holes (map (hole_in ts) rs) ts) @
      drop (unat (s_cur arr)) (s_items arr)\<rparr>)"
    using assms(2) arr(1) by (simp add: exposed_def Let_def ts_def)
  have len: "length (set_holes (map (hole_in ts) rs) ts) = unat (s_cur arr)" using arr by (simp add: ts_def)
  then show act: "active (the (sbufs s p)) = set_holes (map (hole_in ts) rs) ts" by (simp add: sb active_def comp_def)
  show "room p s = room p s0" by (simp add: sb room_def arr(1))
  show q: "\<forall>q. q \<noteq> p \<longrightarrow> sbufs s q = sbufs s0 q" by (simp add: sb)
  show "bufs q s = bufs q s0" using q act by (cases "q = p") (simp_all add: bufs_def ts_def)
qed

lemma exposed_calls:
  assumes "vault_ok s0" and "scanned p m s0" and "exposed p m s0 rs s"
  shows "calls_ok s" and "\<exists>mp. mapper s = Some mp \<and> mapper_ok mp s"
proof -
  from assms(1) obtain mp where mp: "mapper s0 = Some mp" "mapper_ok mp s0" "heap_ok (live s0)"
    and ca: "calls_ok s0" by (rule vault_okD)
  note f = exposed_fields [OF assms(3)]
  have hp: "heap_ok (live s)" and sub: "blocks s0 \<subseteq> blocks s"
    using assms(3) by (auto simp: exposed_def blocks_def)
  have "cs_used s = cs_used s0" "store_blocks s = store_blocks s0"
    using f exposed_active(3) [OF assms(2,3)] by (simp_all add: cs_used_def store_blocks_def)
  then show "calls_ok s" using ca sub f by (auto simp: calls_ok_def)
  have "mapper_ok mp s"
    by (rule mapper_ok_blocks [OF mp(2) hp]) (use sub mapper_okD(8,9) [OF mp(2)] in \<open>auto simp: owned_def\<close>)
  then show "\<exists>mp. mapper s = Some mp \<and> mapper_ok mp s" using f mp(1) by simp
qed

text \<open>What the frame holds when the regions in its first segment were written back.\<close>
lemma exposed_saved:
  assumes "scanned p m s0" and "exposed p m s0 rs s" and "active (the (sbufs s0 p)) = t # ts"
    and "\<forall>r \<in> set rs. inside r (sb_start t, sb_len t)"
  shows "saved p s = (\<lambda>x. if cover rs x then None else saved p s0 x)"
proof
  fix x
  from assms(1,2) obtain arr where arr: "sbufs s0 p = Some arr" "\<forall>u \<in> set (active arr). seg_ok u"
    "sorted_wrt (\<lambda>t u. apart (sb_start t) (sb_len t) (sb_start u) (sb_len u)) (active arr)"
    by (rule exposed_array)
  then have ok: "seg_ok t" "\<forall>u \<in> set ts. seg_ok u" "\<forall>u \<in> set (t # ts). seg_ok u"
    "sorted_wrt (\<lambda>t u. apart (sb_start t) (sb_len t) (sb_start u) (sb_len u)) (t # ts)"
    using assms(3) by auto
  have hl: "sb_holes t = HL []" using assms(1,3) by (simp add: scanned_def)
  have "arr_ok p s0" using assms(1) by (simp add: scanned_def)
  then have hp: "heap_ok (live s0)" by (rule arr_okD)
  have nw: "no_wrap (sb_start u) (sb_len u)" if "u \<in> set (t # ts)" for u
    using ok(3) that user_region_no_wrap by (auto simp: seg_ok_def)
  have sk: "same_kernel (mem s0) (mem s)" using exposed_frame [OF assms(2) hp] by simp
  let ?hs = "map (hole_in (t # ts)) rs" and ?y = "sb_buf t + (x - sb_start t)"
  obtain arr' where "sbufs s p = Some arr'" using assms(2) by (auto simp: exposed_def Let_def)
  then have sv: "saved p s x = (seg_map (t\<lparr>sb_holes := HL ?hs\<rparr>) (mem s) ++ segs_map ts (mem s0)) x"
    using exposed_active(1) [OF assms(1,2)] assms(3) segs_map_same_kernel [OF ok(2) sk] by (simp add: saved_def)
  have sv0: "saved p s0 x = (seg_map t (mem s0) ++ segs_map ts (mem s0)) x" using arr(1) assms(3) by (simp add: saved_def)
  have hole: "in_hole ?hs ?y \<longleftrightarrow> cover rs x" if "in_region (sb_start t) (sb_len t) x"
  proof -
    have "in_region (lookup_buf (t # ts) (fst r) (snd r)) (snd r) ?y \<longleftrightarrow> in_region (fst r) (snd r) x"
      if "r \<in> set rs" for r
    proof -
      have "lookup_buf (t # ts) (fst r) (snd r) = sb_buf t + (fst r - sb_start t)"
        using lookup_inside [OF ok(3,4), of t "fst r" "snd r"] assms(4) that by simp
      then show ?thesis by (simp add: in_region_def)
    qed
    then show ?thesis by (simp add: in_hole_def cover_def hole_in_def split_beta)
  qed
  have mem: "mem s ?y = mem s0 ?y" if "in_region (sb_start t) (sb_len t) x"
    using kernel_byte [OF _ _ buf_byte [OF _ that]] ok(1) sk by (auto simp: seg_ok_def same_kernel_def)
  show "saved p s x = (if cover rs x then None else saved p s0 x)"
  proof (cases "cover rs x")
    case True
    then obtain a n where an: "(a, n) \<in> set rs" "in_region a n x" by (auto simp: cover_def)
    then have x: "in_region (sb_start t) (sb_len t) x"
      using inside_region(5) [of a n "sb_start t" "sb_len t" x] assms(4) nw by auto
    have "\<not> in_region (sb_start u) (sb_len u) x" if "u \<in> set ts" for u
      using apart_not_in_region [OF nw nw _ x, of u] ok(4) that by auto
    then have "segs_map ts (mem s0) x = None" by (rule segs_map_outside)
    then show ?thesis using True hole [OF x] by (simp add: sv map_add_def seg_map_def)
  next
    case False
    then have "seg_map (t\<lparr>sb_holes := HL ?hs\<rparr>) (mem s) x = seg_map t (mem s0) x"
      using hole mem hl by (auto simp: seg_map_def Let_def)
    then show ?thesis using False by (simp add: sv sv0 map_add_def split: option.split)
  qed
qed

lemma exposed_arr_ok:
  assumes "scanned p m s0" and "exposed p m s0 rs s" and "distinct (map sb_buf (active (the (sbufs s0 p))))"
    and "\<forall>r \<in> set rs. active (the (sbufs s0 p)) \<noteq> [] \<and> inside r (hd (spans (active (the (sbufs s0 p)))))"
    and "sorted_wrt (\<lambda>(a, n) (b, k). apart a n b k) rs"
  shows "arr_ok p s" and "saved p s = (\<lambda>x. if cover rs x then None else saved p s0 x)"
proof -
  have a0: "arr_ok p s0" using assms(1) by (simp add: scanned_def)
  then obtain arr where arr: "sbufs s0 p = Some arr" "p \<in> blocks s0" "length (s_items arr) = unat (s_cap arr)"
    "unat (s_cur arr) \<le> unat (s_cap arr)" "length (active arr) = unat (s_cur arr)"
    "\<forall>t \<in> set (active arr). seg_ok t" "\<forall>t \<in> set (active arr). (sb_buf t, sb_len t) \<in> set (live s0)" by (rule arr_okD)
  let ?hs = "map (hole_in (active arr)) rs"
  have segs: "\<forall>t \<in> set (set_holes ?hs (active arr)). seg_ok t \<and> (sb_buf t, sb_len t) \<in> set (live s0)"
    and sv: "saved p s = (\<lambda>x. if cover rs x then None else saved p s0 x)"
  proof -
    have "(\<forall>t \<in> set (set_holes ?hs (active arr)). seg_ok t \<and> (sb_buf t, sb_len t) \<in> set (live s0)) \<and>
        saved p s = (\<lambda>x. if cover rs x then None else saved p s0 x)"
    proof (cases "active arr")
      case Nil
      then have "rs = []" using assms(4) arr(1) by (cases rs) auto
      moreover have "saved p s = Map.empty" "saved p s0 = Map.empty"
        using exposed_active(1) [OF assms(1,2)] arr(1) Nil by (auto simp: saved_def split: option.split)
      ultimately show ?thesis using Nil by simp
    next
      case (Cons t ts)
      have act: "active (the (sbufs s0 p)) = t # ts" using arr(1) Cons by simp
      have ins: "\<forall>r \<in> set rs. inside r (sb_start t, sb_len t)" using assms(4) act by (simp add: spans_def)
      then have sin: "\<forall>r \<in> set rs. saved_in p s0 r" using act by (simp add: saved_in_def spans_def)
      have "holes_ok (sb_buf t) (sb_len t) ?hs"
        using holes_ok_first [OF assms(1) act _ sin] assms(3,5) act ins Cons by simp
      moreover have "seg_ok t" using arr(6) Cons by simp
      ultimately have "seg_ok (t\<lparr>sb_holes := HL ?hs\<rparr>)" by (simp add: seg_ok_def)
      then show ?thesis using arr(6,7) Cons exposed_saved [OF assms(1,2) act ins] by simp
    qed
    then show "\<forall>t \<in> set (set_holes ?hs (active arr)). seg_ok t \<and> (sb_buf t, sb_len t) \<in> set (live s0)"
      "saved p s = (\<lambda>x. if cover rs x then None else saved p s0 x)" by simp_all
  qed
  show "saved p s = (\<lambda>x. if cover rs x then None else saved p s0 x)" by (rule sv)
  have sb: "sbufs s p = Some (arr\<lparr>s_items := map Some (set_holes ?hs (active arr)) @ drop (unat (s_cur arr)) (s_items arr)\<rparr>)"
    and lv: "heap_ok (live s)" "set (live s0) \<subseteq> set (live s)"
    using assms(2) arr(1) by (auto simp: exposed_def Let_def)
  have "active (the (sbufs s p)) = set_holes ?hs (active arr)" using exposed_active(1) [OF assms(1,2)] arr(1) by simp
  moreover have "p \<in> blocks s" using arr(2) lv(2) by (auto simp: blocks_def)
  ultimately show "arr_ok p s"
    using segs lv arr(3-5) by (auto simp: arr_ok_def sb word_le_nat_alt)
qed

lemma exposed_vault:
  assumes "vault_ok s0" and "0 < sbuf_stack_top s0" and "p = sbuf_stack s0 ! nat (sbuf_stack_top s0 - 1)"
    and "scanned p m s0" and "exposed p m s0 rs s"
    and "arr_ok p s" and "saved p s = (\<lambda>x. if cover rs x then None else saved p s0 x)"
  shows "vault_ok s" and "frames s = butlast (frames s0) @ [\<lambda>x. if cover rs x then None else saved p s0 x]"
proof -
  have st: "stores_ok s0" and hp: "heap_ok (live s0)" and i: "init s0 = 1" using assms(1) by (auto simp: vault_ok_def)
  note f = exposed_fields [OF assms(5)] and act = exposed_active [OF assms(4,5)]
  have lv: "heap_ok (live s)" "set (live s0) \<subseteq> set (live s)" using assms(5) by (auto simp: exposed_def)
  let ?k = "nat (sbuf_stack_top s0 - 1)"
  have k: "nat (sbuf_stack_top s0) = Suc ?k" "?k < length (sbuf_stack s0)" "distinct (sbuf_stack s0)"
    using st assms(2) by (auto simp: stores_ok_def)
  have tk: "take (Suc ?k) (sbuf_stack s0) = take ?k (sbuf_stack s0) @ [p]"
    using k(2) assms(3) by (simp add: take_Suc_conv_app_nth)
  have neq: "q \<noteq> p" if "q \<in> set (take ?k (sbuf_stack s0)) \<union> set (drop (Suc ?k) (sbuf_stack s0))" for q
    using that k(3) id_take_nth_drop [OF k(2)] assms(3)
    by (metis Un_iff disjoint_iff distinct_append distinct.simps(2) list.set_intros(1))
  have arr: "arr_ok q s" "saved q s = saved q s0" if "q \<in> set (sbuf_stack s0)" "q \<noteq> p" for q
    using st that act(4) lv arr_ok_frame [of q s0 s] saved_frame [OF _ exposed_frame(2) [OF assms(5) hp], of q]
    by (auto simp: stores_ok_def)
  have len: "length (active (the (sbufs s q))) = length (active (the (sbufs s0 q)))" "room q s = room q s0" for q
    using act(1,2,4) by (cases "q = p"; simp add: room_def)+
  have "stores_ok s"
  proof -
    have "arr_ok q s \<and> room q s + length (active (the (sbufs s q))) = 32" if "q \<in> set (sbuf_stack s0)" for q
      using that st len arr(1) assms(6) by (cases "q = p") (simp_all add: stores_ok_def)
    moreover have "active (the (sbufs s q)) = []" if "q \<in> set (drop (Suc ?k) (sbuf_stack s0))" for q
      using that st k(1) neq act(4) by (simp add: stores_ok_def)
    ultimately show ?thesis using st f k(1) by (simp add: stores_ok_def)
  qed
  then show "vault_ok s" using exposed_calls [OF assms(1,4,5)] lv i f by (simp add: vault_ok_def)
  have "map (\<lambda>q. saved q s) (take ?k (sbuf_stack s0)) = map (\<lambda>q. saved q s0) (take ?k (sbuf_stack s0))"
    using arr(2) neq by (auto dest: in_set_takeD)
  then show "frames s = butlast (frames s0) @ [\<lambda>x. if cover rs x then None else saved p s0 x]"
    using f k(1) tk assms(7) by (simp add: frames_def)
qed

text \<open>Writing the array back succeeds only if the holes fit the first segment.\<close>
lemma restore_exposed_needs:
  assumes "list_sort_ok srt" and "scanned p m s0" and "exposed p m s0 rs s1"
    and "distinct (map sb_buf (active (the (sbufs s0 p))))" and "\<forall>r \<in> set rs. saved_in p s0 r"
    and "sbufs s2 p = sbufs s1 p" and "restore_stack_buf srt p s2 = Inr res"
  shows "(\<forall>r \<in> set rs. active (the (sbufs s0 p)) \<noteq> [] \<and> inside r (hd (spans (active (the (sbufs s0 p)))))) \<and>
    sorted_wrt (\<lambda>(a, n) (b, k). apart a n b k) rs"
proof (cases "active (the (sbufs s0 p))")
  case Nil
  then show ?thesis using assms(5) by (cases rs) (auto simp: saved_in_def spans_def)
next
  case (Cons t ts)
  from assms(2,3) obtain arr where arr: "sbufs s0 p = Some arr" "p \<noteq> 0" "length (active arr) = unat (s_cur arr)"
    "\<forall>t \<in> set (active arr). seg_ok t"
    "sorted_wrt (\<lambda>t u. apart (sb_start t) (sb_len t) (sb_start u) (sb_len u)) (active arr)" by (rule exposed_array)
  have act: "active arr = t # ts" using arr(1) Cons by simp
  let ?hs = "map (hole_in (t # ts)) rs"
  let ?t = "t\<lparr>sb_holes := HL ?hs\<rparr>"
  have "sbufs s1 p = Some (arr\<lparr>s_items := Some ?t # map Some ts @ drop (unat (s_cur arr)) (s_items arr)\<rparr>)"
    using assms(3) arr(1) act by (simp add: exposed_def Let_def)
  then obtain its where at: "sbuf_at p s2 = Inr (arr\<lparr>s_items := Some ?t # its\<rparr>)"
    using assms(6) arr(2) by (simp add: sbuf_at_def)
  have n: "unat (s_cur arr) = Suc (length ts)" using arr(3) act by simp
  have "\<exists>r. restore_seg srt ?t (mem s2) = Inr r"
    using assms(7) by (auto simp: restore_stack_buf_def at n bind_res_eq_Inr)
  then obtain r where r: "restore_seg srt ?t (mem s2) = Inr r" by blast
  have "sb_holes t = HL []" using assms(2) Cons by (simp add: scanned_def)
  then have sok: "seg_ok (?t\<lparr>sb_holes := HL []\<rparr>)" using arr(4) act by (simp add: seg_ok_def)
  have fits: "\<forall>h \<in> set ?hs. h_len h \<noteq> 0 \<and> no_wrap (h_start h) (h_len h)"
  proof
    fix h
    assume "h \<in> set ?hs"
    then obtain a k where ak: "(a, k) \<in> set rs" "h = hole_in (t # ts) (a, k)" by auto
    then obtain u where u: "u \<in> set (active arr)" "inside (a, k) (sb_start u, sb_len u)"
      using assms(5) arr(1) by (auto simp: saved_in_def spans_def)
    show "h_len h \<noteq> 0 \<and> no_wrap (h_start h) (h_len h)"
      using lookup_inside [OF arr(4,5) u] lookup_place(3) [OF bspec [OF arr(4) u(1)] u(2)] u(2) ak(2) act
      by (simp add: hole_in_def inside_def)
  qed
  have "holes_ok (sb_buf t) (sb_len t) ?hs"
    using restore_seg_needs [OF assms(1) sok _ fits r] by simp
  then show ?thesis
    using holes_ok_first [OF assms(2) Cons _ assms(5)] assms(4) Cons by (simp add: spans_def)
qed

section \<open>Encrypting\<close>

text \<open>The bytes of the frame that stay hidden while the callee runs.\<close>
definition concealed :: "para_list_t \<Rightarrow> addr \<Rightarrow> addr \<Rightarrow> memory \<Rightarrow> addr \<Rightarrow> bool" where
  "concealed plt rsp rbp m x \<longleftrightarrow> secret plt rsp rbp x \<and> \<not> cover (passed plt rsp rbp m) x"

text \<open>The sizes of all blocks that a call allocates.\<close>
definition call_allocs :: "cstring \<Rightarrow> para_list_t \<Rightarrow> addr \<Rightarrow> addr \<Rightarrow> memory \<Rightarrow> u64 list" where
  "call_allocs fn plt rsp rbp m =
     frame_allocs fn plt rsp rbp @ replicate (length (passed plt rsp rbp m)) sizeof_hole"

lemma allocs_ok_prefix: "allocs_ok al (ns @ ks) s \<Longrightarrow> allocs_ok al ns s"
  by (induction ns arbitrary: s) (auto split: prod.splits)

lemma encrypt_pointers:
  assumes "alloc_ok al" and "vault_ok s" and "short_str fn" and "call_ok plt rsp rbp s"
    and "pointers_in plt rsp rbp (mem s)"
  obtains (null) "encrypt_frame al fn rsp rbp plt s = Some (Inl NullDeref)"
      and "\<not> allocs_ok al (call_allocs fn plt rsp rbp (mem s)) s"
    | (ok) p s0 s' where "encrypt_frame al fn rsp rbp plt s = Some (Inr (0, spent plt, s'))"
      and "vault_ok s0" and "frames s0 = frames s @ [hidden plt rsp rbp (mem s)]"
      and "scanned p (mem s) s0" and "exposed p (mem s) s0 (passed plt rsp rbp (mem s)) s'"
      and "\<forall>x. is_user x \<longrightarrow> mem s' x = (if concealed plt rsp rbp (mem s) x then 0x30 else mem s x)"
      and "frame s s'" and "mapper s' = mapper s" and "0 < sbuf_stack_top s0"
      and "p = sbuf_stack s0 ! nat (sbuf_stack_top s0 - 1)" and "saved p s0 = hidden plt rsp rbp (mem s)"
      and "spans (active (the (sbufs s0 p))) = frame_segs plt rsp rbp"
      and "distinct (map sb_buf (active (the (sbufs s0 p))))"
proof -
  note failed = null and wrote = ok
  let ?rs = "passed plt rsp rbp (mem s)"
  have call: "params_ok plt" using assms(4) by (simp add: call_ok_def)
  from assms(1-4) show ?thesis
  proof (cases rule: encrypt_scan)
    case null
    then show ?thesis using failed allocs_ok_prefix by (auto simp: call_allocs_def)
  next
    case (ok p s0 ts)
    have "stores_ok s" using assms(2) by (simp add: vault_ok_def)
    then have top: "0 < sbuf_stack_top s0" "p = sbuf_stack s0 ! nat (sbuf_stack_top s0 - 1)"
      using ok(7,8) by (auto simp: stores_ok_def)
    note sc = scanned_after [OF ok(2,3) assms(4) top(2,1) ok(9-11)]
    have sp: "spans (active (the (sbufs s0 p))) = frame_segs plt rsp rbp" using ok(9,10) by (simp add: spans_def)
    from restore_pointers_writes [OF assms(1) sc(1) call sp assms(5)]
    consider "restore_pointers al plt p s0 = Inl NullDeref"
        "\<not> allocs_ok al (replicate (length ?rs) sizeof_hole) s0"
      | s' where "restore_pointers al plt p s0 = Inr (0, spent plt, s')" "exposed p (mem s) s0 ?rs s'"
      unfolding writes_back_def Let_def append_Nil by (metis append_Nil2)
    then show ?thesis
    proof cases
      case 1
      then show ?thesis using failed ok(1,13) by (auto simp: call_allocs_def)
    next
      case (2 s')
      have e: "encrypt_frame al fn rsp rbp plt s = Some (Inr (0, spent plt, s'))" using ok(1) 2(1) by simp
      have hp: "heap_ok (live s0)" using ok(2) by (simp add: vault_ok_def)
      have "mem s' x = (if concealed plt rsp rbp (mem s) x then 0x30 else mem s x)" if "is_user x" for x
        using ok(4) that 2(2) by (simp add: exposed_def concealed_def)
      then show ?thesis
        using wrote [OF e ok(2,3) sc(1) 2(2)] frame_trans [OF ok(5) exposed_frame(2) [OF 2(2) hp]]
          exposed_fields(2) [OF 2(2)] ok(6,9,12) top sc(2) sp by simp
    qed
  qed
qed

text \<open>When everything lies in the first segment, the module can go on.\<close>
lemma encrypt_first:
  assumes "vault_ok s0" and "frames s0 = fs @ [hidden plt rsp rbp m]" and "scanned p m s0"
    and "exposed p m s0 (passed plt rsp rbp m) s'" and "0 < sbuf_stack_top s0"
    and "p = sbuf_stack s0 ! nat (sbuf_stack_top s0 - 1)" and "saved p s0 = hidden plt rsp rbp m"
    and "spans (active (the (sbufs s0 p))) = frame_segs plt rsp rbp"
    and "distinct (map sb_buf (active (the (sbufs s0 p))))" and "pointers_first plt rsp rbp m"
  shows "vault_ok s'" and "frames s' = fs @ [\<lambda>x. if concealed plt rsp rbp m x then Some (m x) else None]"
proof -
  have ne: "active (the (sbufs s0 p)) \<noteq> [] \<longleftrightarrow> frame_segs plt rsp rbp \<noteq> []"
    unfolding assms(8) [symmetric] by (simp add: spans_def)
  have a: "arr_ok p s'" "saved p s' = (\<lambda>x. if cover (passed plt rsp rbp m) x then None else saved p s0 x)"
    using exposed_arr_ok [OF assms(3,4,9)] assms(10) ne unfolding assms(8) by (simp_all add: pointers_first_def)
  note v = exposed_vault [OF assms(1,5,6,3,4) a]
  show "vault_ok s'" by (rule v(1))
  have "(\<lambda>x. if cover (passed plt rsp rbp m) x then None else saved p s0 x) =
      (\<lambda>x. if concealed plt rsp rbp m x then Some (m x) else None)"
    by (auto simp: assms(7) concealed_def hidden_def)
  then show "frames s' = fs @ [\<lambda>x. if concealed plt rsp rbp m x then Some (m x) else None]"
    using v(2) assms(2) by simp
qed

end
