(* ===== verification/Probes.thy ===== *)
theory Probes
  imports Pointers
begin

text \<open>
  The properties of the two probes: an abstract machine that keeps hidden frames on a stack,
  the proof that \<open>jsys_encrypt_stack\<close> and \<open>jsys_decrypt_stack\<close> implement it, what follows for
  nested calls, and what happens outside the conditions under which they do.
\<close>

section \<open>The abstract machine\<close>

text \<open>User memory and the hidden frames, newest last.\<close>
record vault =
  v_mem :: memory
  v_frames :: "(addr \<Rightarrow> u8 option) list"

text \<open>The bytes in \<open>H\<close> are moved to a new frame.\<close>
definition hide :: "(addr \<Rightarrow> bool) \<Rightarrow> vault \<Rightarrow> vault" where
  "hide H v =
     \<lparr>v_mem = (\<lambda>x. if H x then 0x30 else v_mem v x),
      v_frames = v_frames v @ [\<lambda>x. if H x then Some (v_mem v x) else None]\<rparr>"

definition reveal :: "vault \<Rightarrow> vault" where
  "reveal v = \<lparr>v_mem = override (v_mem v) (last (v_frames v)), v_frames = butlast (v_frames v)\<rparr>"

text \<open>What the module's state stands for; kernel memory is not part of it.\<close>
definition vault_of :: "'a kst_scheme \<Rightarrow> vault" where
  "vault_of s = \<lparr>v_mem = (\<lambda>x. if is_user x then mem s x else 0), v_frames = frames s\<rparr>"

section \<open>The probes implement it\<close>

lemma concealed_user: "frame_ok rsp rbp \<Longrightarrow> concealed plt rsp rbp m x \<Longrightarrow> is_user x"
  by (auto simp: frame_ok_def concealed_def secret_def is_user_def intro: order_less_trans)

lemma frames_user:
  assumes "vault_ok s" and "f \<in> set (frames s)" and "f x = Some c"
  shows "is_user x"
proof -
  have st: "stores_ok s" using assms(1) by (simp add: vault_ok_def)
  obtain p where p: "p \<in> set (sbuf_stack s)" "f = saved p s"
    using assms(2) by (auto simp: frames_def dest: in_set_takeD)
  then have "arr_ok p s" using st by (simp add: stores_ok_def)
  then obtain arr where "sbufs s p = Some arr" "\<forall>t \<in> set (active arr). seg_ok t" by (rule arr_okD)
  then show ?thesis using assms(3) p(2) segs_map_user by (auto simp: saved_def)
qed

lemma call_stack_checked:
  assumes "vault_ok s"
  shows "(if 0 < call_stack_top s then bind_res (csit_at (call_stack_top s - 1) s) (\<lambda>prev_csit. Inr ()) else Inr ())
    = Inr ()"
proof (cases "0 < call_stack_top s")
  case True
  have "calls_ok s" "stores_ok s" using assms by (auto simp: vault_ok_def)
  moreover from this have "call_stack_top s \<le> 16" by (auto simp: calls_ok_def stores_ok_def)
  ultimately show ?thesis using csit_at_top [OF _ True] True by (metis bind_res_Inr)
qed simp

text \<open>The handler, once the module runs and the function is known.\<close>
lemma jsys_encrypt_frame:
  assumes "vault_ok s" and "get_func_name (mapper s) (load64 (mem s) (kernel_rbp + 96)) = Inr (Some fn)"
    and "regs_sp + 0x750 \<le> load64 (mem s) kernel_rbp"
  shows "jsys_encrypt_stack al v kernel_rbp regs_sp plt s =
    encrypt_frame al fn (regs_sp + 0x750) (load64 (mem s) kernel_rbp) plt s"
proof -
  have "init s = 1" using assms(1) by (simp add: vault_ok_def)
  moreover have "\<not> load64 (mem s) kernel_rbp < regs_sp + 0x750" using assms(3) by (simp add: not_less)
  ultimately show ?thesis
    using assms(2) call_stack_checked [OF assms(1)] by (simp add: jsys_encrypt_stack_def Let_def)
qed

text \<open>The handler on a frame whose pointer parameters lead to saved bytes.\<close>
lemma encrypt_wrote:
  assumes "alloc_ok al" and "vault_ok s"
    and "get_func_name (mapper s) (load64 (mem s) (kernel_rbp + 96)) = Inr (Some fn)"
    and "rbp = load64 (mem s) kernel_rbp" and "rsp = regs_sp + 0x750"
    and "call_ok plt rsp rbp s" and "pointers_in plt rsp rbp (mem s)"
  obtains (null) "jsys_encrypt_stack al v kernel_rbp regs_sp plt s = Some (Inl NullDeref)"
      and "\<not> allocs_ok al (call_allocs fn plt rsp rbp (mem s)) s"
    | (ok) p s0 s' where "jsys_encrypt_stack al v kernel_rbp regs_sp plt s = Some (Inr (0, spent plt, s'))"
      and "vault_ok s0" and "frames s0 = frames s @ [hidden plt rsp rbp (mem s)]"
      and "scanned p (mem s) s0" and "exposed p (mem s) s0 (passed plt rsp rbp (mem s)) s'"
      and "\<forall>x. is_user x \<longrightarrow> mem s' x = (if concealed plt rsp rbp (mem s) x then 0x30 else mem s x)"
      and "frame s s'" and "mapper s' = mapper s" and "0 < sbuf_stack_top s0"
      and "p = sbuf_stack s0 ! nat (sbuf_stack_top s0 - 1)" and "saved p s0 = hidden plt rsp rbp (mem s)"
      and "spans (active (the (sbufs s0 p))) = frame_segs plt rsp rbp"
      and "distinct (map sb_buf (active (the (sbufs s0 p))))"
proof -
  from assms(2) obtain mp where mp: "mapper s = Some mp" "mapper_ok mp s" by (rule vault_okD)
  have fn: "short_str fn" using get_func_name_short mp assms(3) by metis
  have "frame_ok rsp rbp" using assms(6) by (simp add: call_ok_def)
  then have "regs_sp + 0x750 \<le> load64 (mem s) kernel_rbp" using assms(4,5) by (simp add: frame_ok_def)
  note j = jsys_encrypt_frame [OF assms(2,3) this, of al v plt, folded assms(4,5)]
  from assms(1,2) fn assms(6,7) show ?thesis
    by (cases rule: encrypt_pointers; use null ok j in metis)
qed

lemma encrypt_cases:
  assumes "alloc_ok al" and "vault_ok s"
    and "get_func_name (mapper s) (load64 (mem s) (kernel_rbp + 96)) = Inr (Some fn)"
    and "rbp = load64 (mem s) kernel_rbp" and "rsp = regs_sp + 0x750"
    and "call_ok plt rsp rbp s" and "pointers_first plt rsp rbp (mem s)"
  obtains (null) "jsys_encrypt_stack al v kernel_rbp regs_sp plt s = Some (Inl NullDeref)"
      and "\<not> allocs_ok al (call_allocs fn plt rsp rbp (mem s)) s"
    | (ok) s' where "jsys_encrypt_stack al v kernel_rbp regs_sp plt s = Some (Inr (0, spent plt, s'))"
      and "vault_ok s'"
      and "frames s' = frames s @ [\<lambda>x. if concealed plt rsp rbp (mem s) x then Some (mem s x) else None]"
      and "\<forall>x. is_user x \<longrightarrow> mem s' x = (if concealed plt rsp rbp (mem s) x then 0x30 else mem s x)"
      and "frame s s'" and "mapper s' = mapper s"
proof -
  note failed = null and hid = ok
  from assms(1-6) pointers_first_in [OF assms(7)] show ?thesis
  proof (cases rule: encrypt_wrote [where v = v])
    case null
    then show ?thesis by (rule failed)
  next
    case (ok p s0 s')
    show ?thesis
      by (rule hid [OF ok(1) encrypt_first [OF ok(2-5,9-13) assms(7)] ok(6-8)])
  qed
qed

text \<open>
  C1. Encrypting hides the frame of the caller: every byte between the user's stack pointer and
  frame pointer reads as the character 0 afterwards, except for the parameters passed by value
  and, for every pointer parameter, the words of the pointers on the way and the object at the
  end if that lies in the frame; those bytes and all others of user memory are unchanged. This
  holds for frames of at most 2 GB with fewer than 32 parameters passed by value, none of which
  overlap, less than 16 frames deep, and pointer parameters that lead through words in the
  saved segments of the frame. If, in addition, all that
  the pointers lead to lies in the first saved segment, which ends at the first parameter passed
  by value, and does not overlap, then the hidden bytes, and only they, are on the stack of
  frames. The handler succeeds whenever its allocations do; otherwise it runs into the NULL of
  one of them.
\<close>
theorem encrypt_hides:
  assumes "alloc_ok al" and "vault_ok s"
    and "get_func_name (mapper s) (load64 (mem s) (kernel_rbp + 96)) = Inr (Some fn)"
    and "rbp = load64 (mem s) kernel_rbp" and "rsp = regs_sp + 0x750"
    and "call_ok plt rsp rbp s" and "pointers_in plt rsp rbp (mem s)"
  shows "(jsys_encrypt_stack al v kernel_rbp regs_sp plt s = Some (Inl NullDeref) \<and>
     \<not> allocs_ok al (call_allocs fn plt rsp rbp (mem s)) s) \<or>
    (\<exists>s'. jsys_encrypt_stack al v kernel_rbp regs_sp plt s = Some (Inr (0, spent plt, s')) \<and>
       (\<forall>x. is_user x \<longrightarrow> mem s' x = (if concealed plt rsp rbp (mem s) x then 0x30 else mem s x)) \<and>
       (pointers_first plt rsp rbp (mem s) \<longrightarrow>
          vault_ok s' \<and> vault_of s' = hide (concealed plt rsp rbp (mem s)) (vault_of s)))"
  using assms
proof (cases rule: encrypt_wrote [where v = v])
  case (ok p s0 s')
  let ?H = "concealed plt rsp rbp (mem s)"
  have call: "frame_ok rsp rbp" using assms(6) by (simp add: call_ok_def)
  have "vault_ok s' \<and> vault_of s' = hide ?H (vault_of s)" if "pointers_first plt rsp rbp (mem s)"
  proof -
    note e = encrypt_first [OF ok(2-5,9-13) that]
    have "(\<lambda>x. if ?H x then Some (mem s x) else None) = (\<lambda>x. if ?H x then Some (v_mem (vault_of s) x) else None)"
      using concealed_user [OF call] by (auto simp: vault_of_def)
    then show ?thesis
      using e ok(6) concealed_user [OF call] by (auto simp: vault_of_def hide_def)
  qed
  then show ?thesis using ok(1,6) by blast
qed simp

text \<open>
  C3. Decrypting reveals the newest frame: every byte that was saved for it gets its old value
  back, no other byte changes, and the frame is gone from the stack. The name of the calling
  function only has to be known to the table, it need not be that of the frame.
\<close>
theorem decrypt_reveals:
  assumes "list_sort_ok srt" and "vault_ok s" and "frames s \<noteq> []"
    and "get_func_name (mapper s) (load64 (mem s) (kernel_rbp + 96)) = Inr (Some fn)"
  shows "\<exists>s'. jsys_decrypt_stack srt kernel_rbp s = Inr (0, s') \<and> vault_ok s' \<and>
    vault_of s' = reveal (vault_of s) \<and> (\<forall>x. \<not> is_user x \<longrightarrow> mem s' x = mem s x)"
  using assms
proof (rule decrypt_ok)
  fix s'
  assume d: "jsys_decrypt_stack srt kernel_rbp s = Inr (0, s')" "vault_ok s'" "frames s' = butlast (frames s)"
    "mem s' = override (mem s) (last (frames s))"
  have user: "is_user x" if "last (frames s) x = Some c" for x c
    using frames_user [OF assms(2) last_in_set [OF assms(3)] that] .
  then have "vault_of s' = reveal (vault_of s)"
    using d(3,4) by (auto simp: vault_of_def reveal_def override_def fun_eq_iff split: option.split)
  moreover have "\<forall>x. \<not> is_user x \<longrightarrow> mem s' x = mem s x"
    using d(4) user by (auto simp: override_def split: option.split)
  ultimately show ?thesis using d(1,2) by blast
qed

section \<open>Nested calls\<close>

text \<open>
  What can happen between the call that hides a frame and the one that reveals it: memory
  outside the module's blocks changes, and whole calls, with what happens inside them.
\<close>
inductive activity :: "alloc \<Rightarrow> 'v vfs_scheme \<Rightarrow> sorter \<Rightarrow> 'a kst_scheme \<Rightarrow> 'a kst_scheme \<Rightarrow> bool"
  for al v srt where
  idle: "activity al v srt s s"
| ran: "activity al v srt s s1 \<Longrightarrow> others_ran s1 s2 \<Longrightarrow> activity al v srt s s2"
| nested: "activity al v srt s s1 \<Longrightarrow>
     get_func_name (mapper s1) (load64 (mem s1) (kernel_rbp + 96)) = Inr (Some fn) \<Longrightarrow>
     call_ok plt (regs_sp + 0x750) (load64 (mem s1) kernel_rbp) s1 \<Longrightarrow>
     pointers_first plt (regs_sp + 0x750) (load64 (mem s1) kernel_rbp) (mem s1) \<Longrightarrow>
     jsys_encrypt_stack al v kernel_rbp regs_sp plt s1 = Some (Inr (0, plt', s2)) \<Longrightarrow>
     activity al v srt s2 s3 \<Longrightarrow>
     get_func_name (mapper s3) (load64 (mem s3) (kernel_rbp' + 96)) = Inr (Some fn') \<Longrightarrow>
     jsys_decrypt_stack srt kernel_rbp' s3 = Inr (0, s4) \<Longrightarrow>
     activity al v srt s s4"

lemma others_ran_fields:
  assumes "others_ran s s'"
  shows "init s' = init s" "mapper s' = mapper s" "call_stack s' = call_stack s"
    "call_stack_top s' = call_stack_top s" "sbuf_stack s' = sbuf_stack s"
    "sbuf_stack_top s' = sbuf_stack_top s" "sbufs s' = sbufs s" "live s' = live s" "frame s s'"
  using assms by (cases s; cases s'; simp add: others_ran_def)+

lemma calls_ok_ran:
  assumes "calls_ok s" and "others_ran s s'"
  shows "calls_ok s'"
proof -
  note f = others_ran_fields [OF assms(2)]
  have same: "cs_used s' = cs_used s" "store_blocks s' = store_blocks s" "blocks s' = blocks s"
    using f by (simp_all add: cs_used_def store_blocks_def bufs_def blocks_def)
  show ?thesis using assms(1) unfolding calls_ok_def f same .
qed

text \<open>Nothing the rest of the system does changes what the module holds.\<close>
lemma vault_ok_ran:
  assumes "vault_ok s" and "others_ran s s'"
  shows "vault_ok s'" and "frames s' = frames s"
proof -
  note f = others_ran_fields [OF assms(2)]
  from assms(1) obtain mp where mp: "mapper s = Some mp" "mapper_ok mp s" "init s = 1" "heap_ok (live s)"
    and st: "stores_ok s" and ca: "calls_ok s" by (rule vault_okD)
  have blk: "blocks s' = blocks s" by (simp add: blocks_def f(8))
  have arr: "arr_ok p s'" "saved p s' = saved p s" "room p s' = room p s" if "p \<in> set (sbuf_stack s)" for p
    using st that f mp(4) arr_ok_frame [of p s s'] saved_frame [of p s s']
    by (auto simp: stores_ok_def room_def)
  have "stores_ok s'" using st arr f by (simp add: stores_ok_def)
  moreover have "calls_ok s'" using calls_ok_ran [OF ca assms(2)] .
  moreover have "mapper_ok mp s'"
    by (rule mapper_ok_blocks [OF mp(2)]) (use mp(4) f(8) blk mapper_okD(8,9) [OF mp(2)] in \<open>simp_all add: owned_def\<close>)
  ultimately show "vault_ok s'" using mp f by (simp add: vault_ok_def)
  show "frames s' = frames s" using arr(2) f by (auto simp: frames_def dest: in_set_takeD)
qed

lemma activity_balanced:
  assumes "alloc_ok al" and "list_sort_ok srt"
  shows "activity al v srt s s' \<Longrightarrow> vault_ok s \<Longrightarrow> vault_ok s' \<and> frames s' = frames s"
proof (induction rule: activity.induct)
  case (ran s s1 s2)
  then have "vault_ok s1" "frames s1 = frames s" by auto
  then show ?case using vault_ok_ran [OF _ ran.hyps(2)] by simp
next
  case (nested s s1 kernel_rbp fn plt regs_sp plt' s2 s3 kernel_rbp' fn' s4)
  then have v1: "vault_ok s1" "frames s1 = frames s" by auto
  from assms(1) v1(1) nested.hyps(2) refl refl nested.hyps(3,4)
  obtain f where s2: "vault_ok s2" "frames s2 = frames s1 @ [f]"
    by (cases rule: encrypt_cases [where v = v]) (use nested.hyps(5) in auto)
  with nested.IH(2) have v3: "vault_ok s3" "frames s3 = frames s1 @ [f]" by auto
  then have "frames s3 \<noteq> []" by simp
  with assms(2) v3(1) have "vault_ok s4 \<and> frames s4 = butlast (frames s3)"
    using nested.hyps(7) by (rule decrypt_ok) (use nested.hyps(8) in auto)
  then show ?case using v3(2) v1(2) by simp
qed auto

text \<open>
  C2. A call leaves the stack as it was: when a frame is hidden, the callee runs, which may
  change memory and make any number of nested calls, and the frame is then revealed, decrypting
  succeeds, every hidden byte has the value it had before the call, and every other byte, those
  the pointer parameters lead to among them, has the value the callee left there. This holds
  for calls, the nested ones included, that fit the sixteen frames and for which all that the
  pointer parameters lead to lies in the first saved segment and does not overlap.
\<close>
theorem call_round_trip:
  assumes "alloc_ok al" and "list_sort_ok srt" and "vault_ok s"
    and "get_func_name (mapper s) (load64 (mem s) (kernel_rbp + 96)) = Inr (Some fn)"
    and "rbp = load64 (mem s) kernel_rbp" and "rsp = regs_sp + 0x750"
    and "call_ok plt rsp rbp s" and "pointers_first plt rsp rbp (mem s)"
    and "jsys_encrypt_stack al v kernel_rbp regs_sp plt s = Some (Inr (0, plt', s1))"
    and "activity al v srt s1 s2"
    and "get_func_name (mapper s2) (load64 (mem s2) (kernel_rbp' + 96)) = Inr (Some fn')"
  shows "\<exists>s3. jsys_decrypt_stack srt kernel_rbp' s2 = Inr (0, s3) \<and> vault_ok s3 \<and> frames s3 = frames s \<and>
    (\<forall>x. mem s3 x = (if concealed plt rsp rbp (mem s) x then mem s x else mem s2 x))"
proof -
  let ?f = "\<lambda>x. if concealed plt rsp rbp (mem s) x then Some (mem s x) else None"
  from assms(1,3-8) have 1: "vault_ok s1 \<and> frames s1 = frames s @ [?f]"
    by (cases rule: encrypt_cases [where v = v]) (use assms(9) in auto)
  then have 2: "vault_ok s2" "frames s2 = frames s @ [?f]"
    using activity_balanced [OF assms(1,2,10)] by auto
  then have "frames s2 \<noteq> []" by simp
  from assms(2) 2(1) this assms(11) show ?thesis
    by (rule decrypt_ok) (use 2(2) in \<open>auto simp: override_def fun_eq_iff\<close>)
qed

text \<open>
  C40. When a call with pointer parameters can be undone: after a successful call, with memory
  outside the module's blocks changing in any way before the frame is to be revealed, decrypting
  succeeds exactly if all that the pointer parameters lead to lies in the first saved segment and
  does not overlap. The holes of all segments are put into the list of the first one; with a hole
  that is not in its buffer, as when a pointer lies above a parameter passed by value, the kernel
  copies a negative length.
\<close>
theorem pointer_call_undone_iff:
  assumes "alloc_ok al" and "list_sort_ok srt" and "vault_ok s"
    and "get_func_name (mapper s) (load64 (mem s) (kernel_rbp + 96)) = Inr (Some fn)"
    and "rbp = load64 (mem s) kernel_rbp" and "rsp = regs_sp + 0x750"
    and "call_ok plt rsp rbp s" and "pointers_in plt rsp rbp (mem s)"
    and "jsys_encrypt_stack al v kernel_rbp regs_sp plt s = Some (Inr (0, plt', s1))"
    and "others_ran s1 s2"
    and "get_func_name (mapper s2) (load64 (mem s2) (kernel_rbp' + 96)) = Inr (Some fn')"
  shows "(\<exists>r. jsys_decrypt_stack srt kernel_rbp' s2 = Inr r) \<longleftrightarrow> pointers_first plt rsp rbp (mem s)"
proof
  let ?rs = "passed plt rsp rbp (mem s)"
  assume dec: "\<exists>r. jsys_decrypt_stack srt kernel_rbp' s2 = Inr r"
  from assms(1,3-8) obtain p s0 where
    e: "vault_ok s0" "scanned p (mem s) s0" "exposed p (mem s) s0 ?rs s1" "0 < sbuf_stack_top s0"
    "p = sbuf_stack s0 ! nat (sbuf_stack_top s0 - 1)" "spans (active (the (sbufs s0 p))) = frame_segs plt rsp rbp"
    "distinct (map sb_buf (active (the (sbufs s0 p))))"
    by (cases rule: encrypt_wrote [where v = v]) (use assms(9) in auto)
  note f = others_ran_fields [OF assms(10)] and g = exposed_fields [OF e(3)]
  have st: "stores_ok s0" using e(1) by (simp add: vault_ok_def)
  have hp: "heap_ok (live s2)" using e(3) f(8) by (simp add: exposed_def)
  have ca: "calls_ok s2" using calls_ok_ran [OF exposed_calls(1) [OF e(1-3)] assms(10)] .
  have top: "0 < sbuf_stack_top s2" "sbuf_stack_top s2 \<le> 16" "length (sbuf_stack s2) = 16"
    using st e(4) f(5,6) g(5,6) by (auto simp: stores_ok_def)
  from ca hp top assms(11) obtain c where
    "cs_used s2 = map the (take (nat (call_stack_top s2 - 1)) (call_stack s2)) @ [c]"
    and d: "jsys_decrypt_stack srt kernel_rbp' s2 =
      bind_res (restore_stack_buf srt (sbuf_stack s2 ! nat (sbuf_stack_top s2 - 1))
        ((without {fst (cs_name c), cs_self c} (s2\<lparr>call_stack_top := call_stack_top s2 - 1\<rparr>))
           \<lparr>sbuf_stack_top := sbuf_stack_top s2 - 1\<rparr>)) (\<lambda>(ret, s5). Inr (0, s5))"
    by (rule decrypt_restores)
  let ?s4 = "(without {fst (cs_name c), cs_self c} (s2\<lparr>call_stack_top := call_stack_top s2 - 1\<rparr>))
    \<lparr>sbuf_stack_top := sbuf_stack_top s2 - 1\<rparr>"
  have "sbuf_stack s2 ! nat (sbuf_stack_top s2 - 1) = p" using e(5) f(5,6) g(5,6) by simp
  with dec d obtain r where r: "restore_stack_buf srt p ?s4 = Inr r" by (auto simp: bind_res_eq_Inr)
  have "sbufs ?s4 = sbufs s2" by simp
  have "\<forall>r \<in> set ?rs. saved_in p s0 r" using assms(8) e(6) by (simp add: saved_in_def pointers_in_def)
  moreover have "sbufs ?s4 p = sbufs s1 p" using \<open>sbufs ?s4 = sbufs s2\<close> f(7) by simp
  ultimately have "(\<forall>r \<in> set ?rs. active (the (sbufs s0 p)) \<noteq> [] \<and> inside r (hd (frame_segs plt rsp rbp))) \<and>
      sorted_wrt (\<lambda>(a, n) (b, k). apart a n b k) ?rs"
    using restore_exposed_needs [OF assms(2) e(2,3,7) _ _ r] e(6) by simp
  moreover have "active (the (sbufs s0 p)) \<noteq> [] \<longleftrightarrow> frame_segs plt rsp rbp \<noteq> []"
    unfolding e(6) [symmetric] by (simp add: spans_def)
  ultimately show "pointers_first plt rsp rbp (mem s)" by (simp add: pointers_first_def)
next
  assume first: "pointers_first plt rsp rbp (mem s)"
  from assms(1,3-7) first obtain f where "vault_ok s1" "frames s1 = frames s @ [f]"
    by (cases rule: encrypt_cases [where v = v]) (use assms(9) in auto)
  then have "vault_ok s2" "frames s2 \<noteq> []" using vault_ok_ran [OF _ assms(10)] by auto
  with assms(2) show "\<exists>r. jsys_decrypt_stack srt kernel_rbp' s2 = Inr r"
    using assms(11) by (rule decrypt_ok) blast
qed

section \<open>Outside the conditions\<close>

text \<open>
  C15. What the handlers refuse: encrypting from an address that belongs to no known function
  does nothing and reports success; encrypting with a frame pointer below the stack pointer
  does nothing and fails; decrypting with no frame hidden does nothing and fails; but
  decrypting from an unknown address while a frame is hidden passes NULL to \<open>strcmp\<close>.
\<close>
theorem handlers_refuse:
  assumes "vault_ok s" and "ip = load64 (mem s) (kernel_rbp + 96)"
  shows "(get_func_name (mapper s) ip = Inr None \<longrightarrow>
       jsys_encrypt_stack al v kernel_rbp regs_sp plt s = Some (Inr (0, plt, s))) \<and>
    (get_func_name (mapper s) ip \<noteq> Inr None \<and> load64 (mem s) kernel_rbp < regs_sp + 0x750 \<longrightarrow>
       jsys_encrypt_stack al v kernel_rbp regs_sp plt s = Some (Inr (-1, plt, s))) \<and>
    (frames s = [] \<longrightarrow> jsys_decrypt_stack srt kernel_rbp s = Inr (-1, s)) \<and>
    (frames s \<noteq> [] \<and> get_func_name (mapper s) ip = Inr None \<longrightarrow>
       jsys_decrypt_stack srt kernel_rbp s = Inl NullDeref)"
proof -
  from assms(1) obtain mp where mp: "mapper s = Some mp" "mapper_ok mp s" "init s = 1"
    and st: "stores_ok s" and ca: "calls_ok s" by (rule vault_okD)
  obtain r where r: "get_func_name (mapper s) ip = Inr r" using get_func_name_ok [OF mp(2)] mp(1) by auto
  have top: "call_stack_top s = sbuf_stack_top s" "0 \<le> sbuf_stack_top s" "sbuf_stack_top s \<le> 16"
    "length (sbuf_stack s) = 16"
    using st ca by (auto simp: stores_ok_def calls_ok_def)
  then have empty: "frames s = [] \<longleftrightarrow> call_stack_top s = 0" by (auto simp: frames_def)
  have "\<exists>c. csit_at (call_stack_top s - 1) s = Inr c" if "frames s \<noteq> []"
    using csit_at_top [OF ca] that empty top by (metis order_le_less)
  then show ?thesis
    using r mp(3) empty assms(2)
    by (cases r) (auto simp: jsys_encrypt_stack_def jsys_decrypt_stack_def Let_def)
qed

text \<open>
  C16. The call stack has 64 places, the stack of arrays 16, and only the first bound is the one
  the comments name: the seventeenth nested call reads and writes beyond \<open>sbuf_stack\<close>.
\<close>
theorem encrypt_depth:
  assumes "alloc_ok al" and "vault_ok s" and "length (frames s) = 16"
    and "get_func_name (mapper s) (load64 (mem s) (kernel_rbp + 96)) = Inr (Some fn)"
    and "regs_sp + 0x750 \<le> load64 (mem s) kernel_rbp"
    and "allocs_ok al [sizeof_csit, of_nat (length fn + 1)] s"
  shows "jsys_encrypt_stack al v kernel_rbp regs_sp plt s = Some (Inl OutOfBounds)"
proof -
  from assms(2) obtain mp where mp: "mapper s = Some mp" "mapper_ok mp s" "heap_ok (live s)"
    and st: "stores_ok s" and ca: "calls_ok s" by (rule vault_okD)
  have fn: "short_str fn" using get_func_name_short mp(1,2) assms(4) by metis
  have top: "sbuf_stack_top s = 16" "call_stack_top s = 16" "length (call_stack s) = 64" "length (sbuf_stack s) = 16"
    using st ca assms(3) by (auto simp: stores_ok_def calls_ok_def frames_def)
  let ?rsp = "regs_sp + 0x750" and ?rbp = "load64 (mem s) kernel_rbp"
  have "0 \<le> call_stack_top s" "call_stack_top s < int (length (call_stack s))" using top by auto
  from assms(1) mp(3) fn this obtain s1 where
    "push_csit al fn ?rsp ?rbp s = Inr s1" "sbuf_stack_top s1 = 16" "length (sbuf_stack s1) = 16"
  proof (cases rule: push_csit_cases [where rsp = ?rsp and rbp = ?rbp])
    case null
    then show ?thesis using assms(6) by blast
  next
    case (ok c s1)
    have "sbuf_stack_top s1 = 16" "length (sbuf_stack s1) = 16" by (subst ok(4), simp add: top)+
    then show ?thesis using that ok(1) by blast
  qed
  then show ?thesis
    unfolding jsys_encrypt_frame [OF assms(2,4,5)] by (simp add: encrypt_frame_def at_index_def)
qed

text \<open>
  C17. The loop of the handler need not end. A user program that calls it with frame and stack
  pointer both at the last address, and with no parameters, keeps the kernel in the loop
  forever: the counter wraps around before it can pass the frame pointer.
\<close>
theorem enc_loop_diverges:
  assumes "pl_size plt = 0"
  shows "enc_loop al plt (-1) (-1, -1, p, s) = None"
proof -
  have step: "enc_step al plt (-1) (i, -1, p, s) = Inr (i + 1, -1, p, s)" for i
    using assms by (simp add: enc_step_def contains_def)
  let ?P = "\<lambda>al' plt' rbp st r. al' = al \<longrightarrow> plt' = plt \<longrightarrow> rbp = -1 \<longrightarrow> snd st = (-1, p, s) \<longrightarrow> False"
  have never: "?P al' plt' rbp st r" if "enc_loop al' plt' rbp st = Some r" for al' plt' rbp st r
  proof (rule enc_loop.raw_induct [where P = ?P, OF _ that])
    fix loop al' plt' rbp and st :: "u64 \<times> u64 \<times> addr \<times> 'a sbst_scheme" and r
    assume IH: "\<And>al' plt' rbp st r. loop al' plt' rbp st = Some r \<Longrightarrow> ?P al' plt' rbp st r"
      and body: "(if fst st \<le> rbp then case enc_step al' plt' rbp st of Inl e \<Rightarrow> Some (Inl e)
          | Inr st' \<Rightarrow> loop al' plt' rbp st' else Some (Inr (snd (snd st)))) = Some r"
    show "?P al' plt' rbp st r"
    proof (intro impI)
      assume eq: "al' = al" "plt' = plt" "rbp = -1" and "snd st = (-1, p, s)"
      then have "st = (fst st, -1, p, s)" by (cases st) simp
      then have "loop al plt (-1) (fst st + 1, -1, p, s) = Some r"
        using body eq step [of "fst st"] by (metis (no_types, lifting) max_word_max sum.simps(6))
      from IH [OF this] show False by simp
    qed
  qed
  then show ?thesis
    by (cases "enc_loop al plt (-1) (-1, -1, p, s)") (use never [of al plt "-1" "(-1, -1, p, s)"] in auto)
qed

section \<open>Starting\<close>

definition empty_arr :: sbuf_arr where
  "empty_arr = \<lparr>s_cur = 0, s_cap = 32, s_items = replicate 32 None\<rparr>"

lemma init_stack_buf_32:
  assumes "kmalloc al 1792 s = (a, s1)"
  shows "init_stack_buf al 32 s = Inr (a, if a = 0 then s1 else s1\<lparr>sbufs := (sbufs s1)(a \<mapsto> empty_arr)\<rparr>)"
  using assms by (simp add: init_stack_buf_def sizeof_sbuf_def new_sbufs_def empty_arr_def)

lemma init_sbufs_other:
  "init_sbufs al n s = Inr (ps, s') \<Longrightarrow> q \<notin> set ps \<Longrightarrow> sbufs s' q = sbufs s q"
proof (induction n arbitrary: s ps)
  case (Suc n)
  obtain a s1 where k: "kmalloc al 1792 s = (a, s1)" by fastforce
  then show ?case
    using Suc kmalloc_sbufs [OF k]
    by (fastforce simp: init_stack_buf_32 [OF k] bind_res_eq_Inr split: if_splits)
qed simp

lemma init_sbufs_ok:
  assumes "alloc_ok al"
  shows "heap_ok (live s) \<Longrightarrow> init_sbufs al n s = Inr (ps, s') \<Longrightarrow> 0 \<notin> set ps \<Longrightarrow>
    length ps = n \<and> distinct ps \<and> set ps \<inter> blocks s = {} \<and> set ps \<subseteq> blocks s' \<and> heap_ok (live s') \<and>
    set (live s) \<subseteq> set (live s') \<and> (\<forall>p \<in> set ps. sbufs s' p = Some empty_arr) \<and>
    s' = s\<lparr>live := live s', calls := calls s', sbufs := sbufs s'\<rparr>"
proof (induction n arbitrary: s ps)
  case (Suc n)
  obtain a s1 where k: "kmalloc al 1792 s = (a, s1)" by fastforce
  from Suc.prems(2) obtain ps' where ps: "ps = a # ps'" by (auto simp: init_stack_buf_32 [OF k] bind_res_eq_Inr)
  then have nz: "a \<noteq> 0" using Suc.prems(3) by auto
  let ?s1 = "s1\<lparr>sbufs := (sbufs s1)(a \<mapsto> empty_arr)\<rparr>"
  have r: "init_sbufs al n ?s1 = Inr (ps', s')"
    using Suc.prems(2) nz ps by (auto simp: init_stack_buf_32 [OF k] bind_res_eq_Inr)
  have f: "heap_ok ((a, 1792) # live s)" "live s1 = (a, 1792) # live s"
    using kmalloc_fresh [OF k assms Suc.prems(1) _ nz] by auto
  have s1: "s1 = s\<lparr>calls := Suc (calls s), live := (a, 1792) # live s\<rparr>" using kmalloc_Some [OF k _ nz] by simp
  have a: "a \<notin> blocks s" "blocks ?s1 = insert a (blocks s)"
    using heap_ok_fresh [OF f(1)] f(2) by (auto simp: blocks_def)
  have IH: "length ps' = n" "distinct ps'" "set ps' \<inter> blocks ?s1 = {}" "set ps' \<subseteq> blocks s'" "heap_ok (live s')"
    "set (live ?s1) \<subseteq> set (live s')" "\<forall>p \<in> set ps'. sbufs s' p = Some empty_arr"
    "s' = ?s1\<lparr>live := live s', calls := calls s', sbufs := sbufs s'\<rparr>"
    using Suc.IH [OF _ r] f Suc.prems(3) ps by auto
  have "a \<in> blocks s'" using IH(6) f(2) by (force simp: blocks_def)
  moreover have "sbufs s' a = Some empty_arr"
    using init_sbufs_other [OF r, of a] IH(3) a(2) by auto
  moreover have "s' = s\<lparr>live := live s', calls := calls s', sbufs := sbufs s'\<rparr>"
    using IH(8) s1 by (cases s; cases s') simp
  ultimately show ?case using IH a f(2) ps by auto
qed simp

lemma init_sbufs_allocs:
  "allocs_ok al (replicate n 1792) s \<Longrightarrow> \<exists>ps s'. init_sbufs al n s = Inr (ps, s') \<and> 0 \<notin> set ps"
proof (induction n arbitrary: s)
  case (Suc n)
  obtain a s1 where k: "kmalloc al 1792 s = (a, s1)" by fastforce
  let ?s1 = "s1\<lparr>sbufs := (sbufs s1)(a \<mapsto> empty_arr)\<rparr>"
  have nz: "a \<noteq> 0" and "allocs_ok al (replicate n 1792) s1" using Suc.prems k by auto
  then have "allocs_ok al (replicate n 1792) ?s1" using allocs_ok_cong [of ?s1 s1] by simp
  from Suc.IH [OF this] obtain ps s' where "init_sbufs al n ?s1 = Inr (ps, s')" "0 \<notin> set ps" by blast
  then show ?case using nz by (auto simp: init_stack_buf_32 [OF k])
qed simp

text \<open>A well-formed table, a call stack and sixteen empty arrays are a module that runs.\<close>
lemma start_vault:
  assumes "alloc_ok al" and "mapper s = Some mp" and "mapper_ok mp s"
    and "call_stack_top s = sbuf_stack_top s" and "0 \<le> sbuf_stack_top s \<and> sbuf_stack_top s \<le> 16"
    and "length (call_stack s) = 64" and "None \<notin> set (take (nat (call_stack_top s)) (call_stack s))"
    and "distinct (cs_blocks (cs_used s))" and "set (cs_blocks (cs_used s)) \<subseteq> blocks s - owned mp"
    and "init_sbufs al 16 s = Inr (ps, s')" and "0 \<notin> set ps"
  defines "r \<equiv> s'\<lparr>sbuf_stack := ps, init := 1\<rparr>"
  shows "vault_ok r" and "length (frames r) = nat (sbuf_stack_top s)" and "mem r = mem s" and "mapper r = Some mp"
proof -
  have hp: "heap_ok (live s)" using mapper_okD(1) [OF assms(3)] .
  note i = init_sbufs_ok [OF assms(1) hp assms(10,11)]
  then have s': "s' = s\<lparr>live := live s', calls := calls s', sbufs := sbufs s'\<rparr>" by blast
  have f: "mem s' = mem s" "mapper s' = mapper s" "call_stack_top s' = call_stack_top s"
    "sbuf_stack_top s' = sbuf_stack_top s" "call_stack s' = call_stack s"
    by (subst s', simp)+
  have blk: "blocks r = blocks s'" by (simp add: r_def blocks_def)
  have arrs: "arr_ok p r \<and> room p r = 32 \<and> active (the (sbufs r p)) = []"
    if "p \<in> set ps" for p
  proof -
    have "sbufs s' p = Some empty_arr" "p \<in> blocks s'" "heap_ok (live s')" using i that by auto
    then show ?thesis using blk by (simp add: r_def arr_ok_def active_def room_def empty_arr_def)
  qed
  have "length ps = 16" "distinct ps" "heap_ok (live s')" using i by auto
  moreover have g: "sbuf_stack r = ps" "sbuf_stack_top r = sbuf_stack_top s" "cs_used r = cs_used s"
    using f by (simp_all add: r_def cs_used_def)
  ultimately have st: "stores_ok r" using arrs assms(5) unfolding stores_ok_def by (auto dest: in_set_dropD)
  have sub: "blocks s \<subseteq> blocks r" using i blk by (auto simp: blocks_def)
  have "store_blocks r = set ps" using arrs g(1) by (auto simp: store_blocks_def bufs_def)
  then have "calls_ok r"
    using f g assms(2,4,6-9) i sub unfolding calls_ok_def by (auto simp: r_def)
  moreover have "mapper_ok mp r"
  proof (rule mapper_ok_blocks [OF assms(3)])
    show "heap_ok (live r)" using i by (simp add: r_def)
    show "owned mp \<subseteq> blocks r" using sub mapper_okD(8,9) [OF assms(3)] by (auto simp: owned_def)
  qed
  ultimately show "vault_ok r" using f assms(2) i st by (simp add: vault_ok_def r_def)
  show "length (frames r) = nat (sbuf_stack_top s)" using i g assms(5) by (simp add: frames_def nat_le_iff min_absorb2)
  show "mem r = mem s" "mapper r = Some mp" using f assms(2) by (simp_all add: r_def)
qed

section \<open>Witnesses\<close>

text \<open>
  A module that knows the function \<open>f\<close> at 0x400500. The kernel stack of the calling thread is a
  block at \<open>demo_krbp\<close>, with the user's frame pointer and, 96 bytes above it, the address of the
  call.
\<close>

definition demo_krbp :: addr where "demo_krbp = kernel_base + 4096"
definition demo_rbp :: addr where "demo_rbp = 0x7fff00001000"
definition demo_sp :: addr where "demo_sp = 0x7fff000007b0"

definition demo_mem :: memory where
  "demo_mem = store64 (store64 (store64 (\<lambda>_. 7) 0x7fff00000f20 0x7fff00000f40) demo_krbp demo_rbp) (demo_krbp + 96) 0x400504"

definition demo_kst :: kst where
  "demo_kst = (loaded \<lparr>mem = demo_mem, live = [(demo_krbp, 256), (kernel_base, 40), (kernel_base + 40, 2)], calls = 3,
     addr_limit = USER_DS, fdtab = [], closed = [], sbufs = Map.empty\<rparr>)\<lparr>mapper := Some demo_table\<rparr>"

definition demo_vault :: kst where
  "demo_vault = (case init_sbufs bump 16 demo_kst of
     Inl e \<Rightarrow> demo_kst | Inr (ps, s) \<Rightarrow> s\<lparr>sbuf_stack := ps, init := 1\<rparr>)"

text \<open>
  One parameter of four bytes, passed by value, and a pointer: in \<open>demo_plt\<close> below it, to an array
  of twenty bytes in the frame, in \<open>high_plt\<close> above it, to an address outside the frame.
\<close>
definition demo_val :: para_t where
  "demo_val = \<lparr>p_addr = 0x7fff00000f80, p_size = 4, p_pointer = 0\<rparr>"

definition demo_plt :: para_list_t where
  "demo_plt = \<lparr>pl_size = 2, pl_list = [demo_val, \<lparr>p_addr = 0x7fff00000f20, p_size = 20, p_pointer = 1\<rparr>]\<rparr>"

definition high_plt :: para_list_t where
  "high_plt = \<lparr>pl_size = 2, pl_list = [demo_val, \<lparr>p_addr = 0x7fff00000fa0, p_size = 20, p_pointer = 1\<rparr>]\<rparr>"

lemma demo_kst_fields:
  "mapper demo_kst = Some demo_table" "mapper_ok demo_table demo_kst" "call_stack_top demo_kst = 0"
  "sbuf_stack_top demo_kst = 0" "length (call_stack demo_kst) = 64" "mem demo_kst = demo_mem"
  "live demo_kst = [(demo_krbp, 256), (kernel_base, 40), (kernel_base + 40, 2)]"
proof -
  show live: "live demo_kst = [(demo_krbp, 256), (kernel_base, 40), (kernel_base + 40, 2)]"
    by (simp add: demo_kst_def loaded_def sbst.defs)
  show "mapper_ok demo_table demo_kst"
  proof (rule mapper_ok_blocks [OF demo_table_ok])
    show "heap_ok (live demo_kst)"
      unfolding live by (simp add: heap_ok_def apart_def no_wrap_def demo_krbp_def kernel_base_def)
    show "owned demo_table \<subseteq> blocks demo_kst"
      using live by (simp add: blocks_def owned_def demo_table_def written_def)
  qed
qed (simp_all add: demo_kst_def loaded_def sbst.defs)

lemma init_sbufs_bump:
  "heap_top (live s) + n * 1792 < 2 ^ 64 \<Longrightarrow> init_sbufs bump n s = Inr (ps, s') \<Longrightarrow>
     heap_top (live s') = heap_top (live s) + n * 1792"
proof (induction n arbitrary: s ps)
  case (Suc n)
  have n: "(1792 :: u64) \<noteq> 0" "heap_top (live s) + unat (1792 :: u64) < 2 ^ 64" using Suc.prems(1) by auto
  note k = kmalloc_bump [OF n]
  have "heap_top ((of_nat (heap_top (live s)), 1792) # live s) = heap_top (live s) + 1792"
    using k(2) by (simp add: heap_top_Cons)
  moreover obtain qs where q: "init_sbufs bump n (s\<lparr>calls := Suc (calls s),
      live := (of_nat (heap_top (live s)), 1792) # live s,
      sbufs := (sbufs s)(of_nat (heap_top (live s)) \<mapsto> empty_arr)\<rparr>) = Inr (qs, s')"
    using Suc.prems(2) k(3) by (auto simp: init_stack_buf_32 [OF k(1)] bind_res_eq_Inr)
  ultimately show ?case using Suc.IH [OF _ q] Suc.prems(1) by simp
qed simp

lemma sum_list_bound: "\<forall>n \<in> set ns. unat n \<le> B \<Longrightarrow> sum_list (map unat ns) \<le> length ns * B"
  by (induction ns) auto

lemma demo_kst_top: "heap_top (live demo_kst) = unat kernel_base + 4352"
  by (simp add: demo_kst_fields heap_top_Cons) (simp add: heap_top_def kernel_base_def demo_krbp_def)

lemma demo_vault_ok:
  "vault_ok demo_vault" "frames demo_vault = []" "mem demo_vault = demo_mem" "mapper demo_vault = Some demo_table"
  "heap_top (live demo_vault) < unat kernel_base + 2 ^ 20" "(demo_krbp, 256) \<in> set (live demo_vault)"
proof -
  note top = demo_kst_top
  have "heap_top (live demo_kst) + sum_list (map unat (replicate 16 (1792 :: u64))) < 2 ^ 64"
    using top by (simp add: kernel_base_def)
  then have "allocs_ok bump (replicate 16 1792) demo_kst" by (intro allocs_ok_bump) simp_all
  from init_sbufs_allocs [OF this] obtain ps s' where
    i: "init_sbufs bump 16 demo_kst = Inr (ps, s')" "0 \<notin> set ps" by blast
  then have v: "demo_vault = s'\<lparr>sbuf_stack := ps, init := 1\<rparr>" by (simp add: demo_vault_def)
  have "vault_ok demo_vault \<and> length (frames demo_vault) = 0 \<and> mem demo_vault = demo_mem \<and> mapper demo_vault = Some demo_table"
    using start_vault [OF alloc_ok_bump demo_kst_fields(1,2) _ _ _ _ _ _ i]
    by (simp add: v demo_kst_fields cs_used_def cs_blocks_def)
  then show "vault_ok demo_vault" "frames demo_vault = []" "mem demo_vault = demo_mem" "mapper demo_vault = Some demo_table"
    by simp_all
  show "heap_top (live demo_vault) < unat kernel_base + 2 ^ 20"
    using init_sbufs_bump [OF _ i(1)] top by (simp add: v kernel_base_def)
  have "heap_ok (live demo_kst)" using mapper_okD(1) [OF demo_kst_fields(2)] .
  from init_sbufs_ok [OF alloc_ok_bump this i] show "(demo_krbp, 256) \<in> set (live demo_vault)"
    by (auto simp: v demo_kst_fields)
qed

lemma demo_loads:
  "load64 (mem demo_vault) demo_krbp = demo_rbp" "load64 (mem demo_vault) (demo_krbp + 96) = 0x400504"
  by (simp_all add: demo_vault_ok demo_mem_def load64_store64)
    (subst load64_store64_apart, simp_all add: load64_store64 demo_krbp_def kernel_base_def no_wrap_def apart_def)

lemma demo_name_found: "get_func_name (Some demo_table) 0x400504 = Inr (Some demo_name)"
  by (simp add: get_func_name_def demo_table_def)

lemma demo_params:
  "params_ok demo_plt" "params_ok high_plt" "by_value demo_plt = [demo_val]" "by_value high_plt = [demo_val]"
  by (simp_all add: params_ok_def plist_ok_def by_value_def demo_plt_def high_plt_def demo_val_def
      user_region_def user_top_def)

lemma demo_frame: "demo_sp + 0x750 = 0x7fff00000f00" "frame_ok 0x7fff00000f00 demo_rbp"
  by (simp_all add: demo_sp_def demo_rbp_def frame_ok_def user_top_def)

lemma demo_call_ok:
  "call_ok demo_plt (demo_sp + 0x750) demo_rbp demo_vault" "call_ok high_plt (demo_sp + 0x750) demo_rbp demo_vault"
proof -
  have "stores_ok demo_vault" using demo_vault_ok(1) by (simp add: vault_ok_def)
  then have "sbuf_stack_top demo_vault < 16" using demo_vault_ok(2) by (auto simp: stores_ok_def frames_def)
  then show "call_ok demo_plt (demo_sp + 0x750) demo_rbp demo_vault"
    "call_ok high_plt (demo_sp + 0x750) demo_rbp demo_vault"
    unfolding demo_frame(1) call_ok_def using demo_params demo_frame(2) by simp_all
qed

text \<open>A run of bytes that belong to no parameter is one segment.\<close>
lemma segs_run:
  assumes "\<And>j. i \<le> j \<Longrightarrow> j < b \<Longrightarrow> sk j = 0" and "i \<le> b" and "b \<le> rbp" and "prev < b" and "sk b \<noteq> 0 \<or> b = rbp"
  shows "segs sk rbp i prev = (prev, b) # (if sk b = 0 then [] else segs sk rbp (b + sk b) (b + sk b))"
  using assms
proof (induction "b - i" arbitrary: i)
  case 0
  then have "i = b" by simp
  then show ?case using 0 by (subst segs.simps) auto
next
  case (Suc k)
  then have "i < b" "sk i = 0" by auto
  then have "segs sk rbp i prev = segs sk rbp (i + 1) prev" using Suc.prems(3) by (subst segs.simps) simp
  moreover have "segs sk rbp (i + 1) prev = (prev, b) # (if sk b = 0 then [] else segs sk rbp (b + sk b) (b + sk b))"
    by (rule Suc.hyps(1)) (use Suc \<open>i < b\<close> in auto)
  ultimately show ?case by simp
qed

lemma demo_segs:
  assumes "params_ok plt" and "by_value plt = [demo_val]"
  shows "frame_segs plt 0x7fff00000f00 demo_rbp = [(0x7fff00000f00, 0x80), (0x7fff00000f84, 0x7c)]"
proof -
  let ?sk = "skip_of plt"
  note sk = skip_of_iff [OF assms(1)]
  have z: "?sk j = 0" if "j \<noteq> 0x7fff00000f80" "j < 2 ^ 64" for j
    using sk(1) [OF that(2)] that(1) assms(2) by (simp add: demo_val_def)
  have v: "?sk 0x7fff00000f80 = 4" using sk(2) [of "0x7fff00000f80" demo_val] assms(2) by (simp add: demo_val_def)
  have "segs ?sk 0x7fff00001000 0x7fff00000f00 0x7fff00000f00 =
      (0x7fff00000f00, 0x7fff00000f80) # segs ?sk 0x7fff00001000 0x7fff00000f84 0x7fff00000f84"
    by (subst segs_run [where b = "0x7fff00000f80"]) (use z v in auto)
  also have "segs ?sk 0x7fff00001000 0x7fff00000f84 0x7fff00000f84 = [(0x7fff00000f84, 0x7fff00001000)]"
    by (subst segs_run [where b = "0x7fff00001000"]) (use z in auto)
  finally show ?thesis by (simp add: frame_segs_def demo_rbp_def to_seg_def)
qed

lemma demo_pointer: "load64 demo_mem 0x7fff00000f20 = 0x7fff00000f40" "load64 demo_mem 0x7fff00000fa0 = 0x707070707070707"
  by (simp_all add: demo_mem_def load64_store64_apart load64_store64 demo_krbp_def kernel_base_def no_wrap_def apart_def)
    (simp add: load64_def load_le_numeral)

lemma demo_passed:
  "passed demo_plt 0x7fff00000f00 demo_rbp demo_mem = [(0x7fff00000f20, 8), (0x7fff00000f40, 20)]"
  "passed high_plt 0x7fff00000f00 demo_rbp demo_mem = [(0x7fff00000fa0, 8)]"
  using demo_segs [OF demo_params(1,3)] demo_segs [OF demo_params(2,4)] demo_pointer
  by (simp_all add: passed_def demo_plt_def high_plt_def demo_val_def leads_to_def seg_found_def)

lemma demo_pointers:
  "pointers_first demo_plt (demo_sp + 0x750) demo_rbp (mem demo_vault)"
  "pointers_in demo_plt (demo_sp + 0x750) demo_rbp (mem demo_vault)"
  "pointers_in high_plt (demo_sp + 0x750) demo_rbp (mem demo_vault)"
  "\<not> pointers_first high_plt (demo_sp + 0x750) demo_rbp (mem demo_vault)"
proof -
  note d = demo_frame(1) demo_vault_ok(3) demo_passed demo_segs [OF demo_params(1,3)] demo_segs [OF demo_params(2,4)]
  show "pointers_first demo_plt (demo_sp + 0x750) demo_rbp (mem demo_vault)"
    by (simp add: pointers_first_def d inside_def apart_def)
  then show "pointers_in demo_plt (demo_sp + 0x750) demo_rbp (mem demo_vault)" by (rule pointers_first_in)
  show "pointers_in high_plt (demo_sp + 0x750) demo_rbp (mem demo_vault)"
    "\<not> pointers_first high_plt (demo_sp + 0x750) demo_rbp (mem demo_vault)"
    by (simp_all add: pointers_first_def pointers_in_def d inside_def)
qed

text \<open>The allocator \<open>bump\<close> has room for a call if its blocks reach up a megabyte.\<close>
lemma bump_call_allocs:
  assumes "params_ok plt" and "frame_ok rsp rbp" and "length (by_value plt) < 32" and "short_str fn"
    and "heap_top (live s) < unat kernel_base + 2 ^ 20" and "length (passed plt rsp rbp m) < 2 ^ 20"
  shows "allocs_ok bump (call_allocs fn plt rsp rbp m) s"
proof (rule allocs_ok_bump)
  let ?ns = "map snd (frame_segs plt rsp rbp)"
  note defs = call_allocs_def frame_allocs_def sizeof_csit_def sizeof_hole_def
  have seg: "n \<noteq> 0 \<and> unat n \<le> 2 ^ 31" if "n \<in> set ?ns" for n
    using frame_segs_ok(1) [OF assms(1,2)] that by (auto simp: segment_def)
  have nz: "(of_nat (length fn + 1) :: u64) \<noteq> 0" using dup_size_nonzero [OF assms(4)] .
  then show "0 \<notin> set (call_allocs fn plt rsp rbp m)"
    using seg by (auto simp: defs simp del: of_nat_add of_nat_Suc)
  have "sum_list (map unat ?ns) \<le> length ?ns * 2 ^ 31"
    using seg by (intro sum_list_bound) blast
  moreover have "length ?ns \<le> 32" using frame_segs_length [OF assms(1,2)] assms(3) by simp
  moreover have "length fn + 1 < 2 ^ 64" using assms(4) by (simp add: short_str_def)
  then have "unat (of_nat (length fn + 1) :: u64) = length fn + 1" by (simp only: unat_of_nat) simp
  ultimately show "heap_top (live s) + sum_list (map unat (call_allocs fn plt rsp rbp m)) < 2 ^ 64"
    using assms(4-6)
    by (simp add: defs short_str_def kernel_base_def sum_list_replicate del: of_nat_add of_nat_Suc)
qed

lemmas demo_found = demo_name_found [folded demo_vault_ok(4) demo_loads(2)]

lemma demo_allocs:
  "allocs_ok bump (call_allocs demo_name demo_plt (demo_sp + 0x750) demo_rbp (mem demo_vault)) demo_vault"
  "allocs_ok bump (call_allocs demo_name high_plt (demo_sp + 0x750) demo_rbp (mem demo_vault)) demo_vault"
  unfolding demo_frame(1) demo_vault_ok(3)
  using bump_call_allocs [OF demo_params(1) demo_frame(2) _ _ demo_vault_ok(5)]
    bump_call_allocs [OF demo_params(2) demo_frame(2) _ _ demo_vault_ok(5)]
  by (simp_all add: demo_params demo_passed demo_name_def short_str_def)

abbreviation demo_hidden :: "addr \<Rightarrow> bool" where
  "demo_hidden \<equiv> concealed demo_plt (demo_sp + 0x750) demo_rbp demo_mem"

lemma demo_concealed:
  "demo_hidden 0x7fff00000f10" "\<not> demo_hidden 0x7fff00000f81" "\<not> demo_hidden 0x7fff00000f50"
  unfolding demo_frame(1) concealed_def demo_passed
  by (simp_all add: secret_def kept_def demo_params demo_val_def demo_rbp_def in_region_def)

lemma demo_bytes: "demo_mem 0x7fff00000f10 = 7" "demo_mem 0x7fff00000f81 = 7" "demo_mem 0x7fff00000f50 = 7"
  by (simp_all add: demo_mem_def store64_def in_region_def demo_krbp_def kernel_base_def)

lemma demo_user: "is_user 0x7fff00000f10" "is_user 0x7fff00000f81" "is_user 0x7fff00000f50"
  by (simp_all add: is_user_def user_top_def)

theorem encrypt_hides_witness:
  "\<exists>s'. jsys_encrypt_stack bump zero_vfs demo_krbp demo_sp demo_plt demo_vault = Some (Inr (0, spent demo_plt, s')) \<and>
     mem s' 0x7fff00000f10 = 0x30 \<and> mem s' 0x7fff00000f81 = 7 \<and> mem s' 0x7fff00000f50 = 7 \<and> length (frames s') = 1"
proof -
  from encrypt_hides [where al = bump and s = demo_vault and fn = demo_name and kernel_rbp = demo_krbp and rbp = demo_rbp
      and rsp = "demo_sp + 0x750" and regs_sp = demo_sp and plt = demo_plt and v = zero_vfs,
      OF alloc_ok_bump demo_vault_ok(1) demo_found demo_loads(1) [symmetric] refl demo_call_ok(1) demo_pointers(2)]
  obtain s' where s': "jsys_encrypt_stack bump zero_vfs demo_krbp demo_sp demo_plt demo_vault = Some (Inr (0, spent demo_plt, s'))"
    "\<forall>x. is_user x \<longrightarrow> mem s' x = (if demo_hidden x then 0x30 else demo_mem x)"
    "vault_of s' = hide demo_hidden (vault_of demo_vault)"
    using demo_allocs(1) demo_pointers(1) demo_vault_ok(3) by auto
  have "length (v_frames (vault_of s')) = 1" using s'(3) demo_vault_ok(2) by (simp add: hide_def vault_of_def)
  then have "length (frames s') = 1" by (simp add: vault_of_def)
  then show ?thesis using s'(1,2) demo_user demo_concealed demo_bytes by auto
qed

text \<open>The rest of the system between the two calls: the whole frame is overwritten.\<close>
definition demo_ran :: "kst \<Rightarrow> kst" where
  "demo_ran s = s\<lparr>mem := fill (mem s) 0x7fff00000f00 0x55 256\<rparr>"

lemma demo_ran_ok: "vault_ok s \<Longrightarrow> others_ran s (demo_ran s)"
proof -
  assume "vault_ok s"
  then have "heap_ok (live s)" by (simp add: vault_ok_def)
  moreover have "user_region 0x7fff00000f00 256" by (simp add: user_region_def user_top_def)
  then have "same_kernel (mem s) (mem (demo_ran s))"
    using in_user_region by (auto simp: demo_ran_def same_kernel_def fill_def)
  ultimately show ?thesis by (auto simp: others_ran_def demo_ran_def intro: frame_user)
qed

text \<open>The kernel stack stays what it is.\<close>
lemma demo_kernel_stack:
  assumes "frame s s'" and "(demo_krbp, 256) \<in> set (live s)"
  shows "load64 (mem s') (demo_krbp + 96) = load64 (mem s) (demo_krbp + 96)"
proof (rule load64_cong)
  fix i :: nat
  assume i: "i < 8"
  have "in_region demo_krbp 256 (demo_krbp + 96 + of_nat i)"
    using i by (simp add: in_region_def word_less_nat_alt unat_word_ariths unat_of_nat)
  then show "mem s' (demo_krbp + 96 + of_nat i) = mem s (demo_krbp + 96 + of_nat i)"
    using assms by (auto simp: frame_def)
qed

lemma demo_found_after:
  assumes "frame demo_vault s1" and "mapper s1 = mapper demo_vault" and "others_ran s1 s2"
  shows "get_func_name (mapper s2) (load64 (mem s2) (demo_krbp + 96)) = Inr (Some demo_name)"
proof -
  have "frame demo_vault s2" using frame_trans [OF assms(1) others_ran_fields(9) [OF assms(3)]] .
  from demo_kernel_stack [OF this demo_vault_ok(6)] show ?thesis
    using demo_loads(2) others_ran_fields(2) [OF assms(3)] assms(2) demo_vault_ok(4) demo_name_found by simp
qed

text \<open>A call of the demonstration: hide, overwrite, and what is needed to reveal.\<close>
lemma demo_call:
  obtains s1 where "jsys_encrypt_stack bump zero_vfs demo_krbp demo_sp demo_plt demo_vault = Some (Inr (0, spent demo_plt, s1))"
    and "activity bump zero_vfs sort_cmp s1 (demo_ran s1)" and "vault_ok (demo_ran s1)"
    and "frames (demo_ran s1) = [\<lambda>x. if demo_hidden x then Some (demo_mem x) else None]"
    and "get_func_name (mapper (demo_ran s1)) (load64 (mem (demo_ran s1)) (demo_krbp + 96)) = Inr (Some demo_name)"
  using alloc_ok_bump demo_vault_ok(1) demo_found demo_loads(1) [symmetric] refl demo_call_ok(1) demo_pointers(1)
proof (cases rule: encrypt_cases [where v = zero_vfs])
  case null
  then show ?thesis using demo_allocs(1) by simp
next
  case (ok s1)
  have ran: "others_ran s1 (demo_ran s1)" using demo_ran_ok [OF ok(2)] .
  have act: "activity bump zero_vfs sort_cmp s1 (demo_ran s1)" by (rule activity.ran [OF activity.idle ran])
  have fr: "frames (demo_ran s1) = [\<lambda>x. if demo_hidden x then Some (demo_mem x) else None]"
    using vault_ok_ran(2) [OF ok(2) ran] ok(3) demo_vault_ok(2,3) by (simp cong: if_cong)
  show ?thesis
    by (rule that [OF ok(1) act vault_ok_ran(1) [OF ok(2) ran] fr demo_found_after [OF ok(5,6) ran]])
qed

theorem decrypt_reveals_witness:
  "\<exists>(s :: kst) s'. jsys_decrypt_stack sort_cmp demo_krbp s = Inr (0, s') \<and> mem s 0x7fff00000f10 = 0x55 \<and>
     mem s' 0x7fff00000f10 = 7 \<and> mem s' 0x7fff00000f81 = 0x55"
proof (rule demo_call)
  fix s1
  assume c: "vault_ok (demo_ran s1)" "frames (demo_ran s1) = [\<lambda>x. if demo_hidden x then Some (demo_mem x) else None]"
    "get_func_name (mapper (demo_ran s1)) (load64 (mem (demo_ran s1)) (demo_krbp + 96)) = Inr (Some demo_name)"
  from decrypt_reveals [OF sort_cmp_ok c(1) _ c(3)] c(2) obtain s' where
    s': "jsys_decrypt_stack sort_cmp demo_krbp (demo_ran s1) = Inr (0, s')" "vault_of s' = reveal (vault_of (demo_ran s1))"
    by auto
  have r: "mem (demo_ran s1) 0x7fff00000f10 = 0x55" "mem (demo_ran s1) 0x7fff00000f81 = 0x55"
    by (simp_all add: demo_ran_def fill_def in_region_def)
  have "v_mem (vault_of s') 0x7fff00000f10 = 7" "v_mem (vault_of s') 0x7fff00000f81 = 0x55"
    using demo_concealed demo_user demo_bytes r unfolding s'(2)
    by (simp_all add: reveal_def vault_of_def c(2) override_def)
  then have "mem s' 0x7fff00000f10 = 7" "mem s' 0x7fff00000f81 = 0x55" using demo_user by (simp_all add: vault_of_def)
  then show ?thesis using s'(1) r(1) by blast
qed

theorem call_round_trip_witness:
  "\<exists>s1 s3. jsys_encrypt_stack bump zero_vfs demo_krbp demo_sp demo_plt demo_vault = Some (Inr (0, spent demo_plt, s1)) \<and>
     jsys_decrypt_stack sort_cmp demo_krbp (demo_ran s1) = Inr (0, s3) \<and>
     (\<forall>x. mem s3 x = (if demo_hidden x then demo_mem x else mem (demo_ran s1) x))"
proof (rule demo_call)
  fix s1
  assume c: "jsys_encrypt_stack bump zero_vfs demo_krbp demo_sp demo_plt demo_vault = Some (Inr (0, spent demo_plt, s1))"
    "activity bump zero_vfs sort_cmp s1 (demo_ran s1)"
    "get_func_name (mapper (demo_ran s1)) (load64 (mem (demo_ran s1)) (demo_krbp + 96)) = Inr (Some demo_name)"
  from call_round_trip [where rsp = "demo_sp + 0x750" and regs_sp = demo_sp, OF alloc_ok_bump sort_cmp_ok demo_vault_ok(1)
      demo_found demo_loads(1) [symmetric] refl demo_call_ok(1) demo_pointers(1) c] show ?thesis
    using c(1) demo_vault_ok(3) by auto
qed

theorem pointer_call_undone_iff_witness:
  "\<exists>s1. jsys_encrypt_stack bump zero_vfs demo_krbp demo_sp high_plt demo_vault = Some (Inr (0, spent high_plt, s1)) \<and>
     (\<nexists>r. jsys_decrypt_stack sort_cmp demo_krbp s1 = Inr r)"
  using alloc_ok_bump demo_vault_ok(1) demo_found demo_loads(1) [symmetric] refl demo_call_ok(2) demo_pointers(3)
proof (cases rule: encrypt_wrote [where v = zero_vfs])
  case null
  then show ?thesis using demo_allocs(2) by simp
next
  case (ok p s0 s1)
  have "heap_ok (live s1)" using ok(5) by (simp add: exposed_def)
  then have ran: "others_ran s1 s1" by (simp add: others_ran_def frame_def)
  from pointer_call_undone_iff [where rsp = "demo_sp + 0x750" and regs_sp = demo_sp, OF alloc_ok_bump sort_cmp_ok
      demo_vault_ok(1) demo_found demo_loads(1) [symmetric] refl demo_call_ok(2) demo_pointers(3) ok(1) ran
      demo_found_after [OF ok(7,8) ran]]
  show ?thesis using ok(1) demo_pointers(4) by blast
qed

theorem handlers_refuse_witness:
  "vault_ok demo_vault \<and> jsys_decrypt_stack sort_cmp demo_krbp demo_vault = Inr (-1, demo_vault)"
  using handlers_refuse [OF demo_vault_ok(1) refl] demo_vault_ok(1,2) by blast

theorem enc_loop_diverges_witness:
  "enc_loop bump \<lparr>pl_size = 0, pl_list = []\<rparr> (-1) (-1, -1, kernel_base, demo_vault) = None"
  by (rule enc_loop_diverges) simp

text \<open>The same module with sixteen entries on the call stack, made from 32 fresh blocks.\<close>

fun pair_up :: "addr list \<Rightarrow> cs_item_t list" where
  "pair_up (a # b # ps) = \<lparr>cs_self = a, cs_op = ENCRYPT, cs_rsp = 0, cs_rbp = 0, cs_name = (b, demo_name)\<rparr> # pair_up ps"
| "pair_up [] = []"
| "pair_up [a] = []"

definition deep_kst :: kst where
  "deep_kst = (case init_sbufs bump 32 demo_kst of
     Inl e \<Rightarrow> demo_kst
   | Inr (ps, s) \<Rightarrow> s\<lparr>call_stack := map Some (pair_up ps) @ replicate 48 None, call_stack_top := 16, sbuf_stack_top := 16\<rparr>)"

definition deep_vault :: kst where
  "deep_vault = (case init_sbufs bump 16 deep_kst of
     Inl e \<Rightarrow> deep_kst | Inr (ps, s) \<Rightarrow> s\<lparr>sbuf_stack := ps, init := 1\<rparr>)"

lemma pair_up_blocks: "length ps = 2 * n \<Longrightarrow> cs_blocks (pair_up ps) = ps \<and> length (pair_up ps) = n"
proof (induction ps arbitrary: n rule: pair_up.induct)
  case (1 a b ps)
  then show ?case by (cases n) (auto simp: cs_blocks_def)
next
  case (3 a)
  then have "1 = 2 * n" by simp
  then show ?case by presburger
qed (simp add: cs_blocks_def)

lemma init_sbufs_demo:
  assumes "heap_top (live s) < unat kernel_base + 2 ^ 20" and "n \<le> 32"
  obtains ps s' where "init_sbufs bump n s = Inr (ps, s')" and "0 \<notin> set ps"
    and "heap_top (live s') = heap_top (live s) + n * 1792"
proof -
  have "heap_top (live s) + n * 1792 < 2 ^ 64" using assms by (simp add: kernel_base_def)
  moreover from this have "allocs_ok bump (replicate n 1792) s"
    by (intro allocs_ok_bump) (simp_all add: sum_list_replicate)
  ultimately show ?thesis using that init_sbufs_allocs init_sbufs_bump by metis
qed

lemma deep_kst_ok:
  "mapper deep_kst = Some demo_table" "mapper_ok demo_table deep_kst" "call_stack_top deep_kst = sbuf_stack_top deep_kst"
  "sbuf_stack_top deep_kst = 16" "length (call_stack deep_kst) = 64"
  "None \<notin> set (take (nat (call_stack_top deep_kst)) (call_stack deep_kst))"
  "distinct (cs_blocks (cs_used deep_kst))" "set (cs_blocks (cs_used deep_kst)) \<subseteq> blocks deep_kst - owned demo_table"
  "mem deep_kst = demo_mem" "heap_top (live deep_kst) = unat kernel_base + 4352 + 32 * 1792"
proof -
  have hp: "heap_ok (live demo_kst)" using mapper_okD(1) [OF demo_kst_fields(2)] .
  obtain ps s' where i: "init_sbufs bump 32 demo_kst = Inr (ps, s')" "0 \<notin> set ps"
    "heap_top (live s') = heap_top (live demo_kst) + 32 * 1792"
    using init_sbufs_demo [of demo_kst 32] demo_kst_top by auto
  note j = init_sbufs_ok [OF alloc_ok_bump hp i(1,2)]
  then have s': "s' = demo_kst\<lparr>live := live s', calls := calls s', sbufs := sbufs s'\<rparr>" by blast
  have p: "cs_blocks (pair_up ps) = ps" "length (pair_up ps) = 16" using pair_up_blocks [of ps 16] j by auto
  have d: "deep_kst = s'\<lparr>call_stack := map Some (pair_up ps) @ replicate 48 None, call_stack_top := 16, sbuf_stack_top := 16\<rparr>"
    using i(1) by (simp add: deep_kst_def)
  have f: "mapper s' = Some demo_table" "mem s' = demo_mem" by (subst s', simp add: demo_kst_fields)+
  have live: "live deep_kst = live s'" by (simp add: d)
  then have blk: "blocks deep_kst = blocks s'" by (simp add: blocks_def)
  have sub: "blocks demo_kst \<subseteq> blocks s'" using j by (auto simp: blocks_def)
  have own: "owned demo_table \<subseteq> blocks demo_kst"
    using mapper_okD(8,9) [OF demo_kst_fields(2)] by (auto simp: owned_def)
  have used: "cs_used deep_kst = pair_up ps" using p(2) by (simp add: d cs_used_def)
  show "mapper deep_kst = Some demo_table" "call_stack_top deep_kst = sbuf_stack_top deep_kst"
    "sbuf_stack_top deep_kst = 16" "length (call_stack deep_kst) = 64" "mem deep_kst = demo_mem"
    "None \<notin> set (take (nat (call_stack_top deep_kst)) (call_stack deep_kst))"
    using f p(2) by (auto simp: d)
  show "mapper_ok demo_table deep_kst"
    using j live blk sub own by (intro mapper_ok_blocks [OF demo_kst_fields(2)]) auto
  show "distinct (cs_blocks (cs_used deep_kst))" using j used p(1) by simp
  show "set (cs_blocks (cs_used deep_kst)) \<subseteq> blocks deep_kst - owned demo_table"
    using j own unfolding used p(1) blk by blast
  show "heap_top (live deep_kst) = unat kernel_base + 4352 + 32 * 1792" using i(3) live demo_kst_top by simp
qed

lemma deep_vault_ok:
  "vault_ok deep_vault" "length (frames deep_vault) = 16" "mem deep_vault = demo_mem"
  "mapper deep_vault = Some demo_table" "allocs_ok bump [sizeof_csit, of_nat (length demo_name + 1)] deep_vault"
proof -
  obtain ps s' where i: "init_sbufs bump 16 deep_kst = Inr (ps, s')" "0 \<notin> set ps"
    "heap_top (live s') = heap_top (live deep_kst) + 16 * 1792"
    using init_sbufs_demo [of deep_kst 16] deep_kst_ok(10) by auto
  then have v: "deep_vault = s'\<lparr>sbuf_stack := ps, init := 1\<rparr>" by (simp add: deep_vault_def)
  have "0 \<le> sbuf_stack_top deep_kst \<and> sbuf_stack_top deep_kst \<le> 16" using deep_kst_ok(4) by simp
  note sv = start_vault [OF alloc_ok_bump deep_kst_ok(1-3) this deep_kst_ok(5-8) i(1,2), folded v]
  show "vault_ok deep_vault" "length (frames deep_vault) = 16" "mem deep_vault = demo_mem"
    "mapper deep_vault = Some demo_table"
    using sv deep_kst_ok(4,9) by simp_all
  have "heap_top (live deep_vault) = unat kernel_base + 4352 + 48 * 1792" using i(3) deep_kst_ok(10) by (simp add: v)
  then show "allocs_ok bump [sizeof_csit, of_nat (length demo_name + 1)] deep_vault"
    by (intro allocs_ok_bump) (simp_all add: sizeof_csit_def demo_name_def kernel_base_def)
qed

theorem encrypt_depth_witness:
  "jsys_encrypt_stack bump zero_vfs demo_krbp demo_sp demo_plt deep_vault = Some (Inl OutOfBounds)"
proof (rule encrypt_depth [OF alloc_ok_bump deep_vault_ok(1,2) _ _ deep_vault_ok(5)])
  have l: "load64 demo_mem demo_krbp = demo_rbp" "load64 demo_mem (demo_krbp + 96) = 0x400504"
    using demo_loads by (simp_all add: demo_vault_ok)
  show "get_func_name (mapper deep_vault) (load64 (mem deep_vault) (demo_krbp + 96)) = Inr (Some demo_name)"
    using demo_name_found by (simp add: l deep_vault_ok)
  show "demo_sp + 0x750 \<le> load64 (mem deep_vault) demo_krbp" by (simp add: l deep_vault_ok demo_sp_def demo_rbp_def)
qed

end
