(* ===== verification/Write_Path.thy ===== *)
theory Write_Path
  imports Jprobe
begin

text \<open>
  The probes on the write path of \<open>kernel_probe/jprobe.c\<close>. Those that keep state are in \<open>Jprobe\<close>
  (\<open>jvfs_write\<close>, \<open>jgeneric_perform_write\<close>, \<open>jiov_iter_copy_from_user_atomic\<close>); here are the ones
  that only print, the table of the probes, and what a sequence of calls into the file system
  makes of the process and the page that the module remembers.
\<close>

section \<open>Handlers\<close>

datatype line =
    SyncWrite addr
  | AioWrite
  | BufferedWrite cstring u32 int

text \<open>What a handler returns and what it prints.\<close>

definition jdo_sync_write :: "addr \<Rightarrow> int \<times> line list" where
  "jdo_sync_write aio_write = (0, [SyncWrite aio_write])"

definition jgeneric_file_aio_write :: "cstring \<Rightarrow> int \<times> line list" where
  "jgeneric_file_aio_write file_name = (0, if strcmp file_name text_txt = 0 then [AioWrite] else [])"

text \<open>The length is cast to an \<open>int\<close> before it is printed.\<close>
definition jgeneric_file_buffered_write :: "cstring \<Rightarrow> u64 \<Rightarrow> int \<Rightarrow> int \<times> line list" where
  "jgeneric_file_buffered_write file_name iov_len current_pid =
     (0, if strcmp file_name text_txt = 0 then [BufferedWrite file_name (ucast iov_len) current_pid] else [])"

definition jmark_page_accessed :: "addr \<Rightarrow> 'a kst_scheme \<Rightarrow> 'a kst_scheme" where
  "jmark_page_accessed page s = s"

section \<open>The table of probes\<close>

datatype entry_point =
    E_vfs_write
  | E_generic_perform_write
  | E_iov_iter_copy_from_user_atomic
  | E_mark_page_accessed
  | E_sys_encrypt_stack
  | E_sys_decrypt_stack

record jprobe =
  jp_entry :: entry_point
  symbol_name :: string

definition jprobes :: "jprobe list" where
  "jprobes =
     [\<lparr>jp_entry = E_vfs_write, symbol_name = ''vfs_write''\<rparr>,
      \<lparr>jp_entry = E_generic_perform_write, symbol_name = ''generic_perform_write''\<rparr>,
      \<lparr>jp_entry = E_iov_iter_copy_from_user_atomic, symbol_name = ''iov_iter_copy_from_user_atomic''\<rparr>,
      \<lparr>jp_entry = E_mark_page_accessed, symbol_name = ''mark_page_accessed''\<rparr>,
      \<lparr>jp_entry = E_sys_encrypt_stack, symbol_name = ''sys_encrypt_stack''\<rparr>,
      \<lparr>jp_entry = E_sys_decrypt_stack, symbol_name = ''sys_decrypt_stack''\<rparr>]"

section \<open>Sequences of calls\<close>

datatype event =
    PerformWrite cstring int
  | CopyFromUser int addr u64
  | MarkAccessed addr

fun handle :: "event \<Rightarrow> 'a kst_scheme \<Rightarrow> 'a kst_scheme" where
  "handle (PerformWrite file_name current_pid) s = snd (jgeneric_perform_write file_name current_pid s)"
| "handle (CopyFromUser current_pid page bytes) s = snd (jiov_iter_copy_from_user_atomic current_pid page bytes s)"
| "handle (MarkAccessed page) s = jmark_page_accessed page s"

definition handle_all :: "event list \<Rightarrow> 'a kst_scheme \<Rightarrow> 'a kst_scheme" where
  "handle_all es s = fold handle es s"

lemma handle_all_snoc: "handle_all (es @ [e]) s = handle e (handle_all es s)"
  by (simp add: handle_all_def)

text \<open>The process that began the latest write to \<open>text.txt\<close>, or \<open>p\<close> if there was none.\<close>
definition writer :: "event list \<Rightarrow> int \<Rightarrow> int" where
  "writer es p = fold (\<lambda>e q. case e of PerformWrite f w \<Rightarrow> if strcmp f text_txt = 0 then w else q | _ \<Rightarrow> q) es p"

lemma writer_snoc:
  "writer (es @ [e]) p = (case e of PerformWrite f w \<Rightarrow> if strcmp f text_txt = 0 then w else writer es p | _ \<Rightarrow> writer es p)"
  unfolding writer_def by (simp split: event.split)

lemma handle_all_pid: "pid (handle_all es s) = writer es (pid s)"
proof (induction es rule: rev_induct)
  case Nil
  show ?case by (simp add: handle_all_def writer_def)
next
  case (snoc e es)
  then show ?case
    by (cases e) (simp_all add: handle_all_snoc writer_snoc jgeneric_perform_write_def jiov_iter_copy_from_user_atomic_def
        jmark_page_accessed_def)
qed

lemma handle_all_mem: "mem (handle_all es s) = mem s"
proof (induction es rule: rev_induct)
  case (snoc e es)
  then show ?case
    by (cases e) (simp_all add: handle_all_snoc jgeneric_perform_write_def jiov_iter_copy_from_user_atomic_def
        jmark_page_accessed_def)
qed (simp add: handle_all_def)

text \<open>
  A copy that counts: 512 bytes, copied into a page by the process that began the latest write to
  \<open>text.txt\<close> before it.
\<close>
definition counts :: "int \<Rightarrow> event list \<Rightarrow> event \<Rightarrow> addr \<Rightarrow> bool" where
  "counts p es e page \<longleftrightarrow> e = CopyFromUser (writer es p) page 512"

text \<open>The page of the last copy that counts.\<close>
definition last_copy :: "int \<Rightarrow> event list \<Rightarrow> addr \<Rightarrow> bool" where
  "last_copy p es page \<longleftrightarrow>
     (\<exists>es1 e es2. es = es1 @ e # es2 \<and> counts p es1 e page \<and>
        (\<forall>es3 e' es4 page'. es2 = es3 @ e' # es4 \<longrightarrow> \<not> counts p (es1 @ e # es3) e' page'))"

lemma last_copy_snoc:
  "last_copy p (es @ [e]) page \<longleftrightarrow> (if \<exists>q. counts p es e q then counts p es e page else last_copy p es page)"
proof (cases "\<exists>q. counts p es e q")
  case True
  then obtain q where q: "counts p es e q" by blast
  show ?thesis
  proof
    assume "last_copy p (es @ [e]) page"
    then obtain es1 f es2 where l: "es @ [e] = es1 @ f # es2" "counts p es1 f page"
      "\<forall>es3 e' es4 page'. es2 = es3 @ e' # es4 \<longrightarrow> \<not> counts p (es1 @ f # es3) e' page'"
      by (auto simp: last_copy_def)
    then show "if \<exists>q. counts p es e q then counts p es e page else last_copy p es page"
      using True q by (cases es2 rule: rev_cases) auto
  next
    assume "if \<exists>q. counts p es e q then counts p es e page else last_copy p es page"
    then have "counts p es e page" using True by simp
    then show "last_copy p (es @ [e]) page"
      unfolding last_copy_def by (intro exI [of _ es] exI [of _ e] exI [of _ "[]"]) simp
  qed
next
  case False
  show ?thesis
  proof
    assume "last_copy p (es @ [e]) page"
    then obtain es1 f es2 where l: "es @ [e] = es1 @ f # es2" "counts p es1 f page"
      "\<forall>es3 e' es4 page'. es2 = es3 @ e' # es4 \<longrightarrow> \<not> counts p (es1 @ f # es3) e' page'"
      by (auto simp: last_copy_def)
    then obtain es2' where es2: "es2 = es2' @ [e]" "es = es1 @ f # es2'"
      using False by (cases es2 rule: rev_cases) auto
    then have "\<forall>es3 e' es4 page'. es2' = es3 @ e' # es4 \<longrightarrow> \<not> counts p (es1 @ f # es3) e' page'"
      using l(3) by auto
    then show "if \<exists>q. counts p es e q then counts p es e page else last_copy p es page"
      using False es2(2) l(2) unfolding last_copy_def by auto
  next
    assume "if \<exists>q. counts p es e q then counts p es e page else last_copy p es page"
    then obtain es1 f es2 where l: "es = es1 @ f # es2" "counts p es1 f page"
      "\<forall>es3 e' es4 page'. es2 = es3 @ e' # es4 \<longrightarrow> \<not> counts p (es1 @ f # es3) e' page'"
      using False by (auto simp: last_copy_def)
    have "\<not> counts p (es1 @ f # es3) e' page'" if "es2 @ [e] = es3 @ e' # es4" for es3 e' es4 page'
      using that l(1,3) False by (cases es4 rule: rev_cases) auto
    then show "last_copy p (es @ [e]) page"
      unfolding last_copy_def using l(1,2) by (intro exI [of _ es1] exI [of _ f] exI [of _ "es2 @ [e]"]) auto
  qed
qed

lemma handle_all_page:
  "if \<exists>q. last_copy (pid s) es q then last_copy (pid s) es page \<longleftrightarrow> page = pg (handle_all es s)
   else pg (handle_all es s) = pg s"
proof (induction es arbitrary: page rule: rev_induct)
  case Nil
  then show ?case by (simp add: last_copy_def handle_all_def)
next
  case (snoc e es)
  have one: "counts (pid s) es e page \<longleftrightarrow> page = pg (handle_all (es @ [e]) s)" if "counts (pid s) es e q" for q page
    using that handle_all_pid [of es s]
    by (auto simp: counts_def handle_all_snoc jiov_iter_copy_from_user_atomic_def)
  have other: "pg (handle_all (es @ [e]) s) = pg (handle_all es s)" if "\<nexists>q. counts (pid s) es e q"
    using that handle_all_pid [of es s]
    by (cases e) (auto simp: counts_def handle_all_snoc jgeneric_perform_write_def jiov_iter_copy_from_user_atomic_def
        jmark_page_accessed_def)
  show ?case
  proof (cases "\<exists>q. counts (pid s) es e q")
    case True
    then show ?thesis using one by (auto simp: last_copy_snoc)
  next
    case False
    then show ?thesis using snoc [of page] other by (simp add: last_copy_snoc)
  qed
qed

text \<open>
  C35. What \<open>jvfs_write\<close> shows: for \<open>text.txt\<close>, the bytes of the page of the last copy that counts,
  that is, of the last 512 bytes that were copied into a page by the process that had then begun
  the latest write to \<open>text.txt\<close>; nothing for other files, and nothing before there was such a
  copy. A write that another process begins after that copy does not change the page, and calls
  for other files, copies of other sizes and copies by other processes change nothing at all.
\<close>
theorem shown_page_is_last_copy:
  assumes "pg s = 0"
  shows "jvfs_write file_name kmap (handle_all es s) = (0, Some bs) \<longleftrightarrow>
    strcmp file_name text_txt = 0 \<and>
    (\<exists>page. last_copy (pid s) es page \<and> page \<noteq> 0 \<and> bs = load_bytes (mem s) (kmap page) 512)"
proof -
  let ?s = "handle_all es s"
  have "(\<exists>page. last_copy (pid s) es page \<and> page \<noteq> 0 \<and> bs = load_bytes (mem s) (kmap page) 512) \<longleftrightarrow>
      pg ?s \<noteq> 0 \<and> bs = load_bytes (mem s) (kmap (pg ?s)) 512"
    using handle_all_page [of s es] assms by (cases "\<exists>q. last_copy (pid s) es q") auto
  then show ?thesis by (auto simp: jvfs_write_def handle_all_mem)
qed

definition quiet :: kst where
  "quiet = loaded \<lparr>mem = (\<lambda>x. ucast (x div 4096)), live = [], calls = 0, addr_limit = USER_DS, fdtab = [], closed = [],
     sbufs = Map.empty\<rparr>"

text \<open>Two copies by the writer, one by another process, and the beginning of a write by that one.\<close>
definition demo_events :: "event list" where
  "demo_events = [PerformWrite text_txt 42, CopyFromUser 42 0x6000 512, CopyFromUser 42 0x7000 512,
     CopyFromUser 43 0x8000 512, MarkAccessed 1, PerformWrite text_txt 43]"

theorem shown_page_is_last_copy_witness:
  "jvfs_write text_txt id (handle_all demo_events quiet) = (0, Some (load_bytes (mem quiet) 0x7000 512))"
proof -
  let ?w = "PerformWrite text_txt 42" and ?c = "CopyFromUser 42 0x6000 512"
  let ?r = "[CopyFromUser 43 0x8000 512, MarkAccessed 1, PerformWrite text_txt 43]"
  have t: "strcmp text_txt text_txt = 0" by (simp add: text_txt_def)
  have l: "pg quiet = 0" "pid quiet = -1" by (simp_all add: quiet_def loaded_def sbst.defs)
  have "counts (-1) [?w, ?c] (CopyFromUser 42 0x7000 512) 0x7000" using t by (simp add: counts_def writer_def)
  moreover have "\<not> counts (-1) ([?w, ?c] @ CopyFromUser 42 0x7000 512 # es3) e' page'"
    if "?r = es3 @ e' # es4" for es3 e' es4 page'
    using that t by (auto simp: Cons_eq_append_conv counts_def writer_def)
  ultimately have "last_copy (-1) demo_events 0x7000"
    unfolding last_copy_def demo_events_def
    by (intro exI [of _ "[?w, ?c]"] exI [of _ "CopyFromUser 42 0x7000 512"] exI [of _ ?r]) auto
  then show ?thesis using shown_page_is_last_copy [OF l(1), of text_txt id demo_events] l(2) t by auto
qed

end
