(* ===== verification/Stack_Encrypt.thy ===== *)
theory Stack_Encrypt
  imports Params
begin

text \<open>
  The encryption of a stack frame with a key, \<open>kernel_probe/stack_encrypt.c\<close>: the parameters
  are copied into a buffer, the frame is combined with the key word by word, and the parameters
  are put back. Decrypting is the same work once more. The buffer lies in a block of the
  kernel's heap, and every access to it is checked against the live blocks.
\<close>

section \<open>Operations\<close>

text \<open>
  The bound of the three loops over the parameters: their counter is an \<open>unsigned long\<close>, so
  the \<open>int\<close> it is compared with is converted.
\<close>
definition loop_bound :: "para_list_t \<Rightarrow> nat" where
  "loop_bound plt = unat (word_of_int (pl_size plt) :: u64)"

fun para_total :: "nat \<Rightarrow> para_t list \<Rightarrow> u64 \<Rightarrow> u64 res" where
  "para_total 0 ps total_para_size = Inr total_para_size"
| "para_total (Suc n) [] total_para_size = Inl OutOfBounds"
| "para_total (Suc n) (t # ps) total_para_size = para_total n ps (total_para_size + p_size t)"

text \<open>An access to \<open>n\<close> bytes of the buffer.\<close>
definition buf_access :: "addr \<Rightarrow> u64 \<Rightarrow> 'a machine_scheme \<Rightarrow> unit res" where
  "buf_access p n s =
     (if n = 0 then Inr () else if p = 0 then Inl NullDeref
      else if accessible s p (unat n) then Inr () else Inl OutOfBounds)"

fun save_params :: "nat \<Rightarrow> para_t list \<Rightarrow> addr \<Rightarrow> u64 \<Rightarrow> 'a machine_scheme \<Rightarrow> 'a machine_scheme res" where
  "save_params 0 ps buf offset s = Inr s"
| "save_params (Suc n) [] buf offset s = Inl OutOfBounds"
| "save_params (Suc n) (t # ps) buf offset s =
     bind_res (buf_access (buf + offset) (p_size t) s) (\<lambda>_.
     bind_res (memcpy (buf + offset) (p_addr t) (p_size t) (mem s)) (\<lambda>m.
     save_params n ps buf (offset + p_size t) (s\<lparr>mem := m\<rparr>)))"

fun put_back_params :: "nat \<Rightarrow> para_t list \<Rightarrow> addr \<Rightarrow> u64 \<Rightarrow> 'a machine_scheme \<Rightarrow> 'a machine_scheme res" where
  "put_back_params 0 ps buf offset s = Inr s"
| "put_back_params (Suc n) [] buf offset s = Inl OutOfBounds"
| "put_back_params (Suc n) (t # ps) buf offset s =
     bind_res (buf_access (buf + offset) (p_size t) s) (\<lambda>_.
     bind_res (memcpy (p_addr t) (buf + offset) (p_size t) (mem s)) (\<lambda>m.
     put_back_params n ps buf (offset + p_size t) (s\<lparr>mem := m\<rparr>)))"

lemma load_ulong_no_wrap: "load_ulong a m = Inr v \<Longrightarrow> unat a + 8 < 2 ^ 64"
  by (auto simp: load_ulong_def no_wrap_def split: if_splits)

text \<open>The loop over the words from \<open>p\<close> to \<open>user_rbp\<close>; it gives the last \<open>p\<close>.\<close>
function xor_loop :: "u64 \<Rightarrow> u64 \<Rightarrow> addr \<Rightarrow> memory \<Rightarrow> (addr \<times> memory) res" where
  "xor_loop key user_rbp p m =
     (if p \<le> user_rbp
      then bind_res (load_ulong p m) (\<lambda>v.
           bind_res (store_ulong p (v XOR key) m) (\<lambda>m'. xor_loop key user_rbp (p + 8) m'))
      else Inr (p, m))"
  by pat_completeness auto
termination
proof (relation "measure (\<lambda>(key, rbp, p, m). 2 ^ 64 - unat p)", goal_cases)
  case (2 key rbp p m v m')
  then have "unat p + 8 < 2 ^ 64" by (auto dest: load_ulong_no_wrap)
  then show ?case by (simp add: unat_word_ariths)
qed simp

declare xor_loop.simps [simp del]

text \<open>The loop over the bytes that are left, \<open>n\<close> of them, from the \<open>j\<close>-th on.\<close>
fun xor_tail :: "u64 \<Rightarrow> addr \<Rightarrow> nat \<Rightarrow> u64 \<Rightarrow> memory \<Rightarrow> memory" where
  "xor_tail key p 0 j m = m"
| "xor_tail key p (Suc n) j m =
     xor_tail key p n (j + 1) (m(p + j := m (p + j) XOR ucast (key AND 0xff)))"

definition xor_frame :: "u64 \<Rightarrow> u64 \<Rightarrow> u64 \<Rightarrow> memory \<Rightarrow> memory res" where
  "xor_frame user_rsp user_rbp key m =
     bind_res (xor_loop key user_rbp user_rsp m) (\<lambda>(p, m1).
     Inr (if p < user_rbp then xor_tail key p (unat (user_rbp - p)) 0 m1 else m1))"

definition encrypt_stack ::
  "alloc \<Rightarrow> u64 \<Rightarrow> u64 \<Rightarrow> para_list_t \<Rightarrow> u64 \<Rightarrow> 'a machine_scheme \<Rightarrow> (int \<times> 'a machine_scheme) res" where
  "encrypt_stack al user_rsp user_rbp plt key s =
     bind_res (para_total (loop_bound plt) (pl_list plt) 0) (\<lambda>total_para_size.
     let (buf, s1) = kmalloc al total_para_size s
     in bind_res (save_params (loop_bound plt) (pl_list plt) buf 0 s1) (\<lambda>s2.
        bind_res (xor_frame user_rsp user_rbp key (mem s2)) (\<lambda>m.
        bind_res (put_back_params (loop_bound plt) (pl_list plt) buf 0 (s2\<lparr>mem := m\<rparr>)) (\<lambda>s3.
        bind_res (kfree buf s3) (\<lambda>s4. Inr (0, s4))))))"

definition decrypt_stack ::
  "alloc \<Rightarrow> u64 \<Rightarrow> u64 \<Rightarrow> para_list_t \<Rightarrow> u64 \<Rightarrow> 'a machine_scheme \<Rightarrow> (int \<times> 'a machine_scheme) res" where
  "decrypt_stack al user_rsp user_rbp plt key s =
     bind_res (para_total (loop_bound plt) (pl_list plt) 0) (\<lambda>total_para_size.
     let (buf, s1) = kmalloc al total_para_size s
     in bind_res (save_params (loop_bound plt) (pl_list plt) buf 0 s1) (\<lambda>s2.
        bind_res (xor_frame user_rsp user_rbp key (mem s2)) (\<lambda>m.
        bind_res (put_back_params (loop_bound plt) (pl_list plt) buf 0 (s2\<lparr>mem := m\<rparr>)) (\<lambda>s3.
        bind_res (kfree buf s3) (\<lambda>s4. Inr (0, s4))))))"

section \<open>The frame as bytes\<close>

text \<open>The byte of the key that an address of the frame meets.\<close>
definition key_byte :: "u64 \<Rightarrow> u64 \<Rightarrow> addr \<Rightarrow> u8" where
  "key_byte key rsp x = ucast (drop_bit (8 * (unat (x - rsp) mod 8)) key)"

text \<open>The bytes the loop covers: whole words, the last of which begins at or below \<open>rbp\<close>.\<close>
definition words :: "u64 \<Rightarrow> u64 \<Rightarrow> nat" where
  "words rsp rbp = (if rsp \<le> rbp then Suc ((unat rbp - unat rsp) div 8) else 0)"

definition covered :: "u64 \<Rightarrow> u64 \<Rightarrow> addr \<Rightarrow> bool" where
  "covered rsp rbp x \<longleftrightarrow> unat rsp \<le> unat x \<and> unat x < unat rsp + 8 * words rsp rbp"

definition xor_bytes :: "u64 \<Rightarrow> u64 \<Rightarrow> u64 \<Rightarrow> memory \<Rightarrow> memory" where
  "xor_bytes key rsp rbp m = (\<lambda>x. if covered rsp rbp x then m x XOR key_byte key rsp x else m x)"

text \<open>A byte that belongs to a parameter.\<close>
definition in_params :: "para_t list \<Rightarrow> addr \<Rightarrow> bool" where
  "in_params ps x \<longleftrightarrow> (\<exists>t \<in> set ps. in_region (p_addr t) (p_size t) x)"

text \<open>What the code expects of its arguments.\<close>
definition para_ok :: "para_t \<Rightarrow> bool" where
  "para_ok t \<longleftrightarrow> p_addr t \<noteq> 0 \<and> user_region (p_addr t) (p_size t)"

definition plt_ok :: "para_list_t \<Rightarrow> bool" where
  "plt_ok plt \<longleftrightarrow>
     pl_size plt = int (length (pl_list plt)) \<and> length (pl_list plt) < 2 ^ 31 \<and>
     (\<forall>t \<in> set (pl_list plt). para_ok t) \<and>
     sum_list (map (\<lambda>t. unat (p_size t)) (pl_list plt)) < 2 ^ 64"

definition stack_ok :: "u64 \<Rightarrow> u64 \<Rightarrow> bool" where
  "stack_ok rsp rbp \<longleftrightarrow> rsp \<noteq> 0 \<and> unat rbp + 8 \<le> unat user_top"

section \<open>The loop\<close>

lemma store_xor:
  assumes "in_region a 8 x"
  shows "store64 m a (load64 m a XOR key) x = m x XOR ucast (drop_bit (8 * unat (x - a)) key)"
proof -
  have "unat (x - a) < 8" using assms by (simp add: in_region_def word_less_nat_alt)
  then have "ucast (drop_bit (8 * unat (x - a)) (load64 m a)) = m x" by (simp add: load64_byte)
  then show ?thesis using assms by (simp add: store64_def drop_bit_xor unsigned_xor_eq)
qed

lemma words_step:
  assumes "p \<le> rbp" and "unat rbp + 8 < 2 ^ 64"
  shows "unat (p + 8) = unat p + 8" and "words p rbp = Suc (words (p + 8) rbp)"
proof -
  have le: "unat p \<le> unat rbp" using assms(1) by (simp add: word_le_nat_alt)
  then show u: "unat (p + 8) = unat p + 8" using assms(2) by (simp add: unat_word_ariths)
  show "words p rbp = Suc (words (p + 8) rbp)"
  proof (cases "p + 8 \<le> rbp")
    case True
    then have "unat p + 8 \<le> unat rbp" using u by (simp add: word_le_nat_alt)
    then have "(unat rbp - unat p) div 8 = Suc ((unat rbp - (unat p + 8)) div 8)"
      by (simp add: le_div_geq)
    then show ?thesis using True assms(1) u by (simp add: words_def)
  next
    case False
    then have "unat rbp - unat p < 8" using u by (simp add: word_le_nat_alt)
    then show ?thesis using False assms(1) by (simp add: words_def)
  qed
qed

lemma key_byte_step:
  assumes "unat (p + 8) = unat p + 8" and "unat p + 8 \<le> unat x"
  shows "key_byte key (p + 8) x = key_byte key p x"
proof -
  have "unat (x - (p + 8)) = unat x - (unat p + 8)" "unat (x - p) = unat x - unat p"
    using assms by (simp_all add: unat_sub word_le_nat_alt)
  then have "unat (x - p) = 8 + unat (x - (p + 8))" using assms(2) by simp
  then show ?thesis by (simp only: key_byte_def) simp
qed

text \<open>The loop over words is a loop over bytes with the key repeated, and it ends.\<close>
lemma xor_loop_eq:
  assumes "p \<noteq> 0" and "unat rbp + 8 < 2 ^ 64"
  shows "\<exists>p'. xor_loop key rbp p m = Inr (p', xor_bytes key p rbp m) \<and> rbp < p'"
  using assms
proof (induction key rbp p m rule: xor_loop.induct)
  case (1 key rbp p m)
  show ?case
  proof (cases "p \<le> rbp")
    case True
    note w = words_step [OF True 1(3)]
    have nw: "no_wrap p 8" using True 1(3) by (simp add: no_wrap_def word_le_nat_alt)
    have ld: "load_ulong p m = Inr (load64 m p)"
      and st: "store_ulong p v m = Inr (store64 m p v)" for v
      using 1(2) nw by (simp_all add: load_ulong_def store_ulong_def)
    have p8: "p + 8 \<noteq> 0" using w(1) by (metis add_is_0 unat_0 zero_neq_numeral)
    from 1(1) [OF True ld st p8 1(3)] obtain p' where
      IH: "xor_loop key rbp (p + 8) (store64 m p (load64 m p XOR key)) =
        Inr (p', xor_bytes key (p + 8) rbp (store64 m p (load64 m p XOR key)))" "rbp < p'" by blast
    have "xor_bytes key (p + 8) rbp (store64 m p (load64 m p XOR key)) x = xor_bytes key p rbp m x" for x
    proof (cases "in_region p 8 x")
      case in8: True
      then have b: "unat p \<le> unat x" "unat x < unat p + 8" by (simp_all add: in_region_iff [OF nw])
      then have "unat (x - p) < 8" by (simp add: unat_sub word_le_nat_alt)
      moreover have "covered p rbp x" "\<not> covered (p + 8) rbp x" using b w by (simp_all add: covered_def)
      ultimately show ?thesis using store_xor [OF in8] by (simp add: xor_bytes_def key_byte_def)
    next
      case out: False
      then have b: "unat x < unat p \<or> unat p + 8 \<le> unat x" by (auto simp: in_region_iff [OF nw])
      moreover have "store64 m p (load64 m p XOR key) x = m x" using out by (simp add: store64_def)
      ultimately show ?thesis
        using w key_byte_step [OF w(1)] by (auto simp: xor_bytes_def covered_def)
    qed
    then have "xor_bytes key (p + 8) rbp (store64 m p (load64 m p XOR key)) = xor_bytes key p rbp m" by blast
    then show ?thesis using IH True ld st by (subst xor_loop.simps) simp
  next
    case False
    then show ?thesis by (subst xor_loop.simps) (auto simp: xor_bytes_def covered_def words_def fun_eq_iff)
  qed
qed

text \<open>The bytes that are left over are none: the loop has gone beyond \<open>rbp\<close>.\<close>
lemma xor_frame_eq:
  assumes "stack_ok rsp rbp"
  shows "xor_frame rsp rbp key m = Inr (xor_bytes key rsp rbp m)"
proof -
  have "rsp \<noteq> 0" "unat rbp + 8 < 2 ^ 64" using assms by (simp_all add: stack_ok_def user_top_def)
  then show ?thesis using xor_loop_eq [of rsp rbp key m] by (auto simp: xor_frame_def)
qed

section \<open>Saving the parameters and putting them back\<close>

abbreviation sizes :: "para_t list \<Rightarrow> nat" where
  "sizes ps \<equiv> sum_list (map (\<lambda>t. unat (p_size t)) ps)"

text \<open>From \<open>buf + off\<close> on, \<open>m\<close> holds the bytes of the parameters in \<open>m0\<close>, one after the other.\<close>
fun holds :: "para_t list \<Rightarrow> addr \<Rightarrow> u64 \<Rightarrow> memory \<Rightarrow> memory \<Rightarrow> bool" where
  "holds [] buf off m m0 = True"
| "holds (t # ps) buf off m m0 =
     ((\<forall>d < p_size t. m (buf + off + d) = m0 (p_addr t + d)) \<and> holds ps buf (off + p_size t) m m0)"

text \<open>The place of the bytes at an offset into a live block.\<close>
lemma block_offset:
  assumes "heap_ok (live s)" and "(buf, n) \<in> set (live s)" and "unat off + k \<le> unat n"
  shows "unat (buf + off) = unat buf + unat off" and "accessible s (buf + off) k" and "buf + off \<noteq> 0"
    and "kernel_base \<le> buf + off"
proof -
  have b: "kernel_base \<le> buf" "no_wrap buf n" using heap_ok_block [OF assms(1,2)] by auto
  have "off \<le> n" using assms(3) by (simp add: word_le_nat_alt)
  then show u: "unat (buf + off) = unat buf + unat off" by (rule no_wrap_unat_add [OF b(2)])
  show k: "kernel_base \<le> buf + off" using b(1) u by (simp add: word_le_nat_alt)
  then show "buf + off \<noteq> 0" by (rule kernel_nonzero)
  show "accessible s (buf + off) k" using assms(3) u by (intro accessible_in_block [OF assms(1,2)]) auto
qed

lemma para_total_eq: "para_total (length ps) ps acc = Inr (acc + sum_list (map p_size ps))"
  by (induction ps arbitrary: acc) (simp_all add: add.assoc)

lemma unat_sizes: "sizes ps < 2 ^ 64 \<Longrightarrow> unat (sum_list (map p_size ps)) = sizes ps"
proof (induction ps)
  case (Cons t ps)
  then show ?case by (simp add: unat_word_ariths)
qed simp

lemma loop_bound_eq: "plt_ok plt \<Longrightarrow> loop_bound plt = length (pl_list plt)"
proof -
  assume "plt_ok plt"
  then have "pl_size plt = int (length (pl_list plt))" "length (pl_list plt) < 2 ^ 64"
    by (auto simp: plt_ok_def)
  then show ?thesis by (simp add: loop_bound_def unat_of_nat)
qed

lemma holds_user:
  assumes "holds ps buf off m m0" and "kernel_base \<le> buf" and "no_wrap buf n" and "unat off + sizes ps \<le> unat n"
    and "\<And>x. \<not> is_user x \<Longrightarrow> m' x = m x"
  shows "holds ps buf off m' m0"
  using assms
proof (induction ps arbitrary: off)
  case (Cons t ps)
  have off: "unat (off + p_size t) = unat off + unat (p_size t)"
    using Cons.prems(4) unat_u64_less [of n] by (simp add: unat_word_ariths)
  have "m' (buf + off + d) = m (buf + off + d)" if "d < p_size t" for d
  proof -
    have d: "unat d < unat (p_size t)" using that by (simp add: word_less_nat_alt)
    then have u: "unat (off + d) = unat off + unat d"
      using Cons.prems(4) unat_u64_less [of n] by (simp add: unat_word_ariths)
    then have "off + d \<le> n" using d Cons.prems(4) by (simp add: word_le_nat_alt)
    then have "unat (buf + (off + d)) = unat buf + unat (off + d)" by (rule no_wrap_unat_add [OF Cons.prems(3)])
    then have "kernel_base \<le> buf + off + d" using Cons.prems(2) by (simp add: word_le_nat_alt add.assoc)
    then show ?thesis using Cons.prems(5) kernel_not_user by blast
  qed
  then show ?case using Cons.IH [of "off + p_size t"] Cons.prems off by simp
qed simp

lemma holds_orig:
  assumes "holds ps buf off m m0" and "\<forall>t \<in> set ps. para_ok t" and "\<And>x. is_user x \<Longrightarrow> m0 x = m0' x"
  shows "holds ps buf off m m0'"
  using assms
proof (induction ps arbitrary: off)
  case (Cons t ps)
  have "is_user (p_addr t + d)" if "d < p_size t" for d
    using Cons.prems(2) that in_user_region [of "p_addr t" "p_size t" "p_addr t + d"]
    by (simp add: para_ok_def in_region_shift)
  then show ?case using Cons by simp
qed simp

text \<open>Saving: the parameters are in the block afterwards, nothing outside it changed.\<close>
lemma save_params_ok:
  assumes "heap_ok (live s)" and "(buf, n) \<in> set (live s)" and "unat off + sizes ps \<le> unat n"
    and "\<forall>t \<in> set ps. para_ok t"
  obtains m where "save_params (length ps) ps buf off s = Inr (s\<lparr>mem := m\<rparr>)"
    and "holds ps buf off m (mem s)"
    and "\<And>x. unat x < unat buf + unat off \<or> unat buf + unat n \<le> unat x \<Longrightarrow> m x = mem s x"
proof -
  have "\<exists>m. save_params (length ps) ps buf off s = Inr (s\<lparr>mem := m\<rparr>) \<and> holds ps buf off m (mem s) \<and>
    (\<forall>x. unat x < unat buf + unat off \<or> unat buf + unat n \<le> unat x \<longrightarrow> m x = mem s x)"
    using assms
  proof (induction ps arbitrary: off s)
    case (Cons t ps)
    have nt: "unat off + unat (p_size t) \<le> unat n" using Cons.prems(3) by simp
    note b = block_offset [OF Cons.prems(1,2) nt]
    have blk: "kernel_base \<le> buf" "no_wrap buf n" using heap_ok_block [OF Cons.prems(1,2)] by auto
    have off: "unat (off + p_size t) = unat off + unat (p_size t)"
      using nt unat_u64_less [of n] by (simp add: unat_word_ariths)
    have t: "p_addr t \<noteq> 0" "user_region (p_addr t) (p_size t)" using Cons.prems(4) by (auto simp: para_ok_def)
    have nw: "no_wrap (buf + off) (p_size t)" using nt blk(2) b(1) by (simp add: no_wrap_def)
    let ?m = "copy (mem s) (buf + off) (p_addr t) (p_size t)" and ?s = "s\<lparr>mem := copy (mem s) (buf + off) (p_addr t) (p_size t)\<rparr>"
    have cp: "memcpy (buf + off) (p_addr t) (p_size t) (mem s) = Inr ?m"
      using memcpy_ok b(3) t(1) nw user_region_no_wrap [OF t(2)] by blast
    have acc: "buf_access (buf + off) (p_size t) s = Inr ()" using b(2,3) by (simp add: buf_access_def)
    have "unat (off + p_size t) + sizes ps \<le> unat n" using off Cons.prems(3) by simp
    then obtain m where m: "save_params (length ps) ps buf (off + p_size t) ?s = Inr (?s\<lparr>mem := m\<rparr>)"
      "holds ps buf (off + p_size t) m ?m"
      "\<forall>x. unat x < unat buf + unat (off + p_size t) \<or> unat buf + unat n \<le> unat x \<longrightarrow> m x = ?m x"
      using Cons.IH [of ?s "off + p_size t"] Cons.prems(1,2,4) by auto
    have out: "?m x = mem s x" if "\<not> in_region (buf + off) (p_size t) x" for x using that by simp
    have "m (buf + off + d) = mem s (p_addr t + d)" if "d < p_size t" for d
    proof -
      have r: "in_region (buf + off) (p_size t) (buf + off + d)" using that by (simp add: in_region_shift)
      then have "unat (buf + off + d) < unat buf + unat (off + p_size t)" using off b(1) by (simp add: in_region_iff [OF nw])
      then show ?thesis using m(3) r by simp
    qed
    moreover have "?m x = mem s x" if "is_user x" for x
    proof (rule out)
      have "unat x < unat (buf + off)"
        using that b(4) unfolding is_user_def user_top_def kernel_base_def by (simp add: word_less_nat_alt word_le_nat_alt)
      then show "\<not> in_region (buf + off) (p_size t) x" by (simp add: in_region_iff [OF nw])
    qed
    then have "holds ps buf (off + p_size t) m (mem s)" using holds_orig [OF m(2)] Cons.prems(4) by simp
    moreover have "m x = mem s x" if "unat x < unat buf + unat off \<or> unat buf + unat n \<le> unat x" for x
      using that m(3) out off nt b(1) by (auto simp: in_region_iff [OF nw])
    ultimately show ?case using m(1) cp acc by auto
  qed (auto intro!: exI [of _ "mem _"])
  then show ?thesis using that by blast
qed

text \<open>Putting back: exactly the bytes of the parameters get their saved values.\<close>
lemma put_back_params_ok:
  assumes "heap_ok (live s)" and "(buf, n) \<in> set (live s)" and "unat off + sizes ps \<le> unat n"
    and "\<forall>t \<in> set ps. para_ok t" and "holds ps buf off (mem s) m0"
  shows "put_back_params (length ps) ps buf off s =
    Inr (s\<lparr>mem := (\<lambda>x. if in_params ps x then m0 x else mem s x)\<rparr>)"
  using assms
proof (induction ps arbitrary: off s)
  case (Cons t ps)
  have nt: "unat off + unat (p_size t) \<le> unat n" using Cons.prems(3) by simp
  note b = block_offset [OF Cons.prems(1,2) nt]
  have blk: "kernel_base \<le> buf" "no_wrap buf n" using heap_ok_block [OF Cons.prems(1,2)] by auto
  have off: "unat (off + p_size t) = unat off + unat (p_size t)"
    using nt unat_u64_less [of n] by (simp add: unat_word_ariths)
  have t: "p_addr t \<noteq> 0" "user_region (p_addr t) (p_size t)" using Cons.prems(4) by (auto simp: para_ok_def)
  have nw: "no_wrap (buf + off) (p_size t)" using nt blk(2) b(1) by (simp add: no_wrap_def)
  let ?m = "copy (mem s) (p_addr t) (buf + off) (p_size t)"
  let ?s = "s\<lparr>mem := ?m\<rparr>"
  have cp: "memcpy (p_addr t) (buf + off) (p_size t) (mem s) = Inr ?m"
    using memcpy_ok b(3) t(1) nw user_region_no_wrap [OF t(2)] by blast
  have acc: "buf_access (buf + off) (p_size t) s = Inr ()" using b(2,3) by (simp add: buf_access_def)
  have "?m x = mem s x" if "\<not> is_user x" for x using that in_user_region [OF t(2)] copy_out by blast
  then have "holds ps buf (off + p_size t) ?m m0"
    using holds_user [OF _ blk, of ps "off + p_size t" "mem s" m0 ?m] Cons.prems(3,5) off by simp
  then have step: "put_back_params (length ps) ps buf (off + p_size t) ?s =
      Inr (?s\<lparr>mem := (\<lambda>x. if in_params ps x then m0 x else ?m x)\<rparr>)"
    using Cons.IH [of ?s "off + p_size t"] Cons.prems(1-4) off by (simp add: add.assoc cong: if_cong)
  have own: "?m x = m0 x" if "in_region (p_addr t) (p_size t) x" for x
  proof -
    have "x - p_addr t < p_size t" using that by (simp add: in_region_def)
    then have "mem s (buf + off + (x - p_addr t)) = m0 (p_addr t + (x - p_addr t))"
      using Cons.prems(5) by simp
    then show ?thesis using that by simp
  qed
  have "(if in_params ps x then m0 x else ?m x) = (if in_params (t # ps) x then m0 x else mem s x)" for x
    using own by (auto simp: in_params_def)
  then have same: "(\<lambda>x. if in_params ps x then m0 x else ?m x) = (\<lambda>x. if in_params (t # ps) x then m0 x else mem s x)" by blast
  show ?case using step cp acc unfolding same by simp
qed (simp add: in_params_def)

section \<open>Encrypting and decrypting\<close>

text \<open>
  What both functions do: every byte they cover that belongs to no parameter is combined with
  its byte of the key. They fail only when the buffer cannot be allocated.
\<close>
definition xor_stack :: "u64 \<Rightarrow> u64 \<Rightarrow> para_list_t \<Rightarrow> u64 \<Rightarrow> memory \<Rightarrow> memory" where
  "xor_stack rsp rbp plt key m =
     (\<lambda>x. if covered rsp rbp x \<and> \<not> in_params (pl_list plt) x then m x XOR key_byte key rsp x else m x)"

lemma decrypt_is_encrypt: "decrypt_stack = encrypt_stack"
  by (intro ext) (simp add: decrypt_stack_def encrypt_stack_def)

lemma covered_user: "stack_ok rsp rbp \<Longrightarrow> covered rsp rbp x \<Longrightarrow> is_user x"
proof -
  assume s: "stack_ok rsp rbp" and c: "covered rsp rbp x"
  then have le: "rsp \<le> rbp" by (auto simp: covered_def words_def split: if_splits)
  define q where "q = (unat rbp - unat rsp) div 8"
  have "8 * q \<le> unat rbp - unat rsp" by (simp add: q_def)
  moreover have "unat x < unat rsp + (8 + 8 * q)" using c le by (simp add: covered_def words_def q_def)
  ultimately have "unat x < unat rbp + 8" using le unfolding word_le_nat_alt by linarith
  then show "is_user x" using s by (simp add: stack_ok_def is_user_def word_less_nat_alt)
qed

lemma params_user: "plt_ok plt \<Longrightarrow> in_params (pl_list plt) x \<Longrightarrow> is_user x"
  using in_user_region by (auto simp: plt_ok_def para_ok_def in_params_def)

lemma no_sizes: "sum_list (map p_size ps) = 0 \<Longrightarrow> sizes ps < 2 ^ 64 \<Longrightarrow> t \<in> set ps \<Longrightarrow> p_size t = 0"
  using unat_sizes [of ps] by (auto simp: unat_eq_0)

text \<open>Without any byte to save the buffer is not touched.\<close>
lemma params_empty:
  assumes "\<forall>t \<in> set ps. p_size t = 0"
  shows "save_params (length ps) ps buf off s = Inr s" and "put_back_params (length ps) ps buf off s = Inr s"
    and "\<not> in_params ps x"
  using assms by (induction ps arbitrary: off) (simp_all add: buf_access_def memcpy_def in_params_def)

lemma save_params_null:
  assumes "sum_list (map p_size ps) \<noteq> 0"
  shows "save_params (length ps) ps 0 0 s = Inl NullDeref"
  using assms by (induction ps) (auto simp: buf_access_def memcpy_def)

lemma encrypt_unfold:
  assumes "plt_ok plt" and "stack_ok rsp rbp" and "kmalloc al (sum_list (map p_size (pl_list plt))) s = (buf, s1)"
  shows "encrypt_stack al rsp rbp plt key s =
    bind_res (save_params (length (pl_list plt)) (pl_list plt) buf 0 s1) (\<lambda>s2.
    bind_res (put_back_params (length (pl_list plt)) (pl_list plt) buf 0
      (s2\<lparr>mem := xor_bytes key rsp rbp (mem s2)\<rparr>)) (\<lambda>s3.
    bind_res (kfree buf s3) (\<lambda>s4. Inr (0, s4))))"
  using assms(3)
  by (simp add: encrypt_stack_def loop_bound_eq [OF assms(1)] para_total_eq xor_frame_eq [OF assms(2)])

text \<open>The result of a successful call.\<close>
definition xored :: "u64 \<Rightarrow> u64 \<Rightarrow> para_list_t \<Rightarrow> u64 \<Rightarrow> 'a machine_scheme \<Rightarrow> 'a machine_scheme \<Rightarrow> bool" where
  "xored rsp rbp plt key s s' \<longleftrightarrow> live s' = live s \<and>
     (\<forall>x. is_user x \<longrightarrow> mem s' x = xor_stack rsp rbp plt key (mem s) x) \<and>
     (\<forall>b \<in> set (live s). \<forall>x. in_region (fst b) (snd b) x \<longrightarrow> mem s' x = mem s x)"

lemma encrypt_no_buffer:
  assumes "heap_ok (live s)" and "plt_ok plt" and "stack_ok rsp rbp"
    and "sum_list (map p_size (pl_list plt)) = 0"
  shows "\<exists>s'. encrypt_stack al rsp rbp plt key s = Inr (0, s') \<and> xored rsp rbp plt key s s'"
proof -
  let ?ps = "pl_list plt" and ?s' = "s\<lparr>mem := xor_bytes key rsp rbp (mem s)\<rparr>"
  have "sizes ?ps < 2 ^ 64" using assms(2) by (simp add: plt_ok_def)
  then have z: "\<forall>t \<in> set ?ps. p_size t = 0" using no_sizes [OF assms(4)] by blast
  have k: "kmalloc al (sum_list (map p_size ?ps)) s = (ZERO_SIZE_PTR, s)"
    using assms(4) by (simp add: kmalloc_def)
  have "encrypt_stack al rsp rbp plt key s = Inr (0, ?s')"
    by (simp add: encrypt_unfold [OF assms(2,3) k] params_empty [OF z] kfree_def)
  moreover have "xor_bytes key rsp rbp (mem s) x = mem s x"
    if "b \<in> set (live s)" "in_region (fst b) (snd b) x" for b x
    using block_not_user [OF assms(1) that] covered_user [OF assms(3)] by (auto simp: xor_bytes_def)
  ultimately show ?thesis
    using params_empty(3) [OF z] by (auto simp: xored_def xor_stack_def xor_bytes_def)
qed

text \<open>Saving, combining and putting back, with a buffer of the right size.\<close>
lemma encrypt_in_buffer:
  assumes "plt_ok plt" and "stack_ok rsp rbp" and "heap_ok ((buf, n) # live s)"
    and "live s1 = (buf, n) # live s" and "mem s1 = mem s" and "n = sum_list (map p_size (pl_list plt))"
  obtains m where "save_params (length (pl_list plt)) (pl_list plt) buf 0 s1 = Inr (s1\<lparr>mem := m\<rparr>)"
    and "put_back_params (length (pl_list plt)) (pl_list plt) buf 0 (s1\<lparr>mem := xor_bytes key rsp rbp m\<rparr>) =
      Inr (s1\<lparr>mem := (\<lambda>x. if in_params (pl_list plt) x then mem s x else xor_bytes key rsp rbp m x)\<rparr>)"
    and "\<And>x. \<not> in_region buf n x \<Longrightarrow> m x = mem s x"
proof -
  let ?ps = "pl_list plt"
  have sz: "sizes ?ps < 2 ^ 64" and po: "\<forall>t \<in> set ?ps. para_ok t" using assms(1) by (auto simp: plt_ok_def)
  have h1: "heap_ok (live s1)" "(buf, n) \<in> set (live s1)" using assms(3,4) by auto
  have blk: "kernel_base \<le> buf" "no_wrap buf n" using heap_ok_block [OF h1] by auto
  have fit: "unat (0 :: u64) + sizes ?ps \<le> unat n" using unat_sizes [OF sz] assms(6) by simp
  obtain m where m: "save_params (length ?ps) ?ps buf 0 s1 = Inr (s1\<lparr>mem := m\<rparr>)" "holds ?ps buf 0 m (mem s1)"
    "\<And>x. unat x < unat buf + unat (0 :: u64) \<or> unat buf + unat n \<le> unat x \<Longrightarrow> m x = mem s1 x"
    using save_params_ok [OF h1 fit po] by blast
  let ?m2 = "xor_bytes key rsp rbp m"
  have "?m2 x = m x" if "\<not> is_user x" for x
    using that covered_user [OF assms(2)] by (auto simp: xor_bytes_def)
  then have "holds ?ps buf 0 ?m2 (mem s)" using holds_user [OF m(2) blk fit] assms(5) by simp
  then have "put_back_params (length ?ps) ?ps buf 0 (s1\<lparr>mem := ?m2\<rparr>) =
      Inr (s1\<lparr>mem := (\<lambda>x. if in_params ?ps x then mem s x else ?m2 x)\<rparr>)"
    using put_back_params_ok [of "s1\<lparr>mem := ?m2\<rparr>" buf n 0 ?ps "mem s"] h1 fit po by (simp cong: if_cong)
  moreover have "m x = mem s x" if "\<not> in_region buf n x" for x
    using that m(3) assms(5) by (auto simp: in_region_iff [OF blk(2)])
  ultimately show ?thesis using that m(1) by blast
qed

lemma encrypt_with_buffer:
  assumes "alloc_ok al" and "heap_ok (live s)" and "plt_ok plt" and "stack_ok rsp rbp"
    and "kmalloc al (sum_list (map p_size (pl_list plt))) s = (buf, s1)"
    and "sum_list (map p_size (pl_list plt)) \<noteq> 0" and "buf \<noteq> 0"
  shows "\<exists>s'. encrypt_stack al rsp rbp plt key s = Inr (0, s') \<and> xored rsp rbp plt key s s'"
proof -
  let ?ps = "pl_list plt"
  let ?n = "sum_list (map p_size ?ps)"
  have f: "heap_ok ((buf, ?n) # live s)" "live s1 = (buf, ?n) # live s"
    using kmalloc_fresh [OF assms(5,1,2,6,7)] by auto
  then have blk: "kernel_base \<le> buf" "no_wrap buf ?n" by (auto simp: heap_ok_Cons)
  from encrypt_in_buffer [OF assms(3,4) f kmalloc_mem [OF assms(5)] refl] obtain m where
    m: "save_params (length ?ps) ?ps buf 0 s1 = Inr (s1\<lparr>mem := m\<rparr>)"
      "put_back_params (length ?ps) ?ps buf 0 (s1\<lparr>mem := xor_bytes key rsp rbp m\<rparr>) =
        Inr (s1\<lparr>mem := (\<lambda>x. if in_params ?ps x then mem s x else xor_bytes key rsp rbp m x)\<rparr>)"
    and out: "\<And>x. \<not> in_region buf ?n x \<Longrightarrow> m x = mem s x" by blast
  let ?m = "\<lambda>x. if in_params ?ps x then mem s x else xor_bytes key rsp rbp m x"
  have "filter (\<lambda>b. fst b \<noteq> buf) (live s) = live s"
    using heap_ok_fresh [OF f(1)] by (intro filter_True) (auto simp: image_iff)
  moreover have "buf \<noteq> ZERO_SIZE_PTR" by (rule kernel_not_ZERO_SIZE_PTR [OF blk(1)])
  ultimately have "encrypt_stack al rsp rbp plt key s = Inr (0, s1\<lparr>mem := ?m, live := live s\<rparr>)"
    using m assms(7) f(2) by (simp add: encrypt_unfold [OF assms(3-5)] kfree_def)
  moreover have "?m x = xor_stack rsp rbp plt key (mem s) x" if "is_user x" for x
  proof -
    have "\<not> in_region buf ?n x"
      using that blk kernel_not_user by (auto simp: in_region_iff word_le_nat_alt)
    then show ?thesis using out by (simp add: xor_stack_def xor_bytes_def)
  qed
  moreover have "?m x = mem s x" if "b \<in> set (live s)" "in_region (fst b) (snd b) x" for b x
  proof -
    have "\<not> is_user x" by (rule block_not_user [OF assms(2) that])
    then have "\<not> covered rsp rbp x" using covered_user [OF assms(4)] by blast
    moreover have "\<not> in_region buf ?n x" by (rule fresh_not_in_block [OF f(1) that])
    ultimately show ?thesis using out by (simp add: xor_bytes_def)
  qed
  ultimately show ?thesis by (auto simp: xored_def)
qed

lemma encrypt_stack_cases:
  assumes "alloc_ok al" and "heap_ok (live s)" and "plt_ok plt" and "stack_ok rsp rbp"
  obtains (null) "encrypt_stack al rsp rbp plt key s = Inl NullDeref"
      and "\<not> allocs_ok al [sum_list (map p_size (pl_list plt))] s"
    | (ok) s' where "encrypt_stack al rsp rbp plt key s = Inr (0, s')" and "xored rsp rbp plt key s s'"
proof -
  let ?n = "sum_list (map p_size (pl_list plt))"
  obtain buf s1 where k: "kmalloc al ?n s = (buf, s1)" by fastforce
  consider "?n = 0" | "?n \<noteq> 0" "buf = 0" | "?n \<noteq> 0" "buf \<noteq> 0" by blast
  then show ?thesis
  proof cases
    case 1
    then show ?thesis using encrypt_no_buffer [OF assms(2-4)] ok by blast
  next
    case 2
    then have "encrypt_stack al rsp rbp plt key s = Inl NullDeref"
      by (simp add: encrypt_unfold [OF assms(3,4) k] save_params_null)
    then show ?thesis using null k 2 by simp
  next
    case 3
    then show ?thesis using encrypt_with_buffer [OF assms k] ok by blast
  qed
qed

section \<open>Properties\<close>

text \<open>
  C24. Encrypting a stack with a key combines every byte from the stack pointer to the end of
  the word at the frame pointer with its byte of the key, except the bytes of the parameters;
  no other byte of the user program and no byte of a live block of the kernel changes, and the
  buffer is freed. The only failure is the NULL of the buffer, which is written to unchecked.
\<close>
theorem encrypt_stack_spec:
  assumes "alloc_ok al" and "heap_ok (live s)" and "plt_ok plt" and "stack_ok rsp rbp"
  shows "(encrypt_stack al rsp rbp plt key s = Inl NullDeref \<and>
     \<not> allocs_ok al [sum_list (map p_size (pl_list plt))] s) \<or>
    (\<exists>s'. encrypt_stack al rsp rbp plt key s = Inr (0, s') \<and> live s' = live s \<and>
      (\<forall>x. is_user x \<longrightarrow> mem s' x = (if covered rsp rbp x \<and> \<not> in_params (pl_list plt) x
         then mem s x XOR key_byte key rsp x else mem s x)) \<and>
      (\<forall>b \<in> set (live s). \<forall>x. in_region (fst b) (snd b) x \<longrightarrow> mem s' x = mem s x))"
  using assms
  by (cases rule: encrypt_stack_cases [where key = key]) (auto simp: xored_def xor_stack_def)

text \<open>
  C6. Encrypting and decrypting with the same key is a round trip: whatever happens in between
  to the parameters and outside the bytes that were encrypted, decrypting gives every encrypted
  byte its old value and keeps the others, in particular what the callee wrote to its parameters.
\<close>
theorem xor_round_trip:
  assumes "alloc_ok al" and "heap_ok (live s)" and "plt_ok plt" and "stack_ok rsp rbp"
    and "encrypt_stack al rsp rbp plt key s = Inr (0, s1)"
    and "live s2 = live s1"
    and "\<forall>x. covered rsp rbp x \<and> \<not> in_params (pl_list plt) x \<longrightarrow> mem s2 x = mem s1 x"
    and "decrypt_stack al rsp rbp plt key s2 = Inr (0, s3)"
  shows "\<forall>x. is_user x \<longrightarrow>
    mem s3 x = (if covered rsp rbp x \<and> \<not> in_params (pl_list plt) x then mem s x else mem s2 x)"
proof -
  from assms(1-4) have 1: "xored rsp rbp plt key s s1"
    by (cases rule: encrypt_stack_cases [where key = key]) (use assms(5) in auto)
  then have "heap_ok (live s2)" using assms(2,6) by (simp add: xored_def)
  with assms(1) have "xored rsp rbp plt key s2 s3" using assms(3,4)
    by (cases rule: encrypt_stack_cases [where key = key])
      (use assms(8) in \<open>auto simp: decrypt_is_encrypt\<close>)
  then show ?thesis using 1 assms(7) by (auto simp: xored_def xor_stack_def xor.assoc)
qed

text \<open>
  C33. The frame ends at the frame pointer, the encryption does not: as the loop runs while the
  word begins at or below the frame pointer, the byte at the frame pointer itself, where the
  caller's frame pointer is saved, is always combined with the key, together with up to seven
  bytes above it, and nothing beyond; the code for the rest of an incomplete word never runs.
\<close>
theorem encrypt_past_frame:
  assumes "stack_ok rsp rbp" and "rsp \<le> rbp"
  shows "\<exists>m'. xor_frame rsp rbp key m = Inr m' \<and> m' rbp = m rbp XOR key_byte key rsp rbp \<and>
    (\<forall>x. unat rbp < unat x \<longrightarrow> m' x = (if unat x < unat rbp + 8 - (unat rbp - unat rsp) mod 8
       then m x XOR key_byte key rsp x else m x))"
proof -
  define d where "d = unat rbp - unat rsp"
  have rbp: "unat rbp = unat rsp + d" using assms(2) by (simp add: d_def word_le_nat_alt)
  have "8 * (d div 8) + d mod 8 = d" by simp
  then have w: "8 * words rsp rbp + d mod 8 = 8 + d" using assms(2) by (simp add: words_def d_def)
  have r: "d mod 8 < 8" by simp
  have "covered rsp rbp rbp" using w r unfolding covered_def rbp by linarith
  moreover have "covered rsp rbp x \<longleftrightarrow> unat x < unat rbp + 8 - d mod 8" if "unat rbp < unat x" for x
    using w r that unfolding covered_def rbp by linarith
  ultimately show ?thesis by (simp add: xor_frame_eq [OF assms(1)] xor_bytes_def d_def)
qed

section \<open>Witnesses\<close>

text \<open>A frame of two words and a bit, with a parameter of four bytes in the second word.\<close>

definition xor_plt :: para_list_t where
  "xor_plt = \<lparr>pl_size = 1, pl_list = [\<lparr>p_addr = 0x1008, p_size = 4, p_pointer = 0\<rparr>]\<rparr>"

lemma xor_demo_ok: "plt_ok xor_plt" "stack_ok 0x1000 0x1013" "heap_ok (live boot)" "allocs_ok bump [4] boot"
  by (simp_all add: plt_ok_def xor_plt_def para_ok_def user_region_def user_top_def stack_ok_def boot_def
      kmalloc_def bump_def heap_top_def kernel_base_def Let_def)

lemma xor_demo_bytes:
  "covered 0x1000 0x1013 0x1000" "covered 0x1000 0x1013 0x1009" "covered 0x1000 0x1013 0x1017"
  "\<not> in_params (pl_list xor_plt) 0x1000" "in_params (pl_list xor_plt) 0x1009" "\<not> in_params (pl_list xor_plt) 0x1017"
  "key_byte 0x0102030405060708 0x1000 0x1000 = 8" "key_byte 0x0102030405060708 0x1000 0x1017 = 1"
  by (simp_all add: covered_def words_def in_params_def xor_plt_def in_region_def key_byte_def)

theorem encrypt_stack_spec_witness:
  "\<exists>s'. encrypt_stack bump 0x1000 0x1013 xor_plt 0x0102030405060708 boot = Inr (0, s') \<and>
     mem s' 0x1000 = 8 \<and> mem s' 0x1009 = 0 \<and> mem s' 0x1017 = 1"
proof -
  have u: "is_user 0x1000" "is_user 0x1009" "is_user 0x1017" by (simp_all add: is_user_def user_top_def)
  have "sum_list (map p_size (pl_list xor_plt)) = 4" by (simp add: xor_plt_def)
  then obtain s' where s': "encrypt_stack bump 0x1000 0x1013 xor_plt 0x0102030405060708 boot = Inr (0, s')"
    "\<forall>x. is_user x \<longrightarrow> mem s' x = (if covered 0x1000 0x1013 x \<and> \<not> in_params (pl_list xor_plt) x
       then mem boot x XOR key_byte 0x0102030405060708 0x1000 x else mem boot x)"
    using encrypt_stack_spec [OF alloc_ok_bump xor_demo_ok(3,1,2), of "0x0102030405060708"] xor_demo_ok(4) by auto
  then show ?thesis using u xor_demo_bytes by (simp add: boot_def)
qed

theorem xor_round_trip_witness:
  "\<exists>s1 s3. encrypt_stack bump 0x1000 0x1013 xor_plt 0x0102030405060708 boot = Inr (0, s1) \<and>
     decrypt_stack bump 0x1000 0x1013 xor_plt 0x0102030405060708 (s1\<lparr>mem := (mem s1)(0x1009 := 5)\<rparr>) = Inr (0, s3) \<and>
     mem s3 0x1000 = 0 \<and> mem s3 0x1009 = 5"
proof -
  let ?k = "0x0102030405060708 :: u64"
  have n: "sum_list (map p_size (pl_list xor_plt)) = 4" by (simp add: xor_plt_def)
  obtain s1 where s1: "encrypt_stack bump 0x1000 0x1013 xor_plt ?k boot = Inr (0, s1)" "live s1 = live boot"
    using encrypt_stack_cases [OF alloc_ok_bump xor_demo_ok(3,1,2), of ?k] xor_demo_ok(4) unfolding n xored_def by metis
  let ?s2 = "s1\<lparr>mem := (mem s1)(0x1009 := 5)\<rparr>"
  have l2: "live ?s2 = live boot" using s1(2) by simp
  then have a2: "allocs_ok bump [4] ?s2" and h2: "heap_ok (live ?s2)"
    using xor_demo_ok(3) by (simp_all add: boot_def kmalloc_def bump_def heap_top_def kernel_base_def Let_def)
  obtain s3 where s3: "decrypt_stack bump 0x1000 0x1013 xor_plt ?k ?s2 = Inr (0, s3)"
    using encrypt_stack_cases [OF alloc_ok_bump h2 xor_demo_ok(1,2), of ?k] a2 unfolding n decrypt_is_encrypt by metis
  have keep: "\<forall>x. covered 0x1000 0x1013 x \<and> \<not> in_params (pl_list xor_plt) x \<longrightarrow> mem ?s2 x = mem s1 x"
    using xor_demo_bytes(5) by auto
  have "live ?s2 = live s1" by simp
  note rt = xor_round_trip [OF alloc_ok_bump xor_demo_ok(3,1,2) s1(1) this keep s3]
  have "is_user 0x1000" "is_user 0x1009" by (simp_all add: is_user_def user_top_def)
  then have "mem s3 0x1000 = 0" "mem s3 0x1009 = 5"
    using rt xor_demo_bytes by (simp_all add: boot_def)
  then show ?thesis using s1(1) s3 by blast
qed

theorem encrypt_past_frame_witness:
  "\<exists>m'. xor_frame 0x1000 0x1013 0x0102030405060708 (\<lambda>_. 0) = Inr m' \<and>
     m' 0x1013 = 5 \<and> m' 0x1017 = 1 \<and> m' 0x1018 = 0"
proof -
  have "key_byte 0x0102030405060708 0x1000 0x1013 = 5" by (simp add: key_byte_def)
  moreover have "(0x1000 :: u64) \<le> 0x1013" by simp
  note encrypt_past_frame [OF xor_demo_ok(2) this, of "0x0102030405060708" "\<lambda>_. 0"]
  ultimately show ?thesis using xor_demo_bytes(8) by auto
qed

end
