(* ===== verification/Libc.thy ===== *)
theory Libc
  imports Prelude
begin

text \<open>
  What the programs of \<open>clear_stack/\<close> use of the C library: the heap of a user process
  (\<open>malloc\<close>, \<open>free\<close>), a way to leave the process (\<open>exit\<close>), the decimal conversions of
  \<open>sprintf\<close>, and \<open>atol\<close> and \<open>strtok\<close>. Strings are lists of bytes; \<open>strtok\<close> works on the
  buffer it is given, NULs included. The allocator is a parameter, as in \<open>Machine\<close>.
\<close>

section \<open>Heap and exit\<close>

text \<open>A user program may end before a function returns.\<close>
datatype 'a run = Exit int | Ret 'a

definition bind_run :: "'a run res \<Rightarrow> ('a \<Rightarrow> 'b run res) \<Rightarrow> 'b run res" where
  "bind_run r f = bind_res r (\<lambda>x. case x of Exit c \<Rightarrow> Inr (Exit c) | Ret y \<Rightarrow> f y)"

lemma bind_run_simps [simp, res_simps]:
  "bind_run (Inl e) f = Inl e" "bind_run (Inr (Exit c)) f = Inr (Exit c)" "bind_run (Inr (Ret y)) f = f y"
  by (simp_all add: bind_run_def)

lemma bind_run_cong [fundef_cong]:
  "r = r' \<Longrightarrow> (\<And>y. r' = Inr (Ret y) \<Longrightarrow> f y = f' y) \<Longrightarrow> bind_run r f = bind_run r' f'"
  by (auto simp: bind_run_def bind_res_def split: sum.splits run.splits)

record process =
  ulive :: "addr list"
  umallocs :: nat

type_synonym ualloc = "nat \<Rightarrow> addr list \<Rightarrow> u64 \<Rightarrow> addr"

definition malloc :: "ualloc \<Rightarrow> u64 \<Rightarrow> 'a process_scheme \<Rightarrow> addr \<times> 'a process_scheme" where
  "malloc al n s =
     (let p = al (umallocs s) (ulive s) n; s' = s\<lparr>umallocs := Suc (umallocs s)\<rparr>
      in if p = 0 then (0, s') else (p, s'\<lparr>ulive := p # ulive s\<rparr>))"

definition free :: "addr \<Rightarrow> 'a process_scheme \<Rightarrow> 'a process_scheme res" where
  "free p s =
     (if p = 0 then Inr s
      else if p \<in> set (ulive s) then Inr (s\<lparr>ulive := filter (\<lambda>q. q \<noteq> p) (ulive s)\<rparr>)
      else Inl BadFree)"

text \<open>What the programs rely on: an answer other than NULL is not a live block.\<close>
definition ualloc_ok :: "ualloc \<Rightarrow> bool" where
  "ualloc_ok al \<longleftrightarrow> (\<forall>k l n. al k l n \<noteq> 0 \<longrightarrow> al k l n \<notin> set l)"

text \<open>Allocations of these sizes, one after the other, all succeed.\<close>
fun mallocs_ok :: "ualloc \<Rightarrow> u64 list \<Rightarrow> 'a process_scheme \<Rightarrow> bool" where
  "mallocs_ok al [] s = True"
| "mallocs_ok al (n # ns) s = (let (p, s') = malloc al n s in p \<noteq> 0 \<and> mallocs_ok al ns s')"

text \<open>An allocator that never reuses an address.\<close>
definition ubump :: ualloc where
  "ubump k l n = (let p = 0x10000 * of_nat (Suc k) in if p \<in> set l then 0 else p)"

lemma ualloc_ok_ubump: "ualloc_ok ubump"
  by (simp add: ualloc_ok_def ubump_def Let_def)

lemma malloc_cases:
  assumes "ualloc_ok al"
  obtains (null) s' where "malloc al n s = (0, s')" and "s' = s\<lparr>umallocs := Suc (umallocs s)\<rparr>"
    | (ok) p s' where "malloc al n s = (p, s')" and "p \<noteq> 0" and "p \<notin> set (ulive s)"
      and "s' = s\<lparr>umallocs := Suc (umallocs s), ulive := p # ulive s\<rparr>"
proof (cases "al (umallocs s) (ulive s) n = 0")
  case True
  then show ?thesis using null by (simp add: malloc_def)
next
  case False
  then show ?thesis
    using assms ok [of "al (umallocs s) (ulive s) n"] by (simp add: malloc_def ualloc_ok_def Let_def)
qed

section \<open>Comparing strings\<close>

lemma c_str_Cons [simp]: "c_str [] = True" "c_str (x # xs) \<longleftrightarrow> x \<noteq> 0 \<and> c_str xs"
  by (auto simp: c_str_def)

lemma uint_pos: "(x :: u8) \<noteq> 0 \<Longrightarrow> 0 < uint x"
  by (metis order_less_le uint_0_eq unsigned_greater_eq word_of_int_uint)

lemma strcmp_swap: "strcmp a b = - strcmp b a"
  by (induction a b rule: strcmp.induct) auto

lemma strcmp_eq_0: "c_str a \<Longrightarrow> c_str b \<Longrightarrow> strcmp a b = 0 \<longleftrightarrow> a = b"
  by (induction a b rule: strcmp.induct) (auto dest: uint_pos simp: word_uint_eq_iff)

lemma strcmp_less_trans:
  "strcmp a b < 0 \<Longrightarrow> strcmp b c < 0 \<Longrightarrow> c_str b \<Longrightarrow> c_str c \<Longrightarrow> strcmp a c < 0"
proof (induction a b arbitrary: c rule: strcmp.induct)
  case (2 y ys)
  then show ?case by (cases c) (auto dest: uint_pos)
next
  case (4 x xs y ys)
  then show ?case by (cases c) (auto dest: uint_pos split: if_splits)
qed auto

lemma strcmp_irrefl [simp]: "strcmp a a = 0"
  by (induction a) auto

section \<open>Decimal numbers\<close>

text \<open>What \<open>%d\<close> and \<open>%lld\<close> print.\<close>
fun dec :: "nat \<Rightarrow> cstring" where
  "dec n = (if n < 10 then [48 + of_nat n] else dec (n div 10) @ [48 + of_nat (n mod 10)])"

declare dec.simps [simp del]

definition dec_int :: "int \<Rightarrow> cstring" where
  "dec_int i = (if i < 0 then 0x2d # dec (nat (- i)) else dec (nat i))"

definition is_digit :: "u8 \<Rightarrow> bool" where
  "is_digit c \<longleftrightarrow> 0x30 \<le> c \<and> c \<le> 0x39"

definition isspace :: "u8 \<Rightarrow> bool" where
  "isspace c \<longleftrightarrow> c = 0x20 \<or> 9 \<le> c \<and> c \<le> 13"

fun dec_val :: "cstring \<Rightarrow> nat \<Rightarrow> nat" where
  "dec_val [] acc = acc"
| "dec_val (c # cs) acc = (if is_digit c then dec_val cs (10 * acc + unat (c - 0x30)) else acc)"

text \<open>\<open>atol\<close> is \<open>strtol\<close> to the base ten, which stops at the ends of \<open>long\<close>.\<close>
definition atol :: "cstring \<Rightarrow> int" where
  "atol str =
     (case dropWhile isspace str of
        [] \<Rightarrow> 0
      | c # cs \<Rightarrow>
          if c = 0x2d then max (- (2 ^ 63)) (- int (dec_val cs 0))
          else if c = 0x2b then min (2 ^ 63 - 1) (int (dec_val cs 0))
          else min (2 ^ 63 - 1) (int (dec_val (c # cs) 0)))"

lemma digit_byte:
  assumes "d < 10"
  shows "is_digit (48 + of_nat d)" and "unat (48 + of_nat d - 0x30 :: u8) = d"
proof -
  have "d \<in> {0, 1, 2, 3, 4, 5, 6, 7, 8, 9}" using assms by auto
  then show "is_digit (48 + of_nat d)" "unat (48 + of_nat d - 0x30 :: u8) = d"
    by (auto simp: is_digit_def)
qed

lemma dec_digits: "c \<in> set (dec n) \<Longrightarrow> is_digit c"
  by (induction n rule: dec.induct) (subst (asm) dec.simps, auto simp: digit_byte split: if_splits)

lemma dec_nonempty: "dec n \<noteq> []"
  by (subst dec.simps) simp

lemma dec_val_append: "\<forall>c \<in> set xs. is_digit c \<Longrightarrow> dec_val (xs @ ys) acc = dec_val ys (dec_val xs acc)"
  by (induction xs arbitrary: acc) auto

lemma dec_val_dec: "dec_val (dec n) 0 = n"
proof (induction n rule: dec.induct)
  case (1 n)
  show ?case
  proof (cases "n < 10")
    case True
    then show ?thesis using digit_byte [OF True] by (subst dec.simps) simp
  next
    case False
    have m: "n mod 10 < 10" by simp
    have "dec_val (dec n) 0 = dec_val [48 + of_nat (n mod 10)] (n div 10)"
      using False 1 dec_digits by (subst dec.simps) (simp add: dec_val_append)
    also have "\<dots> = 10 * (n div 10) + n mod 10" using digit_byte [OF m] by simp
    finally show ?thesis by simp
  qed
qed

text \<open>A printed number is read back, whatever follows it that is not a digit.\<close>
lemma atol_dec_int:
  assumes "- (2 ^ 63) \<le> i" and "i < 2 ^ 63" and "case rest of [] \<Rightarrow> True | c # _ \<Rightarrow> \<not> is_digit c"
  shows "atol (dec_int i @ rest) = i"
proof -
  have val: "dec_val (dec n @ rest) 0 = n" for n
    using assms(3) dec_digits by (cases rest) (simp_all add: dec_val_append dec_val_dec)
  have dig: "\<not> isspace c \<and> c \<noteq> 0x2d \<and> c \<noteq> 0x2b" if "is_digit c" for c
    using that by (auto simp: is_digit_def isspace_def word_le_nat_alt)
  obtain c cs where d: "dec (nat i) = c # cs" "is_digit c" using dec_nonempty dec_digits by (metis list.exhaust list.set_intros(1))
  show ?thesis
  proof (cases "i < 0")
    case True
    then show ?thesis using val [of "nat (- i)"] assms(1) by (simp add: dec_int_def atol_def isspace_def)
  next
    case False
    then show ?thesis using val [of "nat i"] assms(2) d dig [OF d(2)] by (simp add: dec_int_def atol_def)
  qed
qed

section \<open>Splitting at spaces\<close>

text \<open>
  \<open>strtok\<close> with the delimiter " ": the buffer, and where the next call goes on. The token is
  \<open>None\<close> for NULL. Nothing keeps the search inside the buffer but a NUL.
\<close>
definition strtok :: "u8 list \<Rightarrow> nat \<Rightarrow> (cstring option \<times> u8 list \<times> nat) res" where
  "strtok buf pos =
     (let i = pos + length (takeWhile (\<lambda>c. c = 0x20) (drop pos buf))
      in if length buf \<le> i then Inl OutOfBounds
      else if buf ! i = 0 then Inr (None, buf, i)
      else let tok = takeWhile (\<lambda>c. c \<noteq> 0x20 \<and> c \<noteq> 0) (drop i buf);
               j = i + length tok
      in if length buf \<le> j then Inl OutOfBounds
      else if buf ! j = 0 then Inr (Some tok, buf, j)
      else Inr (Some tok, buf[j := 0], Suc j))"

definition word_ok :: "cstring \<Rightarrow> bool" where
  "word_ok w \<longleftrightarrow> w \<noteq> [] \<and> 0x20 \<notin> set w \<and> 0 \<notin> set w"

lemma takeWhile_stop: "\<forall>x \<in> set xs. P x \<Longrightarrow> \<not> P y \<Longrightarrow> takeWhile P (xs @ y # ys) = xs"
  by (induction xs) auto

lemma strtok_word:
  assumes "drop pos buf = w @ c # rest" and "word_ok w" and "c = 0x20 \<or> c = 0"
  shows "strtok buf pos = (if c = 0 then Inr (Some w, buf, pos + length w)
    else Inr (Some w, buf[pos + length w := 0], Suc (pos + length w)))"
    and "drop (Suc (pos + length w)) (buf[pos + length w := 0]) = rest"
proof -
  obtain a as where w: "w = a # as" "a \<noteq> 0x20" "a \<noteq> 0" using assms(2) by (cases w) (auto simp: word_ok_def)
  have len: "length buf = pos + length w + Suc (length rest)" using arg_cong [OF assms(1), of length] w(1) by simp
  have first: "takeWhile (\<lambda>c. c = 0x20) (drop pos buf) = []" using w assms(1) by simp
  have "drop pos buf ! 0 = a" "drop pos buf ! length w = c" using assms(1) w by (simp_all add: nth_append)
  then have at: "buf ! pos = a" "buf ! (pos + length w) = c" using len by simp_all
  have tok: "takeWhile (\<lambda>c. c \<noteq> 0x20 \<and> c \<noteq> 0) (drop pos buf) = w"
    unfolding assms(1) by (rule takeWhile_stop) (use assms(2,3) in \<open>auto simp: word_ok_def\<close>)
  show "strtok buf pos = (if c = 0 then Inr (Some w, buf, pos + length w)
    else Inr (Some w, buf[pos + length w := 0], Suc (pos + length w)))"
    using first at tok len w(3) by (simp add: strtok_def Let_def)
  have "drop (Suc (pos + length w)) buf = drop (Suc (length w)) (drop pos buf)" by (simp add: add.commute)
  then show "drop (Suc (pos + length w)) (buf[pos + length w := 0]) = rest"
    unfolding assms(1) by simp
qed

end
