(* ===== verification/Hash_Table.thy ===== *)
theory Hash_Table
  imports Libc
begin

text \<open>
  The hash table of the encryption server, \<open>clear_stack/hash.c\<close>: bins of linked entries that
  are kept sorted by their keys. Entries live in an explicit store and are linked through
  their addresses, as in the code; values are blocks of bytes. The hash function starts from
  a variable that is never written: what it happens to contain is a parameter of every
  operation. A result \<open>None\<close> stands for a walk along a list that does not end.
\<close>

section \<open>Data\<close>

record htEntry =
  he_key :: "addr \<times> cstring"
  he_value :: addr
  he_next :: addr

record hashtable =
  ht_size :: int
  ht_table :: "addr list"

record hst = process +
  entries :: "addr \<Rightarrow> htEntry option"
  blobs :: "addr \<Rightarrow> u8 list option"

definition sizeof_htEntry :: u64 where "sizeof_htEntry = 24"
definition sizeof_hashtable :: u64 where "sizeof_hashtable = 16"

section \<open>Operations\<close>

text \<open>
  The loop of the hash function. A \<open>char\<close> is signed, so that a byte from 128 on is added as a
  negative number.
\<close>
fun hash_loop :: "cstring \<Rightarrow> u64 \<Rightarrow> u64" where
  "hash_loop [] hashval = hashval"
| "hash_loop (c # cs) hashval =
     (if hashval < -1 then hash_loop cs (push_bit 8 hashval + scast c) else hashval)"

text \<open>\<open>g\<close> is the initial content of \<open>hashval\<close>. The remainder is converted to an \<open>int\<close>.\<close>
definition htHash :: "u64 \<Rightarrow> hashtable \<Rightarrow> cstring \<Rightarrow> int res" where
  "htHash g ht k =
     (let n = word_of_int (ht_size ht) :: u64
      in if n = 0 then Inl DivByZero else Inr (sint (ucast (hash_loop k g mod n) :: u32)))"

text \<open>The bytes at \<open>value\<close> are given as a list; reading beyond them is a fault.\<close>
definition htNewpair :: "ualloc \<Rightarrow> cstring \<Rightarrow> u8 list \<Rightarrow> int \<Rightarrow> 'a hst_scheme \<Rightarrow> (addr \<times> 'a hst_scheme) res" where
  "htNewpair al k value sz s =
     (let (newpair, s1) = malloc al sizeof_htEntry s
      in if newpair = 0 then Inr (0, s1)
      else let (kp, s2) = malloc al (of_nat (length k + 1)) s1
      in if kp = 0 then Inr (0, s2)
      else let (vp, s3) = malloc al (word_of_int sz) s2;
               n = unat (word_of_int sz :: u64)
      in if vp = 0 then Inr (0, s3)
      else if length value < n then Inl OutOfBounds
      else Inr (newpair, s3\<lparr>blobs := (blobs s3)(vp \<mapsto> take n value),
                            entries := (entries s3)(newpair \<mapsto> \<lparr>he_key = (kp, k), he_value = vp, he_next = 0\<rparr>)\<rparr>))"

text \<open>\<open>None\<close> is the NULL the function returns.\<close>
definition htCreate :: "ualloc \<Rightarrow> int \<Rightarrow> 'a hst_scheme \<Rightarrow> hashtable option \<times> 'a hst_scheme" where
  "htCreate al sz s =
     (if sz < 1 then (None, s)
      else let (h, s1) = malloc al sizeof_hashtable s
      in if h = 0 then (None, s1)
      else let (t, s2) = malloc al (8 * word_of_int sz) s1
      in if t = 0 then (None, s2)
      else (Some \<lparr>ht_size = sz, ht_table = replicate (nat sz) 0\<rparr>, s2))"

text \<open>The walk along a bin: the last entry that was passed and the one it stopped at.\<close>
partial_function (option) walk ::
  "(addr \<Rightarrow> htEntry option) \<Rightarrow> cstring \<Rightarrow> addr \<Rightarrow> addr \<Rightarrow> (addr \<times> addr) res option" where
  "walk h k prev nxt =
     (if nxt = 0 then Some (Inr (prev, nxt))
      else case h nxt of
        None \<Rightarrow> Some (Inl UseAfterFree)
      | Some e \<Rightarrow>
          if fst (he_key e) \<noteq> 0 \<and> 0 < strcmp k (snd (he_key e)) then walk h k nxt (he_next e)
          else Some (Inr (prev, nxt)))"

text \<open>Whether the walk stopped at an entry with this key.\<close>
definition found :: "(addr \<Rightarrow> htEntry option) \<Rightarrow> cstring \<Rightarrow> addr \<Rightarrow> htEntry option" where
  "found h k nxt =
     (if nxt = 0 then None
      else case h nxt of
        None \<Rightarrow> None
      | Some e \<Rightarrow> if fst (he_key e) \<noteq> 0 \<and> strcmp k (snd (he_key e)) = 0 then Some e else None)"

text \<open>The first branch of \<open>htSet\<close>: the entry gets a new value.\<close>
definition replace_value ::
  "ualloc \<Rightarrow> addr \<Rightarrow> htEntry \<Rightarrow> u8 list \<Rightarrow> int \<Rightarrow> 'a hst_scheme \<Rightarrow> 'a hst_scheme res" where
  "replace_value al nxt e value sz s =
     bind_res (free (he_value e) s) (\<lambda>s1.
     let s2 = s1\<lparr>blobs := (blobs s1)(he_value e := None)\<rparr>;
         (vp, s3) = malloc al (word_of_int sz) s2;
         s4 = s3\<lparr>entries := (entries s3)(nxt \<mapsto> e\<lparr>he_value := vp\<rparr>)\<rparr>;
         n = unat (word_of_int sz :: u64)
     in if vp = 0 then (if n = 0 then Inr s4 else Inl NullDeref)
        else if length value < n then Inl OutOfBounds
        else Inr (s4\<lparr>blobs := (blobs s4)(vp \<mapsto> take n value)\<rparr>))"

definition set_next :: "addr \<Rightarrow> addr \<Rightarrow> 'a hst_scheme \<Rightarrow> 'a hst_scheme res" where
  "set_next p q s =
     (if p = 0 then Inl NullDeref
      else case entries s p of
        None \<Rightarrow> Inl UseAfterFree
      | Some e \<Rightarrow> Inr (s\<lparr>entries := (entries s)(p \<mapsto> e\<lparr>he_next := q\<rparr>)\<rparr>))"

text \<open>The second branch: a new entry is linked in; at the end of a bin it may be NULL.\<close>
definition link_pair ::
  "hashtable \<Rightarrow> int \<Rightarrow> addr \<Rightarrow> addr \<Rightarrow> addr \<Rightarrow> 'a hst_scheme \<Rightarrow> (hashtable \<times> 'a hst_scheme) res" where
  "link_pair ht bin prev nxt newpair s =
     bind_res (at_index bin (ht_table ht)) (\<lambda>head.
     if nxt = head
     then bind_res (set_next newpair nxt s) (\<lambda>s1.
          Inr (ht\<lparr>ht_table := (ht_table ht)[nat bin := newpair]\<rparr>, s1))
     else if nxt = 0
     then bind_res (set_next prev newpair s) (\<lambda>s1. Inr (ht, s1))
     else bind_res (set_next newpair nxt s) (\<lambda>s1.
          bind_res (set_next prev newpair s1) (\<lambda>s2. Inr (ht, s2))))"

definition htSet ::
  "ualloc \<Rightarrow> u64 \<Rightarrow> hashtable \<Rightarrow> cstring \<Rightarrow> u8 list \<Rightarrow> int \<Rightarrow> 'a hst_scheme
     \<Rightarrow> (hashtable \<times> 'a hst_scheme) res option" where
  "htSet al g ht k value sz s =
     (case bind_res (htHash g ht k) (\<lambda>bin. bind_res (at_index bin (ht_table ht)) (\<lambda>head. Inr (bin, head))) of
        Inl e \<Rightarrow> Some (Inl e)
      | Inr (bin, head) \<Rightarrow>
          (case walk (entries s) k 0 head of
             None \<Rightarrow> None
           | Some r \<Rightarrow>
               Some (bind_res r (\<lambda>(prev, nxt).
                     case found (entries s) k nxt of
                       Some e \<Rightarrow> bind_res (replace_value al nxt e value sz s) (\<lambda>s'. Inr (ht, s'))
                     | None \<Rightarrow>
                         bind_res (htNewpair al k value sz s) (\<lambda>(newpair, s1).
                         link_pair ht bin prev nxt newpair s1)))))"

text \<open>The address of the value, or 0 for NULL.\<close>
definition htGet :: "u64 \<Rightarrow> hashtable \<Rightarrow> cstring \<Rightarrow> 'a hst_scheme \<Rightarrow> addr res option" where
  "htGet g ht k s =
     (case bind_res (htHash g ht k) (\<lambda>bin. at_index bin (ht_table ht)) of
        Inl e \<Rightarrow> Some (Inl e)
      | Inr head \<Rightarrow>
          (case walk (entries s) k 0 head of
             None \<Rightarrow> None
           | Some r \<Rightarrow>
               Some (bind_res r (\<lambda>(prev, pair).
                     Inr (case found (entries s) k pair of None \<Rightarrow> 0 | Some e \<Rightarrow> he_value e)))))"

section \<open>Well-formed tables\<close>

text \<open>The entries \<open>xs\<close> are linked one after the other from \<open>p\<close> to \<open>q\<close>.\<close>
fun path :: "(addr \<Rightarrow> htEntry option) \<Rightarrow> addr \<Rightarrow> addr list \<Rightarrow> addr \<Rightarrow> bool" where
  "path h p [] q \<longleftrightarrow> p = q"
| "path h p (x # xs) q \<longleftrightarrow>
     p = x \<and> x \<noteq> 0 \<and> (case h x of None \<Rightarrow> False | Some e \<Rightarrow> path h (he_next e) xs q)"

text \<open>What an entry holds apart from the link: its key and the address of its value.\<close>
definition data :: "(addr \<Rightarrow> htEntry option) \<Rightarrow> addr \<Rightarrow> ((addr \<times> cstring) \<times> addr) option" where
  "data h x = map_option (\<lambda>e. (he_key e, he_value e)) (h x)"

definition key_of :: "(addr \<Rightarrow> htEntry option) \<Rightarrow> addr \<Rightarrow> cstring" where
  "key_of h x = (case data h x of None \<Rightarrow> [] | Some (k, v) \<Rightarrow> snd k)"

definition owns :: "(addr \<Rightarrow> htEntry option) \<Rightarrow> addr \<Rightarrow> addr set" where
  "owns h x = (case data h x of None \<Rightarrow> {} | Some (k, v) \<Rightarrow> {x, fst k, v})"

definition content :: "(addr \<Rightarrow> htEntry option) \<Rightarrow> (addr \<Rightarrow> u8 list option) \<Rightarrow> addr \<Rightarrow> cstring \<times> u8 list" where
  "content h bl x = (key_of h x, case data h x of None \<Rightarrow> [] | Some (k, v) \<Rightarrow> the (bl v))"

definition node_ok :: "(addr \<Rightarrow> htEntry option) \<Rightarrow> (addr \<Rightarrow> u8 list option) \<Rightarrow> addr list \<Rightarrow> addr \<Rightarrow> bool" where
  "node_ok h bl l x \<longleftrightarrow>
     (case data h x of
        None \<Rightarrow> False
      | Some (k, v) \<Rightarrow> 0 \<notin> {x, fst k, v} \<and> distinct [x, fst k, v] \<and> {x, fst k, v} \<subseteq> set l \<and>
          c_str (snd k) \<and> bl v \<noteq> None)"

text \<open>No two entries share a block.\<close>
definition heap_wf :: "(addr \<Rightarrow> htEntry option) \<Rightarrow> (addr \<Rightarrow> u8 list option) \<Rightarrow> addr list \<Rightarrow> addr set \<Rightarrow> bool" where
  "heap_wf h bl l N \<longleftrightarrow> (\<forall>x \<in> N. node_ok h bl l x) \<and>
     (\<forall>x \<in> N. \<forall>y \<in> N. x \<noteq> y \<longrightarrow> owns h x \<inter> owns h y = {})"

definition sorted_keys :: "(addr \<Rightarrow> htEntry option) \<Rightarrow> addr list \<Rightarrow> bool" where
  "sorted_keys h xs \<longleftrightarrow> sorted_wrt (\<lambda>x y. strcmp (key_of h x) (key_of h y) < 0) xs"

text \<open>A table whose bins are the lists \<open>nss\<close> of entries.\<close>
definition htab_ok :: "hashtable \<Rightarrow> addr list list \<Rightarrow> 'a hst_scheme \<Rightarrow> bool" where
  "htab_ok ht nss s \<longleftrightarrow>
     1 \<le> ht_size ht \<and> ht_size ht < 2 ^ 31 \<and> length (ht_table ht) = nat (ht_size ht) \<and>
     length nss = nat (ht_size ht) \<and> distinct (concat nss) \<and>
     heap_wf (entries s) (blobs s) (ulive s) (set (concat nss)) \<and>
     (\<forall>i < length nss. path (entries s) (ht_table ht ! i) (nss ! i) 0 \<and> sorted_keys (entries s) (nss ! i))"

text \<open>The abstract value: for every bin a map from keys to bytes.\<close>
definition bin_map :: "(addr \<Rightarrow> htEntry option) \<Rightarrow> (addr \<Rightarrow> u8 list option) \<Rightarrow> addr list \<Rightarrow> cstring \<Rightarrow> u8 list option" where
  "bin_map h bl xs = map_of (map (content h bl) xs)"

definition represents :: "hashtable \<Rightarrow> 'a hst_scheme \<Rightarrow> (nat \<Rightarrow> cstring \<Rightarrow> u8 list option) \<Rightarrow> bool" where
  "represents ht s f \<longleftrightarrow>
     (\<exists>nss. htab_ok ht nss s \<and>
       f = (\<lambda>i. if i < length nss then bin_map (entries s) (blobs s) (nss ! i) else Map.empty))"

section \<open>Walking along a bin\<close>

lemma path_append: "path h p (xs @ ys) q \<longleftrightarrow> (\<exists>r. path h p xs r \<and> path h r ys q)"
  by (induction xs arbitrary: p) (auto split: option.splits)

lemma path_cong: "(\<And>x. x \<in> set xs \<Longrightarrow> h' x = h x) \<Longrightarrow> path h' p xs q = path h p xs q"
  by (induction xs arbitrary: p) (auto split: option.splits)

lemma path_head: "path h p xs 0 \<Longrightarrow> p = (case xs of [] \<Rightarrow> 0 | x # _ \<Rightarrow> x)"
  by (cases xs) auto

lemma data_eqs:
  assumes "data h' x = data h x"
  shows "key_of h' x = key_of h x" and "owns h' x = owns h x" and "content h' bl x = content h bl x"
    and "node_ok h' bl l x = node_ok h bl l x"
  using assms by (auto simp: key_of_def owns_def content_def node_ok_def)

lemma heap_wf_data:
  assumes "\<And>x. x \<in> N \<Longrightarrow> data h' x = data h x"
  shows "heap_wf h' bl l N = heap_wf h bl l N"
  using data_eqs [OF assms] by (simp add: heap_wf_def)

lemma heap_wf_node: "heap_wf h bl l N \<Longrightarrow> x \<in> N \<Longrightarrow> node_ok h bl l x"
  by (simp add: heap_wf_def)

lemma heap_wf_apart: "heap_wf h bl l N \<Longrightarrow> x \<in> N \<Longrightarrow> y \<in> N \<Longrightarrow> x \<noteq> y \<Longrightarrow> owns h x \<inter> owns h y = {}"
  by (simp add: heap_wf_def)

lemma node_live: "node_ok h bl l x \<Longrightarrow> owns h x \<subseteq> set l"
  by (auto simp: node_ok_def owns_def split: option.splits)

lemma sorted_keys_cong:
  assumes "\<And>x. x \<in> set xs \<Longrightarrow> key_of h' x = key_of h x"
  shows "sorted_keys h' xs = sorted_keys h xs"
  unfolding sorted_keys_def
  by (rule iffI; rule sorted_wrt_mono_rel [rotated], assumption) (simp_all add: assms)

lemma heap_wf_live: "heap_wf h bl l N \<Longrightarrow> set l \<subseteq> set l' \<Longrightarrow> heap_wf h bl l' N"
  by (fastforce simp: heap_wf_def node_ok_def split: option.splits)

abbreviation above :: "(addr \<Rightarrow> htEntry option) \<Rightarrow> cstring \<Rightarrow> addr \<Rightarrow> bool" where
  "above h k x \<equiv> 0 < strcmp k (key_of h x)"

lemma node_entry:
  assumes "node_ok h bl l x"
  obtains e where "h x = Some e" "fst (he_key e) \<noteq> 0" "key_of h x = snd (he_key e)" "c_str (snd (he_key e))"
    "data h x = Some (he_key e, he_value e)"
  using assms by (auto simp: node_ok_def data_def key_of_def split: option.splits)

text \<open>The walk ends, and it stops at the first key that is not smaller.\<close>
lemma walk_path:
  assumes "path h p xs 0" and "\<forall>x \<in> set xs. node_ok h bl l x"
  shows "walk h k prev p = Some (Inr (last (prev # takeWhile (above h k) xs),
    case dropWhile (above h k) xs of [] \<Rightarrow> 0 | z # _ \<Rightarrow> z))"
  using assms
proof (induction xs arbitrary: p prev)
  case Nil
  then show ?case by (subst walk.simps) simp
next
  case (Cons x xs)
  then obtain e where e: "h x = Some e" "fst (he_key e) \<noteq> 0" "key_of h x = snd (he_key e)"
    by (auto elim: node_entry)
  then have "path h (he_next e) xs 0" "p = x" "x \<noteq> 0" using Cons.prems(1) by auto
  then show ?case using Cons.IH [of "he_next e" x] Cons.prems(2) e by (subst walk.simps) auto
qed

lemma c_str_key_of: "node_ok h bl l x \<Longrightarrow> c_str (key_of h x)"
  by (auto simp: node_ok_def key_of_def split: option.splits)

text \<open>What the map says of a key is decided where the walk stops.\<close>
lemma bin_map_drop:
  assumes "sorted_keys h xs" and "\<forall>x \<in> set xs. node_ok h bl l x" and "c_str k"
  shows "bin_map h bl xs k = (case dropWhile (above h k) xs of
    [] \<Rightarrow> None | z # _ \<Rightarrow> if key_of h z = k then Some (snd (content h bl z)) else None)"
  using assms(1,2)
proof (induction xs)
  case (Cons x xs)
  have kx: "c_str (key_of h x)" using Cons.prems(2) c_str_key_of by auto
  have IH: "bin_map h bl xs k = (case dropWhile (above h k) xs of
      [] \<Rightarrow> None | z # _ \<Rightarrow> if key_of h z = k then Some (snd (content h bl z)) else None)"
    using Cons by (simp add: sorted_keys_def)
  show ?case
  proof (cases "above h k x")
    case True
    then have "key_of h x \<noteq> k" by auto
    then show ?thesis using IH True by (simp add: bin_map_def content_def)
  next
    case False
    have "key_of h y \<noteq> k" if "y \<in> set xs" "key_of h x \<noteq> k" for y
    proof
      assume "key_of h y = k"
      then have "strcmp (key_of h x) k < 0" using Cons.prems(1) that(1) by (auto simp: sorted_keys_def)
      then show False using False strcmp_swap [of k "key_of h x"] by simp
    qed
    then have "bin_map h bl xs k = None" if "key_of h x \<noteq> k"
      using that by (fastforce simp: bin_map_def map_of_eq_None_iff content_def)
    then show ?thesis using False by (simp add: bin_map_def content_def)
  qed
qed (simp add: bin_map_def)

lemma found_eq:
  assumes "node_ok h bl l z" and "c_str k"
  shows "found h k z = (if key_of h z = k then h z else None)"
proof -
  obtain e where e: "h z = Some e" "fst (he_key e) \<noteq> 0" "key_of h z = snd (he_key e)" "c_str (snd (he_key e))"
    using assms(1) by (rule node_entry)
  have "z \<noteq> 0" using assms(1) by (auto simp: node_ok_def split: option.splits)
  then show ?thesis using e strcmp_eq_0 [OF assms(2) e(4)] by (auto simp: found_def)
qed

section \<open>Looking up\<close>

text \<open>The bin of a key, for a table that \<open>htCreate\<close> can make.\<close>
definition bin_of :: "u64 \<Rightarrow> hashtable \<Rightarrow> cstring \<Rightarrow> nat" where
  "bin_of g ht k = unat (hash_loop k g mod word_of_int (ht_size ht))"

lemma bin_ok:
  assumes "1 \<le> ht_size ht" and "ht_size ht < 2 ^ 31"
  shows "htHash g ht k = Inr (int (bin_of g ht k))" and "bin_of g ht k < nat (ht_size ht)"
proof -
  let ?n = "word_of_int (ht_size ht) :: u64"
  have u: "uint ?n = ht_size ht" using assms by (simp add: uint_word_of_int)
  then have nz: "?n \<noteq> 0" using assms(1) by auto
  have "unat ?n = nat (ht_size ht)" using u by (metis nat_uint_eq)
  then show lt: "bin_of g ht k < nat (ht_size ht)"
    using assms(1) unfolding bin_of_def unat_mod by simp
  have "unat (ucast (hash_loop k g mod ?n) :: u32) = bin_of g ht k"
    using lt assms(2) by (simp add: bin_of_def unsigned_ucast_eq take_bit_nat_eq_self)
  then have "uint (ucast (hash_loop k g mod ?n) :: u32) = int (bin_of g ht k)" by (metis uint_nat)
  then have "sint (ucast (hash_loop k g mod ?n) :: u32) = int (bin_of g ht k)"
    using lt assms(2) by (simp add: sint_uint signed_take_bit_eq_if_positive bit_iff_odd take_bit_int_eq_self)
  then show "htHash g ht k = Inr (int (bin_of g ht k))" using nz by (simp add: htHash_def Let_def)
qed

lemma htab_okD:
  assumes "htab_ok ht nss s"
  shows "1 \<le> ht_size ht" and "ht_size ht < 2 ^ 31" and "length (ht_table ht) = nat (ht_size ht)"
    and "length nss = nat (ht_size ht)" and "distinct (concat nss)"
    and "heap_wf (entries s) (blobs s) (ulive s) (set (concat nss))"
    and "i < length nss \<Longrightarrow> path (entries s) (ht_table ht ! i) (nss ! i) 0"
    and "i < length nss \<Longrightarrow> sorted_keys (entries s) (nss ! i)"
    and "i < length nss \<Longrightarrow> \<forall>x \<in> set (nss ! i). node_ok (entries s) (blobs s) (ulive s) x"
  using assms unfolding htab_ok_def heap_wf_def by auto

text \<open>Where the walk for a key ends: the entries before and after the place, and the key's entry.\<close>
lemma walk_bin:
  assumes "htab_ok ht nss s" and "c_str k" and "i = bin_of g ht k"
  obtains (split) ys zs where "i < length nss" "nss ! i = ys @ zs" "\<forall>x \<in> set ys. above (entries s) k x"
    and "\<forall>z zs'. zs = z # zs' \<longrightarrow> \<not> above (entries s) k z"
    and "htHash g ht k = Inr (int i)" and "at_index (int i) (ht_table ht) = Inr (ht_table ht ! i)"
    and "walk (entries s) k 0 (ht_table ht ! i) = Some (Inr (last (0 # ys), case zs of [] \<Rightarrow> 0 | z # _ \<Rightarrow> z))"
    and "found (entries s) k (case zs of [] \<Rightarrow> 0 | z # _ \<Rightarrow> z) = (case zs of [] \<Rightarrow> None
      | z # _ \<Rightarrow> if key_of (entries s) z = k then entries s z else None)"
    and "bin_map (entries s) (blobs s) (nss ! i) k = (case zs of [] \<Rightarrow> None
      | z # _ \<Rightarrow> if key_of (entries s) z = k then Some (snd (content (entries s) (blobs s) z)) else None)"
proof -
  note ok = htab_okD [OF assms(1)]
  let ?ys = "takeWhile (above (entries s) k) (nss ! i)" and ?zs = "dropWhile (above (entries s) k) (nss ! i)"
  have b: "htHash g ht k = Inr (int i)" "i < length nss"
    using bin_ok [OF ok(1,2)] ok(4) assms(3) by auto
  have at: "at_index (int i) (ht_table ht) = Inr (ht_table ht ! i)"
    using b(2) ok(1,3,4) by (auto simp: at_index_def)
  have stop: "\<forall>z zs'. ?zs = z # zs' \<longrightarrow> \<not> above (entries s) k z"
    by (auto simp: dropWhile_eq_Cons_conv)
  have fnd: "found (entries s) k (case ?zs of [] \<Rightarrow> 0 | z # _ \<Rightarrow> z) = (case ?zs of [] \<Rightarrow> None
      | z # _ \<Rightarrow> if key_of (entries s) z = k then entries s z else None)"
  proof (cases ?zs)
    case (Cons z zs')
    then have "z \<in> set (nss ! i)" by (metis list.set_intros(1) set_dropWhileD)
    then show ?thesis using ok(9) [OF b(2)] found_eq [OF _ assms(2)] Cons by auto
  next
    case Nil
    show ?thesis unfolding Nil by (simp add: found_def)
  qed
  have "nss ! i = ?ys @ ?zs" by simp
  moreover have "\<forall>x \<in> set ?ys. above (entries s) k x" by (auto dest: set_takeWhileD)
  ultimately show ?thesis
    using split [OF b(2) _ _ stop b(1) at walk_path [OF ok(7) [OF b(2)] ok(9) [OF b(2)]] fnd
        bin_map_drop [OF ok(8) [OF b(2)] ok(9) [OF b(2)] assms(2)]] by blast
qed

lemma htGet_rep:
  assumes "represents ht s f" and "c_str k"
  shows "\<exists>p. htGet g ht k s = Some (Inr p) \<and>
    (case f (bin_of g ht k) k of None \<Rightarrow> p = 0 | Some v \<Rightarrow> p \<noteq> 0 \<and> blobs s p = Some v)"
proof -
  obtain nss where ok: "htab_ok ht nss s"
    and f: "f = (\<lambda>i. if i < length nss then bin_map (entries s) (blobs s) (nss ! i) else Map.empty)"
    using assms(1) by (auto simp: represents_def)
  let ?i = "bin_of g ht k"
  from ok assms(2) refl show ?thesis
  proof (cases rule: walk_bin [where g = g])
    case (split ys zs)
    have eq: "htGet g ht k s = Some (Inr (case found (entries s) k (case zs of [] \<Rightarrow> 0 | z # _ \<Rightarrow> z) of
        None \<Rightarrow> 0 | Some e \<Rightarrow> he_value e))"
      by (simp add: htGet_def split(5-7))
    show ?thesis
    proof (cases zs)
      case Nil
      then show ?thesis using eq split(1,8,9) by (simp add: f)
    next
      case (Cons z zs')
      then have "node_ok (entries s) (blobs s) (ulive s) z" using htab_okD(9) [OF ok split(1)] split(2) by simp
      then obtain e where "entries s z = Some e" "data (entries s) z = Some (he_key e, he_value e)"
        "he_value e \<noteq> 0" "blobs s (he_value e) \<noteq> None"
        by (auto simp: node_ok_def data_def split: option.splits)
      then show ?thesis using eq split(1,8,9) Cons by (auto simp: f content_def)
    qed
  qed
qed

section \<open>Linking in a new entry\<close>

lemma set_next_ok:
  "p \<noteq> 0 \<Longrightarrow> entries s p = Some e \<Longrightarrow> set_next p q s = Inr (s\<lparr>entries := (entries s)(p \<mapsto> e\<lparr>he_next := q\<rparr>)\<rparr>)"
  by (simp add: set_next_def)

lemma data_upd_next: "h x = Some e \<Longrightarrow> data (h(x \<mapsto> e\<lparr>he_next := q\<rparr>)) y = data h y"
  by (simp add: data_def)

text \<open>In front of the first entry.\<close>
lemma link_first:
  assumes "path h p zs 0" and "q \<notin> set zs" and "q \<noteq> 0"
  shows "path (h(q \<mapsto> e\<lparr>he_next := p\<rparr>)) q (q # zs) 0"
proof -
  have "path (h(q \<mapsto> e\<lparr>he_next := p\<rparr>)) p zs 0 = path h p zs 0" by (rule path_cong) (use assms(2) in auto)
  then show ?thesis using assms by simp
qed

text \<open>Behind the entry \<open>l\<close>.\<close>
lemma link_behind:
  assumes "path h p (ys @ l # zs) 0" and "distinct (ys @ l # zs)" and "q \<notin> set (ys @ l # zs)" and "q \<noteq> 0"
    and "h l = Some el"
  shows "path (h(q \<mapsto> e\<lparr>he_next := he_next el\<rparr>, l \<mapsto> el\<lparr>he_next := q\<rparr>)) p (ys @ l # q # zs) 0"
    (is "path ?h _ _ _")
proof -
  have "path h p ys l" "path h (he_next el) zs 0" "l \<noteq> 0" using assms(1,5) by (auto simp: path_append)
  moreover have "path ?h p ys l = path h p ys l" by (rule path_cong) (use assms(2,3) in auto)
  moreover have "path ?h (he_next el) zs 0 = path h (he_next el) zs 0" by (rule path_cong) (use assms(2,3) in auto)
  ultimately show ?thesis using assms(3,4) by (auto simp: path_append)
qed

text \<open>The three ways of linking a new entry in between \<open>ys\<close> and \<open>zs\<close> are one.\<close>
lemma link_pair_ok:
  assumes "path (entries s) head (ys @ zs) 0" and "distinct (ys @ zs)" and "q \<notin> set (ys @ zs)" and "q \<noteq> 0"
    and "entries s q = Some e" and "he_next e = 0"
    and "at_index (int i) (ht_table ht) = Inr head" and "i < length (ht_table ht)" "ht_table ht ! i = head"
  obtains h' where "link_pair ht (int i) (last (0 # ys)) (case zs of [] \<Rightarrow> 0 | z # _ \<Rightarrow> z) q s =
      Inr (ht\<lparr>ht_table := (ht_table ht)[i := if ys = [] then q else head]\<rparr>, s\<lparr>entries := h'\<rparr>)"
    and "path h' (if ys = [] then q else head) (ys @ q # zs) 0"
    and "\<And>x. data h' x = data (entries s) x" and "\<And>x. x \<noteq> q \<Longrightarrow> x \<notin> set ys \<Longrightarrow> h' x = entries s x"
proof (cases ys rule: rev_cases)
  case Nil
  then have h: "head = (case zs of [] \<Rightarrow> 0 | z # _ \<Rightarrow> z)" using path_head assms(1) by simp
  let ?h = "(entries s)(q \<mapsto> e\<lparr>he_next := head\<rparr>)"
  have "path ?h q (q # zs) 0" using link_first assms(1,3,4) Nil by simp
  then show ?thesis
    using that [of ?h] Nil assms(4,5,7) h by (simp add: link_pair_def set_next_ok data_upd_next)
next
  case (snoc ys0 l)
  then obtain el where el: "entries s l = Some el" "l \<noteq> 0" "path (entries s) (he_next el) zs 0"
    using assms(1) by (auto simp: path_append split: option.splits)
  let ?nxt = "case zs of [] \<Rightarrow> 0 | z # _ \<Rightarrow> z"
  let ?h = "(entries s)(q \<mapsto> e\<lparr>he_next := he_next el\<rparr>, l \<mapsto> el\<lparr>he_next := q\<rparr>)"
  have nxt: "he_next el = ?nxt" using path_head [OF el(3)] .
  have head: "head \<in> set ys" "head \<noteq> 0" using assms(1) snoc by (cases ys0; auto)+
  have ne: "?nxt \<noteq> head" using head assms(2) by (cases zs) auto
  have lq: "l \<noteq> q" using snoc assms(3) by auto
  have "link_pair ht (int i) l ?nxt q s = Inr (ht, s\<lparr>entries := ?h\<rparr>)"
  proof (cases zs)
    case Nil
    then have "e\<lparr>he_next := he_next el\<rparr> = e" using nxt assms(6) by (cases e) simp
    then have "?h = (entries s)(l \<mapsto> el\<lparr>he_next := q\<rparr>)" using assms(5) lq by (auto simp: fun_eq_iff)
    then show ?thesis using Nil ne el(1,2) assms(7) by (simp add: link_pair_def set_next_ok)
  next
    case (Cons z zs')
    then have "?nxt \<noteq> 0" using el(3) by auto
    then show ?thesis using ne el(1,2) assms(4,5,7) lq nxt by (simp add: link_pair_def set_next_ok)
  qed
  moreover have "ht\<lparr>ht_table := (ht_table ht)[i := head]\<rparr> = ht" using assms(9) by (cases ht) auto
  moreover have "path ?h head (ys0 @ l # q # zs) 0"
    by (rule link_behind) (use assms(1-4) snoc el(1) in auto)
  moreover have "data ?h x = data (entries s) x" for x using el(1) assms(5) lq by (auto simp: data_def)
  ultimately show ?thesis using that [of ?h] snoc by simp
qed

text \<open>With no entry to link in: a fault, or nothing at all at the end of a bin.\<close>
lemma link_null:
  assumes "path (entries s) head (ys @ zs) 0" and "at_index i (ht_table ht) = Inr head"
  shows "link_pair ht i (last (0 # ys)) (case zs of [] \<Rightarrow> 0 | z # _ \<Rightarrow> z) 0 s \<in> {Inl NullDeref, Inr (ht, s)}"
proof (cases "ys = [] \<or> zs \<noteq> []")
  case True
  have "link_pair ht i (last (0 # ys)) (case zs of [] \<Rightarrow> 0 | z # _ \<Rightarrow> z) 0 s = Inl NullDeref"
  proof (cases "ys = []")
    case True
    then show ?thesis using path_head [of "entries s" head zs] assms by (simp add: link_pair_def set_next_def)
  next
    case False
    then obtain z zs' where "zs = z # zs'" "z \<noteq> 0"
      using True assms(1) by (cases zs) (auto simp: path_append)
    then show ?thesis using assms(2) by (simp add: link_pair_def set_next_def)
  qed
  then show ?thesis by simp
next
  case False
  then obtain ys0 l where ys: "ys = ys0 @ [l]" and zs: "zs = []" by (cases ys rule: rev_cases) auto
  then obtain el where el: "entries s l = Some el" "l \<noteq> 0" "he_next el = 0"
    using assms(1) by (auto simp: path_append split: option.splits)
  then have "el\<lparr>he_next := 0\<rparr> = el" by (cases el) simp
  then have "set_next l 0 s = Inr s" using el by (cases s) (simp add: set_next_def fun_upd_idem)
  moreover have "head \<noteq> 0" using assms(1) ys by (cases ys0) auto
  ultimately show ?thesis using assms(2) ys zs by (simp add: link_pair_def)
qed

section \<open>Changing one bin\<close>

lemma concat_apart:
  "distinct (concat nss) \<Longrightarrow> i < length nss \<Longrightarrow> j < length nss \<Longrightarrow> i \<noteq> j \<Longrightarrow> set (nss ! i) \<inter> set (nss ! j) = {}"
proof (induction nss arbitrary: i j)
  case (Cons xs nss)
  have out: "set xs \<inter> set (nss ! m) = {}" if "m < length nss" for m
    using Cons.prems(1) nth_mem [OF that] by auto
  show ?case
  proof (cases i)
    case 0
    then show ?thesis using Cons.prems(3,4) out by (cases j) auto
  next
    case (Suc i')
    then show ?thesis using Cons.prems out [of i'] Cons.IH [of i'] by (cases j) auto
  qed
qed simp

lemma concat_replace:
  assumes "i < length nss" and "set (nss ! i) \<subseteq> set xs"
  shows "set (concat (nss[i := xs])) = set (concat nss) \<union> set xs"
  using assms
proof (induction nss arbitrary: i)
  case (Cons ys nss)
  then show ?case by (cases i) auto
qed simp

lemma distinct_replace:
  assumes "distinct (concat nss)" and "i < length nss" and "distinct xs"
    and "\<And>x. x \<in> set xs \<Longrightarrow> x \<in> set (nss ! i) \<or> x \<notin> set (concat nss)"
  shows "distinct (concat (nss[i := xs]))"
  using assms
proof (induction nss arbitrary: i)
  case (Cons ys nss)
  show ?case
  proof (cases i)
    case 0
    then show ?thesis using Cons.prems by fastforce
  next
    case (Suc i')
    have "distinct (concat (nss[i' := xs]))" using Cons.IH [of i'] Cons.prems Suc by auto
    moreover have "set (concat (nss[i' := xs])) \<subseteq> set (concat nss) \<union> set xs"
      using set_update_subset_insert [of nss i' xs] by auto
    moreover have "set ys \<inter> set xs = {}" using Cons.prems(1,2,4) Suc nth_mem [of i' nss] by fastforce
    ultimately show ?thesis using Cons.prems(1) Suc by fastforce
  qed
qed simp

text \<open>A bin is replaced; the other bins are as they were.\<close>
lemma htab_update:
  assumes "htab_ok ht nss s" and "i < length nss" and "distinct (concat (nss[i := xs]))"
    and "heap_wf (entries s') (blobs s') (ulive s') (set (concat (nss[i := xs])))"
    and "path (entries s') p xs 0" and "sorted_keys (entries s') xs"
    and "\<And>x. x \<in> set (concat nss) \<Longrightarrow> x \<notin> set (nss ! i) \<Longrightarrow>
      entries s' x = entries s x \<and> content (entries s') (blobs s') x = content (entries s) (blobs s) x"
    and "f = (\<lambda>j. if j < length nss then bin_map (entries s) (blobs s) (nss ! j) else Map.empty)"
  shows "represents (ht\<lparr>ht_table := (ht_table ht)[i := p]\<rparr>) s' (f(i := bin_map (entries s') (blobs s') xs))"
proof -
  note ok = htab_okD [OF assms(1)]
  have other: "entries s' x = entries s x \<and> content (entries s') (blobs s') x = content (entries s) (blobs s) x"
    if "j < length nss" "j \<noteq> i" "x \<in> set (nss ! j)" for j x
  proof (rule assms(7))
    show "x \<in> set (concat nss)" using that(3) nth_mem [OF that(1)] by auto
    show "x \<notin> set (nss ! i)" using that concat_apart [OF ok(5) assms(2) that(1)] by auto
  qed
  have bin: "path (entries s') (ht_table ht ! j) (nss ! j) 0 \<and> sorted_keys (entries s') (nss ! j)"
    if "j < length nss" "j \<noteq> i" for j
  proof -
    have "path (entries s') (ht_table ht ! j) (nss ! j) 0 = path (entries s) (ht_table ht ! j) (nss ! j) 0"
      using other [OF that] by (intro path_cong) auto
    moreover have "key_of (entries s') x = key_of (entries s) x" if "x \<in> set (nss ! j)" for x
      using other [OF \<open>j < length nss\<close> \<open>j \<noteq> i\<close> that] by (simp add: key_of_def data_def)
    then have "sorted_keys (entries s') (nss ! j) = sorted_keys (entries s) (nss ! j)"
      by (rule sorted_keys_cong)
    ultimately show ?thesis using ok(7,8) [OF that(1)] by simp
  qed
  have "htab_ok (ht\<lparr>ht_table := (ht_table ht)[i := p]\<rparr>) (nss[i := xs]) s'"
    using ok(1-4) assms(2-6) bin by (simp add: htab_ok_def nth_list_update)
  moreover have "bin_map (entries s') (blobs s') (nss ! j) = bin_map (entries s) (blobs s) (nss ! j)"
    if "j < length nss" "j \<noteq> i" for j
  proof -
    have "map (content (entries s') (blobs s')) (nss ! j) = map (content (entries s) (blobs s)) (nss ! j)"
      using other [OF that] by simp
    then show ?thesis by (simp only: bin_map_def)
  qed
  then have "f(i := bin_map (entries s') (blobs s') xs) =
    (\<lambda>j. if j < length (nss[i := xs]) then bin_map (entries s') (blobs s') (nss[i := xs] ! j) else Map.empty)"
    using assms(2) by (auto simp: assms(8) fun_eq_iff nth_list_update)
  ultimately show ?thesis unfolding represents_def by blast
qed

section \<open>A new entry\<close>

lemma htNewpair_cases:
  assumes "ualloc_ok al" and "unat (word_of_int sz :: u64) \<le> length value"
  obtains (null) s' where "htNewpair al k value sz s = Inr (0, s')"
      and "s' = s\<lparr>ulive := ulive s', umallocs := umallocs s'\<rparr>" and "set (ulive s) \<subseteq> set (ulive s')"
      and "\<not> mallocs_ok al [sizeof_htEntry, of_nat (length k + 1), word_of_int sz] s"
    | (ok) q kp vp s' where "htNewpair al k value sz s = Inr (q, s')"
      and "s' = s\<lparr>ulive := ulive s', umallocs := umallocs s',
          entries := (entries s)(q \<mapsto> \<lparr>he_key = (kp, k), he_value = vp, he_next = 0\<rparr>),
          blobs := (blobs s)(vp \<mapsto> take (unat (word_of_int sz :: u64)) value)\<rparr>"
      and "ulive s' = vp # kp # q # ulive s" and "distinct [q, kp, vp]" and "0 \<notin> {q, kp, vp}"
      and "{q, kp, vp} \<inter> set (ulive s) = {}"
  using assms(1)
proof (cases rule: malloc_cases [where n = sizeof_htEntry and s = s])
  case a: (null s1)
  then show ?thesis using null [of s1] by (simp add: htNewpair_def)
next
  case a: (ok q s1)
  from assms(1) show ?thesis
  proof (cases rule: malloc_cases [where n = "of_nat (length k + 1)" and s = s1])
    case b: (null s2)
    have "set (ulive s) \<subseteq> set (ulive s2)" using a(4) b(2) by auto
    then show ?thesis using null [of s2] a b by (simp add: htNewpair_def)
  next
    case b: (ok kp s2)
    from assms(1) show ?thesis
    proof (cases rule: malloc_cases [where n = "word_of_int sz" and s = s2])
      case c: (null s3)
      have "set (ulive s) \<subseteq> set (ulive s3)" using a(4) b(4) c(2) by auto
      then show ?thesis using null [of s3] a b c by (simp add: htNewpair_def)
    next
      case c: (ok vp s3)
      have l3: "ulive s3 = vp # kp # q # ulive s" using a(4) b(4) c(4) by simp
      have d: "distinct [q, kp, vp]" "{q, kp, vp} \<inter> set (ulive s) = {}" "0 \<notin> {q, kp, vp}"
        using a(2,3,4) b(2,3,4) c(2,3) by auto
      let ?s' = "s3\<lparr>blobs := (blobs s3)(vp \<mapsto> take (unat (word_of_int sz :: u64)) value),
        entries := (entries s3)(q \<mapsto> \<lparr>he_key = (kp, k), he_value = vp, he_next = 0\<rparr>)\<rparr>"
      have h: "htNewpair al k value sz s = Inr (q, ?s')"
        using a(1,2) b(1,2) c(1,2) assms(2) by (simp add: htNewpair_def)
      have e: "?s' = s\<lparr>ulive := ulive ?s', umallocs := umallocs ?s',
          entries := (entries s)(q \<mapsto> \<lparr>he_key = (kp, k), he_value = vp, he_next = 0\<rparr>),
          blobs := (blobs s)(vp \<mapsto> take (unat (word_of_int sz :: u64)) value)\<rparr>"
        using a(4) b(4) c(4) by simp
      show ?thesis by (rule ok [OF h e]) (use l3 d in auto)
    qed
  qed
qed

text \<open>A fresh entry joins the well-formed ones, and theirs stay what they are.\<close>
lemma heap_wf_insert:
  assumes "heap_wf h bl l N" and "distinct [q, kp, vp]" and "0 \<notin> {q, kp, vp}" and "{q, kp, vp} \<inter> set l = {}"
    and "c_str k" and "data h' q = Some ((kp, k), vp)" and "\<And>x. x \<in> N \<Longrightarrow> data h' x = data h x"
  shows "heap_wf h' (bl(vp \<mapsto> v)) (vp # kp # q # l) (insert q N)"
    and "x \<in> N \<Longrightarrow> content h' (bl(vp \<mapsto> v)) x = content h bl x" and "q \<notin> N"
proof -
  have own: "owns h' q = {q, kp, vp}" using assms(6) by (simp add: owns_def)
  have old: "\<exists>y w. data h x = Some (y, w) \<and> data h' x = Some (y, w) \<and> 0 \<notin> {x, fst y, w} \<and>
      distinct [x, fst y, w] \<and> {x, fst y, w} \<subseteq> set l \<and> c_str (snd y) \<and> bl w \<noteq> None" if "x \<in> N" for x
    using assms(1,7) that by (fastforce simp: heap_wf_def node_ok_def split: option.splits)
  then have sub: "owns h' x = owns h x" "owns h x \<subseteq> set l" "x \<in> set l" if "x \<in> N" for x
    using that by (fastforce simp: owns_def)+
  then show qN: "q \<notin> N" using assms(4) by blast
  have fresh: "(bl(vp \<mapsto> v)) w = bl w" if "w \<in> set l" for w using that assms(4) by auto
  have "node_ok h' (bl(vp \<mapsto> v)) (vp # kp # q # l) x" if "x \<in> N" for x
  proof -
    note x = old [OF that]
    obtain y w where d: "data h' x = Some (y, w)" "0 \<notin> {x, fst y, w}" "distinct [x, fst y, w]"
      "{x, fst y, w} \<subseteq> set l" "c_str (snd y)" "bl w \<noteq> None" using x by blast
    then have "(bl(vp \<mapsto> v)) w \<noteq> None" using fresh by simp
    then show ?thesis using d unfolding node_ok_def d(1) by auto
  qed
  moreover have "node_ok h' (bl(vp \<mapsto> v)) (vp # kp # q # l) q"
    using assms(2,3,5,6) by (auto simp: node_ok_def)
  moreover have "owns h' x \<inter> owns h' y = {}" if "x \<in> insert q N" "y \<in> insert q N" "x \<noteq> y" for x y
  proof -
    have out: "owns h' u \<inter> owns h' q = {}" if "u \<in> N" for u using sub(1,2) [OF that] own assms(4) by auto
    show ?thesis
    proof (cases "x = q \<or> y = q")
      case True
      then show ?thesis using out that by auto
    next
      case False
      then show ?thesis using that heap_wf_apart [OF assms(1)] sub(1) by auto
    qed
  qed
  ultimately show "heap_wf h' (bl(vp \<mapsto> v)) (vp # kp # q # l) (insert q N)" by (simp add: heap_wf_def)
  show "content h' (bl(vp \<mapsto> v)) x = content h bl x" if "x \<in> N"
  proof -
    note x = old [OF that]
    obtain y w where d: "data h' x = Some (y, w)" "data h x = Some (y, w)" "w \<in> set l" using x by blast
    then show ?thesis using fresh [OF d(3)] by (simp add: content_def key_of_def)
  qed
qed

lemma map_of_insert:
  "k \<notin> fst ` set as \<Longrightarrow> map_of (as @ (k, v) # bs) = (map_of (as @ bs))(k \<mapsto> v)"
  by (induction as) (auto simp: fun_upd_twist)

text \<open>The place the walk finds keeps the bin sorted.\<close>
lemma sorted_insert:
  assumes "sorted_keys h (ys @ zs)" and "\<forall>x \<in> set ys. above h k x"
    and "\<forall>z zs'. zs = z # zs' \<longrightarrow> \<not> above h k z \<and> key_of h z \<noteq> k"
    and "\<forall>x \<in> set (ys @ zs). node_ok h bl l x" and "c_str k"
    and "\<And>x. x \<in> set (ys @ zs) \<Longrightarrow> key_of h' x = key_of h x" and "key_of h' q = k"
  shows "sorted_keys h' (ys @ q # zs)"
proof -
  have cs: "c_str (key_of h x)" if "x \<in> set (ys @ zs)" for x using assms(4) c_str_key_of that by blast
  have low: "strcmp (key_of h x) k < 0" if "x \<in> set ys" for x
    using assms(2) that strcmp_swap [of k "key_of h x"] by auto
  have high: "strcmp k (key_of h z) < 0" if "z \<in> set zs" for z
  proof (cases zs)
    case (Cons y zs')
    then have "strcmp k (key_of h y) < 0"
      using assms(3) strcmp_eq_0 [OF assms(5) cs, of y] by fastforce
    moreover have "z = y \<or> strcmp (key_of h y) (key_of h z) < 0"
      using assms(1) Cons that by (auto simp: sorted_keys_def sorted_wrt_append)
    ultimately show ?thesis using strcmp_less_trans cs Cons that by auto
  qed (use that in simp)
  have "sorted_keys h' (ys @ zs)" using assms(1) sorted_keys_cong [of "ys @ zs" h' h, OF assms(6)] by simp
  then show ?thesis
    using assms(6,7) low high by (auto simp: sorted_keys_def sorted_wrt_append)
qed

section \<open>A new value\<close>

text \<open>The old value is freed; the new block may have the address of the old one.\<close>
lemma heap_wf_replace:
  assumes "heap_wf h bl l N" and "z \<in> N" and "h z = Some e" and "vp \<noteq> 0"
    and "vp \<notin> set (filter (\<lambda>q. q \<noteq> he_value e) l)"
    and h'_def: "h' = h(z \<mapsto> e\<lparr>he_value := vp\<rparr>)" and bl'_def: "bl' = (bl(he_value e := None))(vp \<mapsto> v)"
    and l'_def: "l' = vp # filter (\<lambda>q. q \<noteq> he_value e) l"
  shows "heap_wf h' bl' l' N" and "x \<in> N \<Longrightarrow> x \<noteq> z \<Longrightarrow> content h' bl' x = content h bl x"
    and "content h' bl' z = (key_of h z, v)" and "key_of h' = key_of h"
proof -
  have dx: "data h' x = data h x" if "x \<noteq> z" for x
    using assms(3) that by (auto simp: data_def h'_def)
  have dz: "data h z = Some (he_key e, he_value e)" "data h' z = Some (he_key e, vp)"
    using assms(3) by (auto simp: data_def h'_def)
  show k: "key_of h' = key_of h"
  proof
    show "key_of h' x = key_of h x" for x using dz dx [of x] by (cases "x = z") (simp_all add: key_of_def)
  qed
  show "content h' bl' z = (key_of h z, v)" using k dz by (simp add: content_def bl'_def)
  have nz: "node_ok h bl l z" and oz: "owns h z = {z, fst (he_key e), he_value e}"
    using assms(1,2) dz by (auto simp: heap_wf_def owns_def)
  have apart_z: "he_value e \<notin> owns h x" if "x \<in> N" "x \<noteq> z" for x
    using heap_wf_apart [OF assms(1) that(1) assms(2) that(2)] oz by auto
  have sub: "owns h x \<subseteq> set (filter (\<lambda>q. q \<noteq> he_value e) l)" if "x \<in> N" "x \<noteq> z" for x
    using node_live [OF heap_wf_node [OF assms(1) that(1)]] apart_z [OF that] by auto
  have bl: "bl' w = bl w" if "w \<in> set (filter (\<lambda>q. q \<noteq> he_value e) l)" for w
    using that assms(5) by (auto simp: bl'_def)
  have xs: "\<exists>y w. data h x = Some (y, w) \<and> node_ok h' bl' l' x \<and> w \<in> set (filter (\<lambda>q. q \<noteq> he_value e) l)"
    if "x \<in> N" "x \<noteq> z" for x
  proof -
    have "node_ok h bl l x" using assms(1) that(1) by (simp add: heap_wf_def)
    then obtain y w where d: "data h x = Some (y, w)" "0 \<notin> {x, fst y, w}" "distinct [x, fst y, w]" "c_str (snd y)" "bl w \<noteq> None"
      by (auto simp: node_ok_def split: option.splits)
    moreover have "{x, fst y, w} \<subseteq> set (filter (\<lambda>q. q \<noteq> he_value e) l)" using sub [OF that] d(1) by (simp add: owns_def)
    ultimately have "node_ok h' bl' l' x" using dx [OF that(2)] bl [of w] by (auto simp: node_ok_def l'_def)
    then show ?thesis using d(1) \<open>{x, fst y, w} \<subseteq> _\<close> by blast
  qed
  have "{z, fst (he_key e)} \<subseteq> set (filter (\<lambda>q. q \<noteq> he_value e) l)" using nz dz by (auto simp: node_ok_def)
  then have z: "node_ok h' bl' l' z"
    using nz dz assms(4,5) by (auto simp: node_ok_def l'_def bl'_def)
  have ox': "owns h' x = owns h x" if "x \<noteq> z" for x using dx [OF that] by (simp add: owns_def)
  have "owns h' x \<inter> owns h' z = {}" if "x \<in> N" "x \<noteq> z" for x
  proof -
    have "owns h' z = {z, fst (he_key e), vp}" using dz by (simp add: owns_def)
    then show ?thesis
      using sub [OF that] assms(5) ox' [OF that(2)] oz heap_wf_apart [OF assms(1) that(1) assms(2) that(2)] by auto
  qed
  then have "owns h' x \<inter> owns h' y = {}" if "x \<in> N" "y \<in> N" "x \<noteq> y" for x y
    using that heap_wf_apart [OF assms(1)] ox' by (cases "x = z"; cases "y = z") auto
  moreover have "node_ok h' bl' l' x" if "x \<in> N" for x using xs z that by (cases "x = z") auto
  ultimately show "heap_wf h' bl' l' N" by (simp add: heap_wf_def)
  show "content h' bl' x = content h bl x" if "x \<in> N" "x \<noteq> z"
    using xs [OF that] bl dx [OF that(2)] k by (auto simp: content_def)
qed

section \<open>Setting a key\<close>

definition value_ok :: "u8 list \<Rightarrow> int \<Rightarrow> bool" where
  "value_ok value sz \<longleftrightarrow> 0 < sz \<and> sz < 2 ^ 31 \<and> nat sz \<le> length value"

lemma value_size: "value_ok value sz \<Longrightarrow> unat (word_of_int sz :: u64) = nat sz"
  by (simp add: value_ok_def unsigned_of_int take_bit_int_eq_self)

text \<open>A bin with a fresh entry for a new key.\<close>
lemma new_in_bin:
  assumes "heap_wf h bl l N" and "set (ys @ zs) \<subseteq> N" and "sorted_keys h (ys @ zs)"
    and "\<forall>x \<in> set ys. above h k x"
    and "\<forall>z zs'. zs = z # zs' \<longrightarrow> \<not> above h k z \<and> key_of h z \<noteq> k" and "c_str k"
    and fr: "distinct [q, kp, vp]" "0 \<notin> {q, kp, vp}" "{q, kp, vp} \<inter> set l = {}"
    and d: "data h' q = Some ((kp, k), vp)" "\<And>x. x \<in> N \<Longrightarrow> data h' x = data h x"
  shows "sorted_keys h' (ys @ q # zs)"
    and "bin_map h' (bl(vp \<mapsto> v)) (ys @ q # zs) = (bin_map h bl (ys @ zs))(k \<mapsto> v)"
proof -
  have keys: "key_of h' x = key_of h x" if "x \<in> set (ys @ zs)" for x
    using data_eqs(1) [OF d(2)] that assms(2) by blast
  have kq: "key_of h' q = k" using d(1) by (simp add: key_of_def)
  show "sorted_keys h' (ys @ q # zs)"
    by (rule sorted_insert [OF assms(3-5) _ assms(6) keys kq]) (use heap_wf_node [OF assms(1)] assms(2) in auto)
  note old = heap_wf_insert(2) [OF assms(1) fr assms(6) d, where v = v]
  have "content h' (bl(vp \<mapsto> v)) q = (k, v)" using d(1) kq by (simp add: content_def)
  then have "map (content h' (bl(vp \<mapsto> v))) (ys @ q # zs) = map (content h bl) ys @ (k, v) # map (content h bl) zs"
    using old assms(2) by auto
  moreover have "k \<notin> fst ` set (map (content h bl) ys)" using assms(4) by (force simp: content_def)
  ultimately show "bin_map h' (bl(vp \<mapsto> v)) (ys @ q # zs) = (bin_map h bl (ys @ zs))(k \<mapsto> v)"
    unfolding bin_map_def using map_of_insert by (metis map_append)
qed

lemma htab_bin:
  assumes "htab_ok ht nss s" and "i < length nss"
  shows "set (nss ! i) \<subseteq> set (concat nss)" and "distinct (nss ! i)"
    and "at_index (int i) (ht_table ht) = Inr (ht_table ht ! i)" and "i < length (ht_table ht)"
    and "x \<in> set (concat nss) \<Longrightarrow> x \<in> set (ulive s)"
proof -
  note ok = htab_okD [OF assms(1)]
  show "set (nss ! i) \<subseteq> set (concat nss)" using nth_mem [OF assms(2)] by auto
  show "distinct (nss ! i)" using ok(5) nth_mem [OF assms(2)] by (metis distinct_concat_iff)
  show "at_index (int i) (ht_table ht) = Inr (ht_table ht ! i)" "i < length (ht_table ht)"
    using assms(2) ok(1,3,4) by (auto simp: at_index_def)
  show "x \<in> set (ulive s)" if "x \<in> set (concat nss)"
    using heap_wf_node [OF ok(6) that] by (auto simp: node_ok_def split: option.splits)
qed

text \<open>The key is new, and there is memory for it.\<close>
lemma htSet_new:
  assumes "ualloc_ok al" and "htab_ok ht nss s" and "value_ok value sz" and "c_str k"
    and "i < length nss" "nss ! i = ys @ zs" "\<forall>x \<in> set ys. above (entries s) k x"
    and "\<forall>z zs'. zs = z # zs' \<longrightarrow> \<not> above (entries s) k z \<and> key_of (entries s) z \<noteq> k"
    and "f = (\<lambda>j. if j < length nss then bin_map (entries s) (blobs s) (nss ! j) else Map.empty)"
    and "htNewpair al k value sz s = Inr (q, s1)" and "q \<noteq> 0"
  obtains ht' s' where "link_pair ht (int i) (last (0 # ys)) (case zs of [] \<Rightarrow> 0 | z # _ \<Rightarrow> z) q s1 = Inr (ht', s')"
    and "represents ht' s' (f(i := (f i)(k \<mapsto> take (nat sz) value)))"
proof -
  note ok = htab_okD [OF assms(2)] and bin = htab_bin [OF assms(2,5), unfolded assms(6)]
  let ?N = "set (concat nss)" and ?v = "take (nat sz) value"
  have len: "unat (word_of_int sz :: u64) \<le> length value"
    using value_size [OF assms(3)] assms(3) by (simp add: value_ok_def)
  from assms(1) len obtain kp vp where
    s1: "s1 = s\<lparr>ulive := ulive s1, umallocs := umallocs s1,
          entries := (entries s)(q \<mapsto> \<lparr>he_key = (kp, k), he_value = vp, he_next = 0\<rparr>),
          blobs := (blobs s)(vp \<mapsto> take (unat (word_of_int sz :: u64)) value)\<rparr>"
    and l1: "ulive s1 = vp # kp # q # ulive s" and fr: "distinct [q, kp, vp]" "0 \<notin> {q, kp, vp}" "{q, kp, vp} \<inter> set (ulive s) = {}"
    by (cases rule: htNewpair_cases [where k = k and s = s]) (use assms(10,11) in auto)
  have e1: "entries s1 = (entries s)(q \<mapsto> \<lparr>he_key = (kp, k), he_value = vp, he_next = 0\<rparr>)" by (subst s1) simp
  have b1: "blobs s1 = (blobs s)(vp \<mapsto> ?v)" by (subst s1) (simp add: value_size [OF assms(3)])
  have qN: "q \<notin> ?N" using bin(5) fr(3) by blast
  have "path (entries s1) (ht_table ht ! i) (ys @ zs) 0 = path (entries s) (ht_table ht ! i) (ys @ zs) 0"
    by (rule path_cong) (use qN bin(1) in \<open>auto simp: e1\<close>)
  then have head: "path (entries s1) (ht_table ht ! i) (ys @ zs) 0" using ok(7) [OF assms(5)] assms(6) by simp
  obtain h' where h': "link_pair ht (int i) (last (0 # ys)) (case zs of [] \<Rightarrow> 0 | z # _ \<Rightarrow> z) q s1 =
      Inr (ht\<lparr>ht_table := (ht_table ht)[i := if ys = [] then q else ht_table ht ! i]\<rparr>, s1\<lparr>entries := h'\<rparr>)"
    "path h' (if ys = [] then q else ht_table ht ! i) (ys @ q # zs) 0"
    and d': "\<And>x. data h' x = data (entries s1) x" "\<And>x. x \<noteq> q \<Longrightarrow> x \<notin> set ys \<Longrightarrow> h' x = entries s1 x"
    by (rule link_pair_ok [OF head bin(2) _ assms(11) _ _ bin(3,4) refl]) (use qN bin(1) in \<open>auto simp: e1\<close>)
  have dq: "data h' q = Some ((kp, k), vp)" and dx: "\<And>x. x \<in> ?N \<Longrightarrow> data h' x = data (entries s) x"
    unfolding d'(1) using qN by (auto simp: e1 data_def)
  note wf = heap_wf_insert(1,2) [OF ok(6) fr assms(4) dq dx, where v = ?v]
  have sk: "sorted_keys (entries s) (ys @ zs)" using ok(8) [OF assms(5)] assms(6) by simp
  note nb = new_in_bin [OF ok(6) bin(1) sk assms(7,8,4) fr dq dx]
  have set': "set (concat (nss[i := ys @ q # zs])) = insert q ?N"
    using concat_replace [OF assms(5), of "ys @ q # zs"] assms(6) bin(1) by auto
  have dist': "distinct (concat (nss[i := ys @ q # zs]))"
    by (rule distinct_replace [OF ok(5) assms(5)]) (use bin(1,2) qN assms(6) in auto)
  have keep: "h' x = entries s x" if "x \<in> ?N" "x \<notin> set (nss ! i)" for x
  proof -
    have "x \<noteq> q" "x \<notin> set ys" using that qN assms(6) by auto
    then show ?thesis using d'(2) by (simp add: e1)
  qed
  have "represents (ht\<lparr>ht_table := (ht_table ht)[i := if ys = [] then q else ht_table ht ! i]\<rparr>) (s1\<lparr>entries := h'\<rparr>)
      (f(i := bin_map (entries (s1\<lparr>entries := h'\<rparr>)) (blobs (s1\<lparr>entries := h'\<rparr>)) (ys @ q # zs)))"
    by (rule htab_update [OF assms(2,5) dist' _ _ _ _ assms(9)])
      (use wf(1,2) set' h'(2) nb(1) keep l1 b1 in auto)
  moreover have "bin_map h' (blobs s1) (ys @ q # zs) = (f i)(k \<mapsto> ?v)"
    using nb(2) [of ?v] b1 assms(5,6) by (simp add: assms(9))
  ultimately show ?thesis using that h'(1) by simp
qed

lemma path_value: "h z = Some e \<Longrightarrow> path (h(z \<mapsto> e\<lparr>he_value := vp\<rparr>)) p xs q = path h p xs q"
  by (induction xs arbitrary: p) (auto split: option.splits)

lemma replaced_in_bin:
  assumes "sorted_keys h xs" and "z \<in> set xs" and "key_of h z = k" and "distinct xs"
    and "\<And>x. x \<in> set xs \<Longrightarrow> x \<noteq> z \<Longrightarrow> content h' bl' x = content h bl x" and "content h' bl' z = (k, v)"
  shows "bin_map h' bl' xs = (bin_map h bl xs)(k \<mapsto> v)"
proof -
  obtain us ws where xs: "xs = us @ z # ws" using split_list [OF assms(2)] by blast
  have "key_of h x \<noteq> k" if "x \<in> set us" for x
    using assms(1,3) that by (auto simp: xs sorted_keys_def sorted_wrt_append)
  then have k: "k \<notin> fst ` set (map (content h bl) us)" by (force simp: content_def)
  have "map (content h' bl') us = map (content h bl) us" "map (content h' bl') ws = map (content h bl) ws"
    using assms(4,5) by (auto simp: xs)
  then have "bin_map h' bl' xs = (map_of (map (content h bl) us @ map (content h bl) ws))(k \<mapsto> v)"
    using map_of_insert [OF k] assms(6) unfolding bin_map_def xs map_append list.map by metis
  moreover have "content h bl z = (k, snd (content h bl z))" using assms(3) by (simp add: content_def)
  then have "bin_map h bl xs = (map_of (map (content h bl) us @ map (content h bl) ws))(k \<mapsto> snd (content h bl z))"
    using map_of_insert [OF k] unfolding bin_map_def xs map_append list.map by metis
  ultimately show ?thesis by simp
qed

text \<open>The key is there: its value is replaced, or the allocation of the new one fails.\<close>
lemma htSet_old:
  assumes "ualloc_ok al" and "htab_ok ht nss s" and "value_ok value sz"
    and "i < length nss" and "z \<in> set (nss ! i)" and "key_of (entries s) z = k" and "entries s z = Some e"
    and "f = (\<lambda>j. if j < length nss then bin_map (entries s) (blobs s) (nss ! j) else Map.empty)"
  obtains (null) "replace_value al z e value sz s = Inl NullDeref"
    | (ok) s' where "replace_value al z e value sz s = Inr s'"
      and "represents ht s' (f(i := (f i)(k \<mapsto> take (nat sz) value)))"
proof -
  note ok = htab_okD [OF assms(2)] and bin = htab_bin [OF assms(2,4)]
  let ?N = "set (concat nss)" and ?v = "take (nat sz) value" and ?old = "he_value e"
  have zN: "z \<in> ?N" using bin(1) assms(5) by blast
  have n: "unat (word_of_int sz :: u64) = nat sz" "0 < nat sz" "nat sz \<le> length value"
    using value_size [OF assms(3)] assms(3) by (auto simp: value_ok_def)
  have old: "?old \<noteq> 0" "?old \<in> set (ulive s)"
    using heap_wf_node [OF ok(6) zN] assms(7) by (auto simp: node_ok_def data_def)
  let ?s2 = "s\<lparr>ulive := filter (\<lambda>q. q \<noteq> ?old) (ulive s), blobs := (blobs s)(?old := None)\<rparr>"
  have fr: "free ?old s = Inr (s\<lparr>ulive := filter (\<lambda>q. q \<noteq> ?old) (ulive s)\<rparr>)" using old by (simp add: free_def)
  from assms(1) show ?thesis
  proof (cases rule: malloc_cases [where n = "word_of_int sz" and s = ?s2])
    case (null s3)
    then show ?thesis using that(1) n(1,2) by (simp add: replace_value_def fr Let_def)
  next
    case (ok vp s3)
    note wf = heap_wf_replace(1-3) [OF htab_okD(6) [OF assms(2)] zN assms(7) ok(2) _ refl refl refl, where v = ?v]
    let ?h' = "(entries s)(z \<mapsto> e\<lparr>he_value := vp\<rparr>)" and ?bl' = "((blobs s)(?old := None))(vp \<mapsto> ?v)"
    let ?s' = "s\<lparr>umallocs := Suc (umallocs s), ulive := vp # filter (\<lambda>q. q \<noteq> ?old) (ulive s), entries := ?h', blobs := ?bl'\<rparr>"
    have r: "replace_value al z e value sz s = Inr ?s'"
      using ok(1,2,4) n by (simp add: replace_value_def fr Let_def)
    have fresh: "vp \<notin> set (filter (\<lambda>q. q \<noteq> ?old) (ulive s))" using ok(3) by simp
    have keep: "entries ?s' x = entries s x \<and> content (entries ?s') (blobs ?s') x = content (entries s) (blobs s) x"
      if "x \<in> ?N" "x \<notin> set (nss ! i)" for x
      using that assms(5) wf(2) [OF fresh] by auto
    have "represents (ht\<lparr>ht_table := (ht_table ht)[i := ht_table ht ! i]\<rparr>) ?s'
        (f(i := bin_map (entries ?s') (blobs ?s') (nss ! i)))"
      by (rule htab_update [OF assms(2,4) _ _ _ _ keep assms(8)])
        (use wf(1) [OF fresh] htab_okD(5,7,8) [OF assms(2)] assms(4,7) sorted_keys_cong [of "nss ! i" ?h' "entries s"]
          heap_wf_replace(4) [OF htab_okD(6) [OF assms(2)] zN assms(7) ok(2) fresh refl refl refl] in \<open>auto simp: path_value\<close>)
    moreover have "bin_map ?h' ?bl' (nss ! i) = (bin_map (entries s) (blobs s) (nss ! i))(k \<mapsto> ?v)"
      by (rule replaced_in_bin [OF htab_okD(8) [OF assms(2,4)] assms(5,6) bin(2)])
        (use bin(1) wf(2,3) [OF fresh] assms(6) in auto)
    moreover have "ht\<lparr>ht_table := (ht_table ht)[i := ht_table ht ! i]\<rparr> = ht" by (cases ht) simp
    ultimately have "represents ht ?s' (f(i := (f i)(k \<mapsto> ?v)))" using assms(4) by (simp add: assms(8))
    then show ?thesis by (rule that(2) [OF r])
  qed
qed

lemma represents_live:
  assumes "represents ht s f" and "set (ulive s) \<subseteq> set (ulive s')"
    and "entries s' = entries s" and "blobs s' = blobs s"
  shows "represents ht s' f"
proof -
  obtain nss where n: "htab_ok ht nss s"
    and f: "f = (\<lambda>i. if i < length nss then bin_map (entries s) (blobs s) (nss ! i) else Map.empty)"
    using assms(1) by (auto simp: represents_def)
  have "htab_ok ht nss s'" using n heap_wf_live [OF htab_okD(6) [OF n] assms(2)] by (simp add: htab_ok_def assms(3,4))
  then show ?thesis using f unfolding represents_def assms(3,4) by blast
qed

text \<open>Every way a call of \<open>htSet\<close> can go, for a well-formed table.\<close>
lemma htSet_cases:
  assumes "ualloc_ok al" and "represents ht s f" and "value_ok value sz" and "c_str k"
  obtains (null) "htSet al g ht k value sz s = Some (Inl NullDeref)"
    | (lost) s' where "htSet al g ht k value sz s = Some (Inr (ht, s'))" and "represents ht s' f"
      and "f (bin_of g ht k) k = None"
      and "\<not> mallocs_ok al [sizeof_htEntry, of_nat (length k + 1), word_of_int sz] s"
    | (set) ht' s' where "htSet al g ht k value sz s = Some (Inr (ht', s'))"
      and "represents ht' s' (f(bin_of g ht k := (f (bin_of g ht k))(k \<mapsto> take (nat sz) value)))"
proof -
  obtain nss where ok: "htab_ok ht nss s"
    and f: "f = (\<lambda>i. if i < length nss then bin_map (entries s) (blobs s) (nss ! i) else Map.empty)"
    using assms(2) by (auto simp: represents_def)
  let ?i = "bin_of g ht k" and ?v = "take (nat sz) value"
  from ok assms(4) refl show ?thesis
  proof (cases rule: walk_bin [where g = g])
    case (split ys zs)
    let ?nxt = "case zs of [] \<Rightarrow> 0 | z # _ \<Rightarrow> z"
    have eq: "htSet al g ht k value sz s = Some (case found (entries s) k ?nxt of
        Some e \<Rightarrow> bind_res (replace_value al ?nxt e value sz s) (\<lambda>s'. Inr (ht, s'))
      | None \<Rightarrow> bind_res (htNewpair al k value sz s) (\<lambda>(newpair, s1). link_pair ht (int ?i) (last (0 # ys)) ?nxt newpair s1))"
      by (simp only: htSet_def split(5-7) bind_res_Inr sum.case prod.case option.case)
    show ?thesis
    proof (cases "\<exists>z zs'. zs = z # zs' \<and> key_of (entries s) z = k")
      case True
      then obtain z zs' where z: "zs = z # zs'" "key_of (entries s) z = k" by blast
      have zi: "z \<in> set (nss ! ?i)" using split(2) z(1) by simp
      then obtain e where e: "entries s z = Some e" using htab_okD(9) [OF ok split(1)] by (blast elim: node_entry)
      then have fnd: "found (entries s) k ?nxt = Some e" using split(8) z by simp
      from assms(1) ok assms(3) split(1) zi z(2) e f show ?thesis
        by (cases rule: htSet_old) (use eq fnd z(1) null set in auto)
    next
      case False
      then have fnd: "found (entries s) k ?nxt = None" and none: "f ?i k = None"
        using split(1,8,9) by (auto simp: f split: list.splits)
      have stop: "\<forall>z zs'. zs = z # zs' \<longrightarrow> \<not> above (entries s) k z \<and> key_of (entries s) z \<noteq> k"
        using split(4) False by blast
      have "unat (word_of_int sz :: u64) \<le> length value"
        using value_size [OF assms(3)] assms(3) by (simp add: value_ok_def)
      with assms(1) show ?thesis
      proof (cases rule: htNewpair_cases [where k = k and s = s])
        case (ok q kp vp s1)
        have "q \<noteq> 0" using ok(5) by simp
        with assms(1) \<open>htab_ok ht nss s\<close> assms(3,4) split(1,2,3) stop f ok(1) obtain ht' s' where
          "link_pair ht (int ?i) (last (0 # ys)) ?nxt q s1 = Inr (ht', s')" "represents ht' s' (f(?i := (f ?i)(k \<mapsto> ?v)))"
          by (rule htSet_new)
        then show ?thesis using set eq fnd ok(1) by simp
      next
        case lost0: (null s1)
        have e1: "entries s1 = entries s" "blobs s1 = blobs s" by (subst lost0(2), simp)+
        then have rep: "represents ht s1 f" using represents_live [OF assms(2) lost0(3)] by simp
        have "path (entries s1) (ht_table ht ! ?i) (ys @ zs) 0"
          using htab_okD(7) [OF ok split(1)] split(2) e1 by simp
        then have "link_pair ht (int ?i) (last (0 # ys)) ?nxt 0 s1 \<in> {Inl NullDeref, Inr (ht, s1)}"
          by (rule link_null [OF _ split(6)])
        then show ?thesis using null lost [OF _ rep none lost0(4)] eq fnd lost0(1) by auto
      qed
    qed
  qed
qed

lemma htSet_size:
  assumes "htSet al g ht k value sz s = Some (Inr (ht', s'))"
  shows "ht_size ht' = ht_size ht"
proof -
  have "ht_size h = ht_size ht" if "link_pair ht b p n q s1 = Inr (h, s2)" for b p n q h and s1 s2 :: "'a hst_scheme"
    using that by (auto simp: link_pair_def bind_res_eq_Inr split: if_splits)
  then show ?thesis
    using assms by (auto simp: htSet_def bind_res_eq_Inr split: sum.splits option.splits)
qed

lemma bin_of_size: "ht_size ht' = ht_size ht \<Longrightarrow> bin_of g ht' k = bin_of g ht k"
  by (simp add: bin_of_def)

end
