(* ===== verification/Hash_Map.thy ===== *)
theory Hash_Map
  imports Hash_Table
begin

text \<open>
  The hash table of the encryption server as a map: the interface of a store of values under
  keys, its interpretation by \<open>htSet\<close> and \<open>htGet\<close>, what the uninitialised variable of the
  hash function does to it, and the properties of \<open>clear_stack/hash.c\<close>.
\<close>

section \<open>The table as a map\<close>

text \<open>
  The interface of a store of values under keys: a state represents a map, a successful
  \<open>put\<close> updates it and \<open>look\<close> reads it. A client sees the last value it put.
\<close>
locale kv_store =
  fixes rep :: "'s \<Rightarrow> ('k \<Rightarrow> 'v option) \<Rightarrow> bool"
    and valid :: "'k \<Rightarrow> bool"
    and put :: "'k \<Rightarrow> 'v \<Rightarrow> 's \<Rightarrow> 's \<Rightarrow> bool"
    and look :: "'k \<Rightarrow> 's \<Rightarrow> 'v option"
  assumes put_rep: "rep s f \<Longrightarrow> put k v s s' \<Longrightarrow> \<exists>f'. rep s' f' \<and> (\<forall>j. valid j \<longrightarrow> f' j = (f(k \<mapsto> v)) j)"
    and look_rep: "rep s f \<Longrightarrow> valid k \<Longrightarrow> look k s = f k"
begin

inductive puts :: "('k \<times> 'v) list \<Rightarrow> 's \<Rightarrow> 's \<Rightarrow> bool" where
  none: "puts [] s s"
| more: "put k v s s1 \<Longrightarrow> puts kvs s1 s2 \<Longrightarrow> puts ((k, v) # kvs) s s2"

lemma puts_rep:
  "puts kvs s s' \<Longrightarrow> rep s f \<Longrightarrow> \<exists>f'. rep s' f' \<and> (\<forall>j. valid j \<longrightarrow> f' j = (f ++ map_of (rev kvs)) j)"
proof (induction arbitrary: f rule: puts.induct)
  case (more k v s s1 kvs s2)
  then obtain f1 where f1: "rep s1 f1" "\<forall>j. valid j \<longrightarrow> f1 j = (f(k \<mapsto> v)) j" using put_rep by blast
  with more.IH obtain f2 where "rep s2 f2" "\<forall>j. valid j \<longrightarrow> f2 j = (f1 ++ map_of (rev kvs)) j" by blast
  then show ?case using f1(2) by (intro exI [of _ f2]) (auto simp: map_add_def split: option.splits)
qed auto

lemma puts_look:
  assumes "puts kvs s s'" and "rep s f" and "valid k"
  shows "look k s' = (case map_of (rev kvs) k of None \<Rightarrow> f k | Some v \<Rightarrow> Some v)"
  using puts_rep [OF assms(1,2)] look_rep assms(3) by (auto simp: map_add_def split: option.splits)

end

section \<open>The hash function\<close>

text \<open>A key of plain characters: no NUL, and no byte that is negative as a \<open>char\<close>.\<close>
definition ascii :: "cstring \<Rightarrow> bool" where
  "ascii k \<longleftrightarrow> (\<forall>c \<in> set k. c \<noteq> 0 \<and> c < 128)"

lemma ascii_scast: "(c :: u8) < 128 \<Longrightarrow> (scast c :: u64) = ucast c"
proof -
  assume "c < 128"
  then have "uint c < 2 ^ 7" by (simp add: word_less_def)
  then have "sint c = uint c" by (simp add: sint_uint signed_take_bit_eq_if_positive bit_iff_odd take_bit_int_eq_self)
  then show ?thesis by (metis of_int_sint of_int_uint)
qed

lemma even_byte: "(c :: u8) < 128 \<Longrightarrow> push_bit 8 h + (ucast c :: u64) \<noteq> -1"
proof
  assume c: "c < 128" and eq: "push_bit 8 h + (ucast c :: u64) = -1"
  have a: "unat (push_bit 8 h) mod 256 = 0"
    by (simp add: push_bit_eq_mult unat_word_ariths mod_mod_cancel)
  have "unat (push_bit 8 h + (ucast c :: u64)) mod 256 = (unat (push_bit 8 h) + unat c) mod 256"
    unfolding unat_word_ariths(1) by (simp add: mod_mod_cancel)
  also have "\<dots> = unat c" using a unat_u8_less [of c] by (metis add_0 mod_add_left_eq mod_less)
  finally have "unat c = 255" unfolding eq by (simp add: unsigned_minus_1_eq_mask mask_eq_exp_minus_1)
  then show False using c by (simp add: word_less_nat_alt)
qed

text \<open>For such keys the initial content is shifted up and added.\<close>
lemma hash_loop_linear:
  assumes "ascii k" and "g \<noteq> -1"
  shows "hash_loop k g = g * 256 ^ length k + hash_loop k 0"
  using assms
proof (induction k arbitrary: g)
  case (Cons c k)
  have c: "c < 128" and k: "ascii k" using Cons.prems(1) by (auto simp: ascii_def)
  have step: "hash_loop (c # k) h = (push_bit 8 h + ucast c) * 256 ^ length k + hash_loop k 0" if "h \<noteq> -1" for h
    using Cons.IH [OF k even_byte [OF c]] that ascii_scast [OF c] by (simp add: word_order.not_eq_extremum)
  show ?case using step [OF Cons.prems(2)] step [of 0] by (simp add: push_bit_eq_mult algebra_simps)
qed simp

text \<open>
  Two contents of the variable that the hash function does not initialise which lead a key to
  the same bin: the same content, or any two when the key is long enough to shift them out.
\<close>
definition same_hash :: "u64 \<Rightarrow> u64 \<Rightarrow> cstring \<Rightarrow> bool" where
  "same_hash g g' k \<longleftrightarrow> g' = g \<or> (ascii k \<and> 8 \<le> length k \<and> g \<noteq> -1 \<and> g' \<noteq> -1)"

lemma hash_loop_long:
  assumes "ascii k" and "8 \<le> length k" and "g \<noteq> -1"
  shows "hash_loop k g = hash_loop k 0"
proof -
  have "(2 :: nat) ^ 64 dvd 256 ^ length k" using le_imp_power_dvd [OF assms(2), of "256 :: nat"] by simp
  then have "(of_nat (256 ^ length k) :: u64) = 0" by (simp only: word_of_nat_eq_0_iff) simp
  then have "(256 :: u64) ^ length k = 0" by simp
  then show ?thesis using hash_loop_linear [OF assms(1,3)] by simp
qed

lemma same_hash_bin: "same_hash g g' k \<Longrightarrow> bin_of g' ht k = bin_of g ht k"
  using hash_loop_long [of k g] hash_loop_long [of k g'] by (auto simp: same_hash_def bin_of_def)

section \<open>The table as a store\<close>

text \<open>
  The hash table is such a store as long as what is left in that variable leads every key to
  the bin that \<open>g\<close> leads it to.
\<close>

definition ht_rep :: "u64 \<Rightarrow> hashtable \<times> 'a hst_scheme \<Rightarrow> (cstring \<Rightarrow> u8 list option) \<Rightarrow> bool" where
  "ht_rep g st f \<longleftrightarrow> (\<exists>f0. represents (fst st) (snd st) f0 \<and> f = (\<lambda>k. f0 (bin_of g (fst st) k) k))"

definition ht_put :: "ualloc \<Rightarrow> u64 \<Rightarrow> cstring \<Rightarrow> u8 list \<Rightarrow> hashtable \<times> 'a hst_scheme \<Rightarrow> hashtable \<times> 'a hst_scheme \<Rightarrow> bool" where
  "ht_put al g k v st st' \<longleftrightarrow>
     ualloc_ok al \<and> c_str k \<and> value_ok v (int (length v)) \<and>
     mallocs_ok al [sizeof_htEntry, of_nat (length k + 1), of_nat (length v)] (snd st) \<and>
     htSet al g (fst st) k v (int (length v)) (snd st) = Some (Inr st')"

definition ht_put_any ::
  "ualloc \<Rightarrow> u64 \<Rightarrow> cstring \<Rightarrow> u8 list \<Rightarrow> hashtable \<times> 'a hst_scheme \<Rightarrow> hashtable \<times> 'a hst_scheme \<Rightarrow> bool" where
  "ht_put_any al g k v st st' \<longleftrightarrow> (\<exists>g'. same_hash g g' k \<and> ht_put al g' k v st st')"

definition ht_look :: "u64 \<Rightarrow> cstring \<Rightarrow> hashtable \<times> 'a hst_scheme \<Rightarrow> u8 list option" where
  "ht_look g k st =
     (case htGet g (fst st) k (snd st) of
        Some (Inr p) \<Rightarrow> if p = 0 then None else blobs (snd st) p
      | _ \<Rightarrow> None)"

interpretation ht: kv_store "ht_rep g :: hashtable \<times> 'a hst_scheme \<Rightarrow> _" c_str "ht_put_any al g" "ht_look g"
  for g al
proof unfold_locales
  show "\<exists>f'. ht_rep g st' f' \<and> (\<forall>j. c_str j \<longrightarrow> f' j = (f(k \<mapsto> v)) j)"
    if "ht_rep g st f" "ht_put_any al g k v st st'" for st st' :: "hashtable \<times> 'a hst_scheme" and f k v
  proof -
    note rep = that(1) and any = that(2)
    obtain g' where g': "same_hash g g' k" and put0: "ht_put al g' k v st st'" using any by (auto simp: ht_put_any_def)
    obtain ht s ht' s' where st: "st = (ht, s)" "st' = (ht', s')" by (cases st; cases st')
    obtain f0 where f0: "represents ht s f0" "f = (\<lambda>k. f0 (bin_of g ht k) k)"
      using rep by (auto simp: ht_rep_def st)
    note put = put0 [unfolded ht_put_def st fst_conv snd_conv]
    then have "represents ht' s' (f0(bin_of g' ht k := (f0 (bin_of g' ht k))(k \<mapsto> v)))"
      by (cases rule: htSet_cases [OF _ f0(1), of al v "int (length v)" k g']) auto
    then have "represents ht' s' (f0(bin_of g ht k := (f0 (bin_of g ht k))(k \<mapsto> v)))"
      unfolding same_hash_bin [OF g'] .
    moreover have "bin_of g ht' j = bin_of g ht j" for j using htSet_size bin_of_size put by metis
    ultimately show ?thesis unfolding ht_rep_def st f0(2) by (intro exI conjI) auto
  qed
  show "ht_look g k st = f k" if "ht_rep g st f" "c_str k" for st :: "hashtable \<times> 'a hst_scheme" and f k
  proof -
    note rep = that(1)
    obtain f0 where f0: "represents (fst st) (snd st) f0" "f = (\<lambda>k. f0 (bin_of g (fst st) k) k)"
      using rep by (auto simp: ht_rep_def)
    obtain p where "htGet g (fst st) k (snd st) = Some (Inr p)"
      "case f0 (bin_of g (fst st) k) k of None \<Rightarrow> p = 0 | Some v \<Rightarrow> p \<noteq> 0 \<and> blobs (snd st) p = Some v"
      using htGet_rep [OF f0(1) \<open>c_str k\<close>] by blast
    then show ?thesis using f0(2) by (simp add: ht_look_def split: option.splits)
  qed
qed

section \<open>Short keys\<close>

lemma hash_loop_small: "ascii k \<Longrightarrow> length k < 8 \<Longrightarrow> unat (hash_loop k 0) < 256 ^ length k"
proof (induction k rule: rev_induct)
  case (snoc c k)
  have c: "c < 128" and k: "ascii k" using snoc.prems(1) by (auto simp: ascii_def)
  have app: "hash_loop (k @ [c]) h = push_bit 8 (hash_loop k h) + ucast c" if "h \<noteq> -1" for h
    using k that
  proof (induction k arbitrary: h)
    case Nil
    then show ?case using ascii_scast [OF c] by (simp add: word_order.not_eq_extremum)
  next
    case (Cons d k)
    have "d < 128" "ascii k" using Cons.prems(1) by (auto simp: ascii_def)
    then show ?case
      using Cons.IH [OF \<open>ascii k\<close> even_byte [OF \<open>d < 128\<close>]] Cons.prems(2) ascii_scast [OF \<open>d < 128\<close>]
      by (simp add: word_order.not_eq_extremum)
  qed
  have IH: "unat (hash_loop k 0) < 256 ^ length k" using snoc k by simp
  have "(256 :: nat) ^ length k \<le> 256 ^ 6" using snoc.prems(2) by (intro power_increasing) auto
  then have "unat (hash_loop (k @ [c]) 0) = unat (hash_loop k 0) * 256 + unat c"
    using IH unat_u8_less [of c] by (simp add: app push_bit_eq_mult unat_word_ariths)
  then show ?case using IH unat_u8_less [of c] by simp
qed simp

text \<open>Ten bins: a 1 left behind in the variable moves every short key by six bins.\<close>
lemma short_key_moves:
  assumes "ascii k" and "length k < 8" and "ht_size ht = 10"
  shows "bin_of 1 ht k \<noteq> bin_of 0 ht k"
proof -
  let ?h = "unat (hash_loop k 0)" and ?p = "(256 :: nat) ^ length k"
  have "(256 :: nat) ^ length k \<le> 256 ^ 7" using assms(2) by (intro power_increasing) auto
  then have p7: "?p \<le> 256 ^ 7" .
  have "(256 :: u64) ^ length k = of_nat ?p" by simp
  then have p: "unat ((256 :: u64) ^ length k) = ?p" using p7 by (simp only: unat_of_nat) simp
  have h: "?h < ?p" using hash_loop_small [OF assms(1,2)] .
  have "unat (hash_loop k 1) = ?p + ?h"
    using hash_loop_linear [OF assms(1), of 1] h p p7 by (simp add: unat_word_ariths)
  moreover have "?p mod 5 = 1" using power_mod [of "256 :: nat" 5 "length k"] by simp
  moreover have "(p + h) mod 10 \<noteq> h mod 10" if "p mod 5 = 1" for p h :: nat
  proof
    assume "(p + h) mod 10 = h mod 10"
    then have "10 dvd p + h - h" using mod_eq_dvd_iff_nat [of h "p + h" 10] by simp
    then have "5 dvd p" by (metis add_diff_cancel_right' dvd_trans dvd_triv_left mult_2_right numeral_Bit0)
    then show False using that by auto
  qed
  ultimately have "unat (hash_loop k 1) mod 10 \<noteq> ?h mod 10" by simp
  then show ?thesis by (simp add: bin_of_def assms(3) unat_mod)
qed

section \<open>Properties\<close>

text \<open>
  Creating a table: a size below one is refused; otherwise the table has the requested
  number of bins, all empty, or the function returns NULL because an allocation failed.
\<close>
lemma htCreate_ok:
  assumes "sz < 2 ^ 31"
  shows "case htCreate al sz s of
      (None, s') \<Rightarrow> sz < 1 \<or> \<not> mallocs_ok al [sizeof_hashtable, 8 * word_of_int sz] s
    | (Some ht, s') \<Rightarrow> 1 \<le> sz \<and> ht_size ht = sz \<and> represents ht s' (\<lambda>_. Map.empty)"
proof (cases "sz < 1")
  case False
  let ?ht = "\<lparr>ht_size = sz, ht_table = replicate (nat sz) 0\<rparr>"
  have empty: "concat (replicate (nat sz) []) = []" by simp
  have "htab_ok ?ht (replicate (nat sz) []) s'" for s' :: "'a hst_scheme"
    unfolding htab_ok_def empty using False assms by (simp add: heap_wf_def sorted_keys_def)
  then have "represents ?ht s' (\<lambda>_. Map.empty)" for s' :: "'a hst_scheme"
    unfolding represents_def
    by (rule exI [of _ "replicate (nat sz) []", OF conjI]) (auto simp: bin_map_def fun_eq_iff)
  then show ?thesis using False by (auto simp: htCreate_def split: prod.splits)
qed (simp add: htCreate_def)


text \<open>
  C25. The table is a map as long as the variable that the hash function does not initialise
  leads every key to one bin, that is, if in all calls it holds the same value, or the key has
  at least eight plain characters and the value is not all ones: after any sequence of
  successful calls of \<open>htSet\<close> under this condition, \<open>htGet\<close> finds the bytes that were last stored
  under a key, and NULL for a key that was never set.
\<close>
theorem ht_last_value:
  assumes "represents ht s (\<lambda>_. Map.empty)" and "ht.puts al g kvs (ht, s) (ht', s')" and "c_str k"
    and "same_hash g g' k"
  shows "\<exists>p. htGet g' ht' k s' = Some (Inr p) \<and>
    (case map_of (rev kvs) k of None \<Rightarrow> p = 0 | Some v \<Rightarrow> p \<noteq> 0 \<and> blobs s' p = Some v)"
proof -
  have "ht_rep g (ht, s) Map.empty" using assms(1) by (auto simp: ht_rep_def)
  from ht.puts_rep [OF assms(2) this] obtain f' where
    "ht_rep g (ht', s') f'" "\<forall>j. c_str j \<longrightarrow> f' j = (Map.empty ++ map_of (rev kvs)) j" by blast
  then have "ht_rep g (ht', s') f'" "f' k = map_of (rev kvs) k" using assms(3) by auto
  then obtain f0 where "represents ht' s' f0" "f0 (bin_of g' ht' k) k = map_of (rev kvs) k"
    using same_hash_bin [OF assms(4)] by (auto simp: ht_rep_def)
  then show ?thesis using htGet_rep [OF _ assms(3), of ht' s' f0 g'] by simp
qed

text \<open>
  C34. What the uninitialised variable does. For a key of at least eight plain characters its
  content is shifted out, unless it was all ones, and the key has one bin. A shorter key has
  none: in a table of ten bins, as the server makes it, a 0 and a 1 left behind in the variable
  lead to different bins, so that a key that was just set is not found.
\<close>
theorem htHash_uninitialised:
  assumes "ascii k" and "ht_size ht = 10" and "ualloc_ok al" and "value_ok value sz"
    and "represents ht s (\<lambda>_. Map.empty)" and "htSet al 0 ht k value sz s = Some (Inr (ht', s'))"
  shows "if 8 \<le> length k then \<forall>g g'. g \<noteq> -1 \<and> g' \<noteq> -1 \<longrightarrow> htHash g ht k = htHash g' ht k
    else htGet 1 ht' k s' = Some (Inr 0)"
proof (cases "8 \<le> length k")
  case True
  note zero = hash_loop_long [OF assms(1) True]
  have "htHash g ht k = htHash g' ht k" if "g \<noteq> -1" "g' \<noteq> -1" for g g'
    unfolding htHash_def zero [OF that(1)] zero [OF that(2)] ..
  then show ?thesis using True by simp
next
  case False
  have c: "c_str k" using assms(1) by (auto simp: ascii_def c_str_def)
  have sz: "ht_size ht' = ht_size ht" using htSet_size [OF assms(6)] .
  have ne: "bin_of 1 ht' k \<noteq> bin_of 0 ht k"
    using short_key_moves [OF assms(1) _ assms(2)] bin_of_size [OF sz] False by simp
  from assms(3,5,4) c obtain f where f: "represents ht' s' f" "f (bin_of 1 ht' k) k = None"
    by (cases rule: htSet_cases [where g = 0]) (use assms(6) ne in auto)
  then show ?thesis using htGet_rep [OF f(1) c, of 1] False by auto
qed

section \<open>Witnesses\<close>

definition no_heap :: hst where
  "no_heap = \<lparr>ulive = [], umallocs = 0, entries = (\<lambda>_. None), blobs = (\<lambda>_. None)\<rparr>"

text \<open>A table of ten bins, and the name the client sends.\<close>
definition ten_bins :: hashtable where
  "ten_bins = \<lparr>ht_size = 10, ht_table = replicate 10 0\<rparr>"

definition f1 :: cstring where
  "f1 = [0x66, 0x31]"

lemma ten_bins_empty: "represents ten_bins no_heap (\<lambda>_. Map.empty)"
proof -
  have "htab_ok ten_bins (replicate 10 []) no_heap"
    by (simp add: htab_ok_def ten_bins_def heap_wf_def sorted_keys_def nth_Cons split: nat.splits)
  then show ?thesis
    unfolding represents_def
    by (rule exI [of _ "replicate 10 []", OF conjI])
      (auto simp: bin_map_def fun_eq_iff nth_Cons split: nat.splits)
qed

lemma f1_ok: "c_str f1" "ascii f1" "value_ok [1, 2, 3] 3"
  by (simp_all add: f1_def ascii_def value_ok_def)

lemma f1_bins: "bin_of 0 ten_bins f1 = 1"
  by (simp add: bin_of_def ten_bins_def f1_def push_bit_eq_mult unat_mod word_order.not_eq_extremum [symmetric])

lemma f1_set:
  "\<exists>ht' s'. htSet ubump 0 ten_bins f1 [1, 2, 3] 3 no_heap = Some (Inr (ht', s')) \<and>
     ht_put ubump 0 f1 [1, 2, 3] (ten_bins, no_heap) (ht', s')"
proof -
  have m: "mallocs_ok ubump [24, 3, 3] no_heap"
    by (simp add: malloc_def ubump_def no_heap_def Let_def)
  have h: "htHash 0 ten_bins f1 = Inr 1"
    using bin_ok(1) [of ten_bins 0 f1] f1_bins by (simp add: ten_bins_def)
  have w: "walk (entries no_heap) f1 0 0 = Some (Inr (0, 0))" by (subst walk.simps) simp
  have "\<exists>ht' s'. htSet ubump 0 ten_bins f1 [1, 2, 3] 3 no_heap = Some (Inr (ht', s'))"
    using h w by (simp add: htSet_def at_index_def ten_bins_def found_def htNewpair_def malloc_def ubump_def
        no_heap_def link_pair_def set_next_def Let_def sizeof_htEntry_def f1_def)
  then show ?thesis using m f1_ok ualloc_ok_ubump by (auto simp: ht_put_def sizeof_htEntry_def f1_def)
qed


text \<open>A key of eight characters, set with a 5 in the variable and asked for with a 9.\<close>
definition f8 :: cstring where
  "f8 = replicate 8 0x66"

lemma f8_ok: "c_str f8" "ascii f8" "same_hash 5 9 f8"
  by (simp_all add: f8_def ascii_def same_hash_def c_str_def)

lemma f8_bins: "bin_of 5 ten_bins f8 = 6"
  by (simp add: bin_of_def ten_bins_def f8_def push_bit_eq_mult unat_mod word_order.not_eq_extremum [symmetric])

lemma f8_set:
  "\<exists>ht' s'. htSet ubump 5 ten_bins f8 [1, 2, 3] 3 no_heap = Some (Inr (ht', s')) \<and>
     ht_put ubump 5 f8 [1, 2, 3] (ten_bins, no_heap) (ht', s')"
proof -
  have m: "mallocs_ok ubump [24, 9, 3] no_heap"
    by (simp add: malloc_def ubump_def no_heap_def Let_def)
  have h: "htHash 5 ten_bins f8 = Inr 6"
    using bin_ok(1) [of ten_bins 5 f8] f8_bins by (simp add: ten_bins_def)
  have w: "walk (entries no_heap) f8 0 0 = Some (Inr (0, 0))" by (subst walk.simps) simp
  have "\<exists>ht' s'. htSet ubump 5 ten_bins f8 [1, 2, 3] 3 no_heap = Some (Inr (ht', s'))"
    using h w by (simp add: htSet_def at_index_def ten_bins_def found_def htNewpair_def malloc_def ubump_def
        no_heap_def link_pair_def set_next_def Let_def sizeof_htEntry_def f8_def)
  then show ?thesis using m f8_ok f1_ok(3) ualloc_ok_ubump by (auto simp: ht_put_def sizeof_htEntry_def f8_def)
qed

theorem ht_last_value_witness:
  "\<exists>ht' s' p. htSet ubump 5 ten_bins f8 [1, 2, 3] 3 no_heap = Some (Inr (ht', s')) \<and>
     htGet 9 ht' f8 s' = Some (Inr p) \<and> blobs s' p = Some [1, 2, 3]"
proof -
  obtain ht' s' where s': "htSet ubump 5 ten_bins f8 [1, 2, 3] 3 no_heap = Some (Inr (ht', s'))"
    and p: "ht_put ubump 5 f8 [1, 2, 3] (ten_bins, no_heap) (ht', s')" using f8_set by blast
  have "ht_put_any ubump 5 f8 [1, 2, 3] (ten_bins, no_heap) (ht', s')"
    using p by (auto simp: ht_put_any_def same_hash_def)
  then have "ht.puts ubump 5 [(f8, [1, 2, 3])] (ten_bins, no_heap) (ht', s')"
    using ht.puts.intros by metis
  from ht_last_value [OF ten_bins_empty this f8_ok(1,3)] show ?thesis using s' by auto
qed

theorem htHash_uninitialised_witness:
  "\<exists>ht' s'. htSet ubump 0 ten_bins f1 [1, 2, 3] 3 no_heap = Some (Inr (ht', s')) \<and>
     htGet 1 ht' f1 s' = Some (Inr 0)"
proof -
  obtain ht' s' where s': "htSet ubump 0 ten_bins f1 [1, 2, 3] 3 no_heap = Some (Inr (ht', s'))"
    using f1_set by blast
  have "ht_size ten_bins = 10" by (simp add: ten_bins_def)
  from htHash_uninitialised [OF f1_ok(2) this ualloc_ok_ubump f1_ok(3) ten_bins_empty s'] show ?thesis
    using s' by (simp add: f1_def)
qed

end
