(* ===== verification/Pagemap.thy ===== *)
theory Pagemap
  imports Libc
begin

text \<open>
  The physical side of the encryption server, the first part of
  \<open>clear_stack/stack_encrypt_server.c\<close>: the frame of a virtual address from
  \<open>/proc/<pid>/pagemap\<close>, the physical areas of a stack, and the accesses to \<open>/dev/mem\<close>. The
  files are not part of the repository: what opening, seeking and reading them gives are the
  fields of the parameter \<open>os\<close>, and the physical memory behind \<open>/dev/mem\<close> is part of the state.
  What the functions print is left out, except for the page that \<open>read_memory_page\<close> shows.
\<close>

section \<open>The operating system\<close>

text \<open>
  \<open>pagemap path\<close> is \<open>None\<close> when \<open>fopen\<close> gives NULL; otherwise what \<open>fseek\<close> to an offset
  returns and the bytes \<open>fread\<close> of seven bytes gets there. \<open>dev_open\<close> is the descriptor of
  \<open>/dev/mem\<close> or \<open>-1\<close>; \<open>dev_lseek\<close> gives the new position or \<open>-1\<close>; \<open>dev_read\<close> and \<open>dev_write\<close>
  say how many of 4096 bytes are transferred at a position.
\<close>
record os =
  pagemap :: "cstring \<Rightarrow> ((u64 \<Rightarrow> int) \<times> (u64 \<Rightarrow> u8 list)) option"
  getpagesize :: int
  dev_open :: int
  dev_lseek :: "u64 \<Rightarrow> u64"
  dev_read :: "u64 \<Rightarrow> nat"
  dev_write :: "u64 \<Rightarrow> nat"

definition PAGEMAP_LENGTH :: u64 where "PAGEMAP_LENGTH = 8"

record sarea =
  page_frame :: "u64 option"
  sa_offset :: "u64 option"
  sa_len :: u64

section \<open>Frames\<close>

text \<open>The argument of \<open>%d\<close> is a \<open>size_t\<close>, of which the conversion takes the low 32 bits.\<close>
definition pagemap_path :: "u64 \<Rightarrow> cstring" where
  "pagemap_path pid =
     map of_char ''/proc/'' @ dec_int (sint (ucast pid :: u32)) @ map of_char ''/pagemap''"

text \<open>The bytes are read into the low end of a variable that was 0.\<close>
fun from_le :: "u8 list \<Rightarrow> u64" where
  "from_le [] = 0"
| "from_le (b # bs) = ucast b + 256 * from_le bs"

definition get_page_frame_number_of_address :: "'o os_scheme \<Rightarrow> u64 \<Rightarrow> addr \<Rightarrow> u64 run res" where
  "get_page_frame_number_of_address os pid a =
     (if 50 < length (pagemap_path pid) + 1 then Inl OutOfBounds
      else if getpagesize os = 0 then Inl DivByZero
      else case pagemap os (pagemap_path pid) of
        None \<Rightarrow> Inl NullDeref
      | Some (seek, bytes) \<Rightarrow>
          (let off = a div word_of_int (getpagesize os) * PAGEMAP_LENGTH
           in if seek off \<noteq> 0 then Inr (Exit 1)
              else Inr (Ret (from_le (take 7 (bytes off)) AND 0x7FFFFFFFFFFFFF))))"

text \<open>The loop of \<open>get_page_frames\<close>: the first other frame from \<open>tmp_addr\<close> on, or 0.\<close>
function other_frame :: "'o os_scheme \<Rightarrow> u64 \<Rightarrow> addr \<Rightarrow> u64 \<Rightarrow> addr \<Rightarrow> u64 run res" where
  "other_frame os pid lim pre_offset tmp_addr =
     (if tmp_addr < lim
      then bind_run (get_page_frame_number_of_address os pid tmp_addr) (\<lambda>off.
           if off \<noteq> pre_offset then Inr (Ret off) else other_frame os pid lim pre_offset (tmp_addr + 1))
      else Inr (Ret 0))"
  by pat_completeness auto
termination
proof (relation "measure (\<lambda>(os, pid, lim, pre, tmp). unat lim - unat tmp)", goal_cases)
  case (2 os pid lim pre tmp)
  then show ?case by (auto simp: unat_plus_1 word_less_nat_alt)
qed simp

declare other_frame.simps [simp del]

text \<open>The two elements of the array that is returned; \<open>malloc\<close> is not checked.\<close>
definition get_page_frames ::
  "ualloc \<Rightarrow> 'o os_scheme \<Rightarrow> u64 \<Rightarrow> addr \<Rightarrow> 'a process_scheme \<Rightarrow> ((u64 \<times> u64) \<times> 'a process_scheme) run res" where
  "get_page_frames al os pid a s =
     (let (ret, s1) = malloc al 16 s
      in bind_run (get_page_frame_number_of_address os pid a) (\<lambda>pre_offset.
         if ret = 0 then Inl NullDeref
         else bind_run (other_frame os pid (a + 4096) pre_offset (a + 1)) (\<lambda>other.
              Inr (Ret ((pre_offset, other), s1)))))"

section \<open>Areas of a stack\<close>

definition set_area :: "nat \<Rightarrow> sarea \<Rightarrow> sarea list \<Rightarrow> sarea list res" where
  "set_area i a ret = (if i < length ret then Inr (ret[i := a]) else Inl OutOfBounds)"

definition area_at :: "u64 \<Rightarrow> u64 \<Rightarrow> u64 \<Rightarrow> sarea" where
  "area_at frame off n = \<lparr>page_frame = Some frame, sa_offset = Some off, sa_len = n\<rparr>"

text \<open>The loop: \<open>i\<close>, \<open>pre_page_num\<close>, \<open>offset\<close>, \<open>top_addr\<close> and the array, from \<open>tmp_addr\<close> on.\<close>
function area_loop ::
  "'o os_scheme \<Rightarrow> u64 \<Rightarrow> addr \<Rightarrow> addr \<Rightarrow> nat \<Rightarrow> u64 \<Rightarrow> u64 \<Rightarrow> addr \<Rightarrow> sarea list
     \<Rightarrow> (addr \<times> nat \<times> u64 \<times> u64 \<times> addr \<times> sarea list) run res" where
  "area_loop os pid bottom tmp_addr i pre off base ret =
     (if tmp_addr < bottom
      then bind_run (get_page_frame_number_of_address os pid tmp_addr) (\<lambda>page_num.
           if page_num \<noteq> pre
           then bind_res (set_area i (area_at pre off (tmp_addr - base)) ret) (\<lambda>ret'.
                area_loop os pid bottom (tmp_addr + 1) (Suc i) page_num (tmp_addr mod 4096) tmp_addr ret')
           else area_loop os pid bottom (tmp_addr + 1) i pre off base ret)
      else Inr (Ret (tmp_addr, i, pre, off, base, ret)))"
  by pat_completeness auto
termination
proof (relation "measure (\<lambda>(os, pid, bottom, tmp, st). unat bottom - unat tmp)", goal_cases)
  case (2 os pid bottom tmp)
  then show ?case by (auto simp: unat_plus_1 word_less_nat_alt)
next
  case (3 os pid bottom tmp)
  then show ?case by (auto simp: unat_plus_1 word_less_nat_alt)
qed simp

declare area_loop.simps [simp del]

definition get_stack_areas ::
  "ualloc \<Rightarrow> 'o os_scheme \<Rightarrow> u64 \<Rightarrow> addr \<Rightarrow> addr \<Rightarrow> 'a process_scheme \<Rightarrow> (sarea list \<times> 'a process_scheme) run res" where
  "get_stack_areas al os pid top_addr bottom_addr s =
     (let (p, s1) = malloc al 240 s;
          ret = replicate 10 \<lparr>page_frame = None, sa_offset = None, sa_len = -1\<rparr>
      in if p = 0 then Inl NullDeref
      else bind_run (get_page_frame_number_of_address os pid top_addr) (\<lambda>page_num.
           bind_run (area_loop os pid bottom_addr (top_addr + 1) 0 page_num (top_addr mod 4096) top_addr ret)
             (\<lambda>(tmp_addr, i, pre, off, base, ret').
              bind_res (set_area i (area_at pre off (tmp_addr - base)) ret') (\<lambda>ret''. Inr (Ret (ret'', s1))))))"

section \<open>Physical memory\<close>

type_synonym phys = "u64 \<Rightarrow> u8"

definition safechar :: "u8 \<Rightarrow> u8" where
  "safechar c =
     (if 0x61 \<le> c \<and> c \<le> 0x7a then c
      else if 0x41 \<le> c \<and> c \<le> 0x5a then c
      else if 0x30 \<le> c \<and> c \<le> 0x39 then c
      else if c = 0x20 then c
      else if c = 0x2e then c
      else if c = 0x2d then c
      else if c = 0x2c then c
      else if c = 0x28 then c
      else if c = 0x29 then c
      else if c = 0x5b then c
      else if c = 0x5d then c
      else if c = 0x7b then c
      else if c = 0x7d then c
      else 0x40)"

text \<open>\<open>read\<close> at a position into a buffer of a page: the new buffer and position.\<close>
definition dev_mem_read :: "'o os_scheme \<Rightarrow> phys \<Rightarrow> u64 \<Rightarrow> u8 list \<Rightarrow> u8 list \<times> u64" where
  "dev_mem_read os ph pos buf =
     (let r = min 4096 (dev_read os pos)
      in (map (\<lambda>i. ph (pos + of_nat i)) [0 ..< r] @ drop r buf, pos + of_nat r))"

definition dev_mem_write :: "'o os_scheme \<Rightarrow> phys \<Rightarrow> u64 \<Rightarrow> u8 list \<Rightarrow> phys" where
  "dev_mem_write os ph pos buf = store_bytes ph pos (take (min 4096 (dev_write os pos)) buf)"

text \<open>A character printed with \<open>%2c\<close>.\<close>
definition char_cell :: "u8 \<Rightarrow> cstring" where
  "char_cell c = [0x20, safechar c]"

text \<open>The result and what is printed; \<open>buffer\<close> is what the local array happens to contain.\<close>
definition read_memory_page :: "'o os_scheme \<Rightarrow> u8 list \<Rightarrow> u64 \<Rightarrow> phys \<Rightarrow> int \<times> cstring" where
  "read_memory_page os buffer frame_num ph =
     (let fd = dev_open os
      in if fd = -1 then (fd, [])
      else let pos = dev_lseek os (frame_num * 4096)
      in if pos = -1 then (-1, [])
      else (fd, concat (map char_cell (fst (dev_mem_read os ph pos buffer))) @ [0x0a, 0x0a, 0x0a]))"

text \<open>The loop of the server's \<open>encrypt_stack\<close> over the array; the position is kept in an \<open>int\<close>.\<close>
fun encrypt_areas :: "'o os_scheme \<Rightarrow> sarea list \<Rightarrow> u8 list \<Rightarrow> phys \<Rightarrow> (int \<times> phys) res" where
  "encrypt_areas os [] buffer ph = Inr (0, ph)"
| "encrypt_areas os (t # ts) buffer ph =
     (if sa_len t \<noteq> -1
      then if dev_open os = -1 then Inr (-1, ph)
      else case page_frame t of
        None \<Rightarrow> Inl Uninitialised
      | Some frame \<Rightarrow>
          (let off = dev_lseek os (frame * 4096);
               pos = sint (ucast off :: u32)
           in if pos = -1 then Inr (pos, ph)
              else let (buffer', off') = dev_mem_read os ph off buffer
              in encrypt_areas os ts buffer' (dev_mem_write os ph off' buffer'))
      else encrypt_areas os ts buffer ph)"

definition srv_encrypt_stack ::
  "ualloc \<Rightarrow> 'o os_scheme \<Rightarrow> u8 list \<Rightarrow> u64 \<Rightarrow> addr \<Rightarrow> addr \<Rightarrow> phys \<Rightarrow> 'a process_scheme
     \<Rightarrow> (int \<times> phys \<times> 'a process_scheme) run res" where
  "srv_encrypt_stack al os buffer pid top_addr bottom_addr ph s =
     bind_run (get_stack_areas al os pid top_addr bottom_addr s) (\<lambda>(areas, s1).
     bind_res (encrypt_areas os areas buffer ph) (\<lambda>(r, ph'). Inr (Ret (r, ph', s1))))"

section \<open>Lemmas on frames\<close>

lemma length_dec: "n < 10 ^ Suc k \<Longrightarrow> length (dec n) \<le> Suc k"
proof (induction k arbitrary: n)
  case (Suc k)
  show ?case
  proof (cases "n < 10")
    case False
    have "n div 10 < 10 ^ Suc k" using Suc.prems by (simp add: div_less_iff_less_mult mult.commute)
    then have "length (dec (n div 10)) \<le> Suc k" by (rule Suc.IH)
    then show ?thesis using False by (subst dec.simps) simp
  qed (subst dec.simps, simp)
qed (subst dec.simps, simp)

text \<open>The path fits the array of fifty bytes.\<close>
lemma pagemap_path_fits: "length (pagemap_path pid) + 1 \<le> 50"
proof -
  let ?i = "sint (ucast pid :: u32)"
  have "- (2 ^ 31) \<le> ?i" "?i < 2 ^ 31" using sint_ge [of "ucast pid :: u32"] sint_lt [of "ucast pid :: u32"] by simp_all
  then have "nat ?i < 10 ^ Suc 9" "nat (- ?i) < 10 ^ Suc 9" by simp_all
  from this [THEN length_dec] have "length (dec_int ?i) \<le> 11" by (simp add: dec_int_def)
  then show ?thesis by (simp add: pagemap_path_def)
qed

lemma unat_from_le:
  "length bs \<le> 8 \<Longrightarrow> unat (from_le bs) < 256 ^ length bs \<and>
     (\<forall>b cs. bs = b # cs \<longrightarrow> unat (from_le bs) = unat b + 256 * unat (from_le cs))"
proof (induction bs)
  case (Cons b bs)
  then have IH: "unat (from_le bs) < 256 ^ length bs" by simp
  have "(256 :: nat) ^ length bs \<le> 256 ^ 7" using Cons.prems by (intro power_increasing) auto
  then have "unat (from_le (b # bs)) = unat b + 256 * unat (from_le bs)"
    using IH unat_u8_less [of b] by (simp add: unat_word_ariths)
  then show ?case using IH unat_u8_less [of b] by simp
qed simp

text \<open>The bytes of an entry of the file, as it is stored.\<close>
definition entry_bytes :: "nat \<Rightarrow> u64 \<Rightarrow> u8 list" where
  "entry_bytes k e = map (\<lambda>i. ucast (drop_bit (8 * i) e)) [0 ..< k]"

lemma from_le_entry: "k \<le> 8 \<Longrightarrow> unat (from_le (entry_bytes k e)) = unat e mod 256 ^ k"
proof (induction k arbitrary: e)
  case (Suc k)
  have "entry_bytes (Suc k) e = ucast e # entry_bytes k (drop_bit 8 e)"
    by (rule nth_equalityI) (auto simp: entry_bytes_def nth_Cons add.commute split: nat.splits simp del: upt_Suc)
  moreover have "unat (from_le (entry_bytes k (drop_bit 8 e))) = unat e div 256 mod 256 ^ k"
    using Suc by (simp add: drop_bit_eq_div unat_div)
  moreover have "unat (ucast e :: u8) = unat e mod 256" by (simp add: unsigned_ucast_eq take_bit_eq_mod)
  moreover have "length (entry_bytes (Suc k) e) \<le> 8" using Suc.prems by (simp add: entry_bytes_def)
  ultimately show ?case using unat_from_le [of "entry_bytes (Suc k) e"] by (simp add: mod_mult2_eq)
qed (simp add: entry_bytes_def)

text \<open>A pagemap whose entry for the \<open>n\<close>-th page is \<open>entry n\<close>, and which can be read everywhere.\<close>
definition pagemap_ok :: "'o os_scheme \<Rightarrow> u64 \<Rightarrow> (u64 \<Rightarrow> u64) \<Rightarrow> bool" where
  "pagemap_ok os pid entry \<longleftrightarrow> getpagesize os = 4096 \<and>
     (\<exists>seek bytes. pagemap os (pagemap_path pid) = Some (seek, bytes) \<and>
       (\<forall>n. unat n < 2 ^ 52 \<longrightarrow> seek (8 * n) = 0 \<and> take 7 (bytes (8 * n)) = entry_bytes 7 (entry n)))"

text \<open>The frame the kernel put into the entry: bits 0 to 54.\<close>
definition frame_of :: "(u64 \<Rightarrow> u64) \<Rightarrow> addr \<Rightarrow> u64" where
  "frame_of entry a = take_bit 55 (entry (a div 4096))"

lemma frame_lookup:
  assumes "pagemap_ok os pid entry"
  shows "get_page_frame_number_of_address os pid a = Inr (Ret (frame_of entry a))"
proof -
  let ?n = "a div 4096"
  have n: "unat ?n < 2 ^ 52" using unat_u64_less [of a] by (simp add: unat_div div_less_iff_less_mult)
  obtain seek bytes where f: "pagemap os (pagemap_path pid) = Some (seek, bytes)"
    "seek (8 * ?n) = 0" "take 7 (bytes (8 * ?n)) = entry_bytes 7 (entry ?n)"
    using assms n unfolding pagemap_ok_def by blast
  let ?v = "from_le (entry_bytes 7 (entry ?n))"
  have "unat ?v = unat (entry ?n) mod 2 ^ 56" using from_le_entry [of 7 "entry ?n"] by simp
  then have "unat ?v mod 2 ^ 55 = unat (entry ?n) mod 2 ^ 55" by (simp add: mod_mod_cancel)
  then have "take_bit 55 ?v = take_bit 55 (entry ?n)"
    by (simp only: word_unat_eq_iff take_bit_eq_mod unat_mod) simp
  moreover have "?v AND 0x7FFFFFFFFFFFFF = take_bit 55 ?v" by (simp add: take_bit_eq_mask mask_eq_exp_minus_1)
  ultimately show ?thesis
    using assms f pagemap_path_fits [of pid]
    by (simp add: get_page_frame_number_of_address_def pagemap_ok_def PAGEMAP_LENGTH_def frame_of_def mult.commute Let_def)
qed

section \<open>Areas as runs of one frame\<close>

text \<open>
  The areas \<open>rs\<close> cover the addresses from \<open>a\<close> up to \<open>b\<close>: each is a stretch of addresses with
  one frame, as long as it can be, with the offset of its first address in the page.
\<close>
fun tiles :: "(addr \<Rightarrow> u64) \<Rightarrow> addr \<Rightarrow> sarea list \<Rightarrow> addr \<Rightarrow> bool" where
  "tiles fr a [] b \<longleftrightarrow> a = b"
| "tiles fr a (r # rs) b \<longleftrightarrow>
     0 < sa_len r \<and> no_wrap a (sa_len r) \<and> page_frame r = Some (fr a) \<and> sa_offset r = Some (a mod 4096) \<and>
     (\<forall>d < sa_len r. fr (a + d) = fr a) \<and> (rs \<noteq> [] \<longrightarrow> fr (a + sa_len r) \<noteq> fr a) \<and>
     tiles fr (a + sa_len r) rs b"

text \<open>The loop as a function that gives the areas, \<open>n\<close> addresses left.\<close>
fun runs :: "(addr \<Rightarrow> u64) \<Rightarrow> addr \<Rightarrow> addr \<Rightarrow> nat \<Rightarrow> sarea list" where
  "runs fr base tmp 0 = [area_at (fr base) (base mod 4096) (tmp - base)]"
| "runs fr base tmp (Suc n) =
     (if fr tmp \<noteq> fr base then area_at (fr base) (base mod 4096) (tmp - base) # runs fr tmp (tmp + 1) n
      else runs fr base (tmp + 1) n)"

lemma runs_nonempty: "runs fr base tmp n \<noteq> []"
  by (induction n arbitrary: base tmp) auto

lemma stretch:
  assumes "base < (tmp :: u64)"
  shows "0 < tmp - base" and "no_wrap base (tmp - base)"
    and "d < tmp - base \<Longrightarrow> base \<le> base + d \<and> base + d < tmp"
proof -
  have u: "unat (tmp - base) = unat tmp - unat base" "unat base < unat tmp"
    using assms unat_sub [of base tmp] by (simp_all add: word_less_nat_alt word_le_nat_alt)
  then show "0 < tmp - base" by (simp add: word_less_nat_alt)
  show nw: "no_wrap base (tmp - base)" using u unat_u64_less [of tmp] by (simp add: no_wrap_def)
  assume d: "d < tmp - base"
  then have "unat (base + d) = unat base + unat d" by (intro no_wrap_unat_add [OF nw]) simp
  then show "base \<le> base + d \<and> base + d < tmp"
    using d u by (auto simp: word_le_nat_alt word_less_nat_alt)
qed

lemma tiles_area:
  assumes "base < tmp" and "\<And>x. base \<le> x \<Longrightarrow> x < tmp \<Longrightarrow> fr x = fr base"
    and "rs \<noteq> [] \<longrightarrow> fr tmp \<noteq> fr base" and "tiles fr tmp rs b"
  shows "tiles fr base (area_at (fr base) (base mod 4096) (tmp - base) # rs) b"
proof -
  have "fr (base + d) = fr base" if "d < tmp - base" for d using assms(2) stretch(3) [OF assms(1) that] by blast
  then show ?thesis unfolding tiles.simps using stretch(1,2) [OF assms(1)] assms(3,4) by (simp add: area_at_def)
qed

lemma runs_tiles:
  assumes "base < tmp" and "unat tmp + n < 2 ^ 64" and "\<And>x. base \<le> x \<Longrightarrow> x < tmp \<Longrightarrow> fr x = fr base"
  shows "tiles fr base (runs fr base tmp n) (tmp + of_nat n)"
  using assms
proof (induction n arbitrary: base tmp)
  case 0
  have "tiles fr base (area_at (fr base) (base mod 4096) (tmp - base) # []) tmp"
    by (rule tiles_area [of base tmp fr, OF 0(1,3)]) simp_all
  then show ?case by simp
next
  case (Suc n)
  have u: "unat (tmp + 1) = Suc (unat tmp)" using Suc.prems(2) by (simp add: unat_word_ariths)
  have up: "x < tmp + 1 \<longleftrightarrow> x < tmp \<or> x = tmp" for x
    using u by (auto simp: word_less_nat_alt word_unat_eq_iff)
  have e: "tmp + of_nat (Suc n) = tmp + 1 + of_nat n" by simp
  show ?case
  proof (cases "fr tmp = fr base")
    case True
    have "fr x = fr base" if "base \<le> x" "x < tmp + 1" for x
      using that True Suc.prems(3) up by blast
    moreover have "base < tmp + 1" "unat (tmp + 1) + n < 2 ^ 64"
      using Suc.prems(1,2) u by (simp_all add: word_less_nat_alt)
    ultimately have "tiles fr base (runs fr base (tmp + 1) n) (tmp + 1 + of_nat n)"
      using Suc.IH by blast
    then show ?thesis unfolding e using True by simp
  next
    case False
    have "fr x = fr tmp" if "tmp \<le> x" "x < tmp + 1" for x
      using that up by force
    moreover have "tmp < tmp + 1" "unat (tmp + 1) + n < 2 ^ 64"
      using Suc.prems(2) u by (simp_all add: word_less_nat_alt)
    ultimately have "tiles fr tmp (runs fr tmp (tmp + 1) n) (tmp + 1 + of_nat n)"
      using Suc.IH by blast
    then have "tiles fr base (area_at (fr base) (base mod 4096) (tmp - base) # runs fr tmp (tmp + 1) n) (tmp + 1 + of_nat n)"
      using tiles_area [of base tmp fr, OF Suc.prems(1,3)] False by blast
    then show ?thesis unfolding e using False by simp
  qed
qed

text \<open>The loop and the area behind it fill the array with the runs, if it is long enough.\<close>
lemma area_loop_runs:
  assumes "\<And>x. get_page_frame_number_of_address os pid x = Inr (Ret (fr x))"
    and "i \<le> length ret"
  shows "bind_run (area_loop os pid bottom tmp i (fr base) (base mod 4096) base ret)
      (\<lambda>(tmp', i', pre, off, base', ret'). bind_res (set_area i' (area_at pre off (tmp' - base')) ret') (\<lambda>r. Inr (Ret (g r)))) =
    (let rs = runs fr base tmp (unat bottom - unat tmp)
     in if i + length rs \<le> length ret then Inr (Ret (g (take i ret @ rs @ drop (i + length rs) ret))) else Inl OutOfBounds)"
  using assms(2)
proof (induction "unat bottom - unat tmp" arbitrary: tmp i base ret)
  case 0
  then have "\<not> tmp < bottom" by (simp add: word_less_nat_alt)
  then show ?case
    using 0 by (subst area_loop.simps) (auto simp: set_area_def upd_conv_take_nth_drop)
next
  case (Suc n)
  then have lt: "tmp < bottom" by (simp add: word_less_nat_alt)
  have n: "n = unat bottom - unat (tmp + 1)" using Suc.hyps(2) unat_plus_1 [OF lt] by simp
  let ?a = "area_at (fr base) (base mod 4096) (tmp - base)" and ?rs = "runs fr tmp (tmp + 1) n"
  show ?case
  proof (cases "fr tmp = fr base")
    case True
    then show ?thesis using Suc.hyps(1) [OF n Suc.prems] lt n Suc.hyps(2) by (subst area_loop.simps) (simp add: assms(1) flip: Suc.hyps(2))
  next
    case False
    show ?thesis
    proof (cases "i < length ret")
      case True
      then have "Suc i \<le> length (ret[i := ?a])" by simp
      from Suc.hyps(1) [OF n this, of tmp] True False lt n Suc.hyps(2) show ?thesis
        by (subst area_loop.simps) (auto simp: assms(1) set_area_def take_Suc_conv_app_nth Let_def simp flip: Suc.hyps(2))
    next
      case out: False
      then show ?thesis
        using False lt n Suc.hyps(2) by (subst area_loop.simps) (simp add: assms(1) set_area_def flip: Suc.hyps(2))
    qed
  qed
qed

section \<open>Properties of the areas\<close>

abbreviation no_area :: sarea where
  "no_area \<equiv> \<lparr>page_frame = None, sa_offset = None, sa_len = -1\<rparr>"

lemma stack_areas_runs:
  assumes "pagemap_ok os pid entry" and "malloc al 240 s = (p, s1)" and "p \<noteq> 0" and "base \<noteq> -1"
  obtains rs where "tiles (frame_of entry) base rs (max bottom (base + 1))"
    and "get_stack_areas al os pid base bottom s =
      (if length rs \<le> 10 then Inr (Ret (rs @ replicate (10 - length rs) no_area, s1)) else Inl OutOfBounds)"
proof -
  let ?fr = "frame_of entry" and ?n = "unat bottom - unat (base + 1)"
  have lt: "base < -1" using assms(4) by (simp add: word_order.not_eq_extremum)
  note u = unat_plus_1 [OF lt]
  have up: "x < base + 1 \<Longrightarrow> base \<le> x \<Longrightarrow> x = base" for x
    using u by (simp add: word_less_nat_alt word_le_nat_alt word_unat_eq_iff)
  have "tiles ?fr base (runs ?fr base (base + 1) ?n) (base + 1 + of_nat ?n)"
    by (rule runs_tiles) (use u up unat_u64_less [of bottom] unat_u64_less [of "base + 1"] in \<open>auto simp: word_less_nat_alt\<close>)
  moreover have "base + 1 + of_nat ?n = max bottom (base + 1)"
    by (auto simp: max_def word_le_nat_alt of_nat_diff)
  moreover have "get_stack_areas al os pid base bottom s = (let rs = runs ?fr base (base + 1) ?n
      in if length rs \<le> 10 then Inr (Ret (rs @ replicate (10 - length rs) no_area, s1)) else Inl OutOfBounds)"
    using area_loop_runs [of os pid ?fr 0 "replicate 10 no_area" bottom "base + 1" base "\<lambda>r. (r, s1)", OF frame_lookup [OF assms(1)]]
      assms(2,3)
    by (simp add: get_stack_areas_def frame_lookup [OF assms(1)] Let_def case_prod_beta del: replicate_num)
  ultimately show ?thesis using that by (simp add: Let_def)
qed

text \<open>
  C27. The physical areas of a stack cover it without gaps or overlaps: the areas are the longest
  stretches of addresses with one frame, in order, each with the frame that the pagemap names
  for it, and the unused elements of the array keep their mark. The array has ten elements; a
  stack with more areas is written beyond its end. An empty stack gives an area of one byte.
\<close>
theorem stack_areas_tile:
  assumes "pagemap_ok os pid entry" and "malloc al 240 s = (p, s1)" and "p \<noteq> 0" and "top_addr \<noteq> -1"
  shows "\<exists>rs. tiles (frame_of entry) top_addr rs (max bottom_addr (top_addr + 1)) \<and>
    get_stack_areas al os pid top_addr bottom_addr s =
      (if length rs \<le> 10 then Inr (Ret (rs @ replicate (10 - length rs) no_area, s1)) else Inl OutOfBounds)"
  by (rule stack_areas_runs [OF assms]) blast

text \<open>Neighbouring pages of the stack have different frames.\<close>
definition frames_differ :: "(addr \<Rightarrow> u64) \<Rightarrow> addr \<Rightarrow> addr \<Rightarrow> bool" where
  "frames_differ fr a b \<longleftrightarrow> (\<forall>x. a \<le> x \<and> x + 1 < b \<and> x mod 4096 = 4095 \<longrightarrow> fr (x + 1) \<noteq> fr x)"

lemma area_in_page:
  assumes "0 < n" and "no_wrap a n" and "unat a + unat n \<le> unat b" and "\<forall>d < n. fr (a + d) = fr a"
    and "frames_differ fr a b"
  shows "unat (a mod 4096) + unat n \<le> 4096"
proof (rule ccontr)
  assume "\<not> ?thesis"
  then have big: "4096 < unat a mod 4096 + unat n" by (simp add: unat_mod)
  define k where "k = 4095 - unat a mod 4096"
  have r: "unat a mod 4096 + k = 4095" by (simp add: k_def)
  then have kn: "k + 1 < unat n" using big by linarith
  let ?d = "of_nat k :: u64"
  have k: "unat ?d = k" "unat (?d + 1) = k + 1"
    using kn unat_u64_less [of n] by (simp_all add: unat_of_nat unat_word_ariths)
  then have d: "?d < n" "?d + 1 < n" using kn by (simp_all add: word_less_nat_alt)
  then have u: "unat (a + ?d) = unat a + k" "unat (a + (?d + 1)) = unat a + k + 1"
    using no_wrap_unat_add [OF assms(2), of ?d] no_wrap_unat_add [OF assms(2), of "?d + 1"] k by simp_all
  have "(unat a + k) mod 4096 = (unat a mod 4096 + k) mod 4096" by (simp only: mod_add_left_eq)
  then have "unat (a + ?d) mod 4096 = 4095" unfolding u(1) r by simp
  then have "(a + ?d) mod 4096 = 4095" by (simp add: word_unat_eq_iff unat_mod)
  moreover have "a \<le> a + ?d" "a + ?d + 1 < b" using u kn assms(3) by (simp_all add: word_le_nat_alt word_less_nat_alt add.assoc)
  ultimately have "fr (a + ?d + 1) \<noteq> fr (a + ?d)" using assms(5) unfolding frames_differ_def by blast
  then show False using assms(4) d by (metis add.assoc)
qed

lemma tiles_bound: "tiles fr a rs b \<Longrightarrow> unat a \<le> unat b"
proof (induction rs arbitrary: a)
  case (Cons r rs)
  have "unat (a + sa_len r) \<le> unat b" using Cons by simp
  moreover have "unat (a + sa_len r) = unat a + unat (sa_len r)"
    using Cons.prems no_wrap_unat_add [of a "sa_len r" "sa_len r"] by simp
  ultimately show ?case by simp
qed simp

lemma tiles_in_page:
  assumes "tiles fr a rs b" and "frames_differ fr a b" and "r \<in> set rs"
  shows "\<exists>f d. page_frame r = Some f \<and> sa_offset r = Some d \<and> unat d + unat (sa_len r) \<le> 4096"
  using assms
proof (induction rs arbitrary: a)
  case (Cons q rs)
  have t: "0 < sa_len q" "no_wrap a (sa_len q)" "\<forall>d < sa_len q. fr (a + d) = fr a" "tiles fr (a + sa_len q) rs b"
    "page_frame q = Some (fr a)" "sa_offset q = Some (a mod 4096)" using Cons.prems(1) by auto
  have u: "unat (a + sa_len q) = unat a + unat (sa_len q)" using no_wrap_unat_add [OF t(2)] by simp
  then have "a \<le> a + sa_len q" by (simp add: word_le_nat_alt)
  then have "frames_differ fr (a + sa_len q) b" using Cons.prems(2) unfolding frames_differ_def by (meson order_trans)
  moreover have "unat a + unat (sa_len q) \<le> unat b" using tiles_bound [OF t(4)] u by simp
  ultimately show ?case
    using Cons.IH [OF t(4)] Cons.prems(3) area_in_page [OF t(1,2) _ t(3) Cons.prems(2)] t(5,6) by auto
qed simp

text \<open>
  C29. When neighbouring pages of the stack have different frames, every area lies within one
  page: its offset and length do not reach beyond the page, so its bytes are those of the
  frame that is named.
\<close>
theorem areas_within_pages:
  assumes "pagemap_ok os pid entry" and "top_addr < bottom_addr"
    and "frames_differ (frame_of entry) top_addr bottom_addr"
    and "get_stack_areas al os pid top_addr bottom_addr s = Inr (Ret (areas, s'))"
  shows "\<forall>r \<in> set areas. sa_len r \<noteq> -1 \<longrightarrow>
    (\<exists>f d. page_frame r = Some f \<and> sa_offset r = Some d \<and> unat d + unat (sa_len r) \<le> 4096)"
proof -
  obtain p s1 where m: "malloc al 240 s = (p, s1)" by fastforce
  then have p: "p \<noteq> 0" using assms(4) by (auto simp: get_stack_areas_def)
  have "top_addr \<noteq> -1" using assms(2) by (auto simp: word_order.not_eq_extremum [symmetric])
  from assms(1) m p this obtain rs where rs: "tiles (frame_of entry) top_addr rs (max bottom_addr (top_addr + 1))"
    "get_stack_areas al os pid top_addr bottom_addr s =
      (if length rs \<le> 10 then Inr (Ret (rs @ replicate (10 - length rs) no_area, s1)) else Inl OutOfBounds)"
    by (rule stack_areas_runs)
  have "max bottom_addr (top_addr + 1) = bottom_addr" using plus_1_le [OF assms(2)] by (simp add: max_def)
  then show ?thesis using rs assms(3,4) tiles_in_page by (fastforce split: if_splits)
qed

section \<open>The frames of a page of addresses\<close>

lemma other_frame_first:
  assumes "\<And>x. get_page_frame_number_of_address os pid x = Inr (Ret (fr x))"
    and "\<And>x. tmp \<le> x \<Longrightarrow> x < lim \<Longrightarrow> fr x = pre \<or> fr x = f" and "tmp \<le> lim"
  shows "other_frame os pid lim pre tmp = Inr (Ret (if \<exists>x. tmp \<le> x \<and> x < lim \<and> fr x \<noteq> pre then f else 0))"
  using assms(2,3)
proof (induction "unat lim - unat tmp" arbitrary: tmp)
  case 0
  then have "tmp = lim" by (simp add: word_le_nat_alt word_unat_eq_iff)
  then show ?case by (subst other_frame.simps) auto
next
  case (Suc n)
  then have lt: "tmp < lim" by (simp add: word_less_nat_alt)
  have n: "n = unat lim - unat (tmp + 1)" using Suc.hyps(2) unat_plus_1 [OF lt] by simp
  have up: "tmp \<le> x \<longleftrightarrow> x = tmp \<or> tmp + 1 \<le> x" for x
    using unat_plus_1 [OF lt] by (auto simp: word_le_nat_alt word_unat_eq_iff)
  show ?case
  proof (cases "fr tmp = pre")
    case True
    have "other_frame os pid lim pre (tmp + 1) =
        Inr (Ret (if \<exists>x. tmp + 1 \<le> x \<and> x < lim \<and> fr x \<noteq> pre then f else 0))"
      using Suc.hyps(1) [OF n] Suc.prems(1) up plus_1_le [OF lt] by blast
    then show ?thesis using True lt up assms(1) by (subst other_frame.simps) auto
  next
    case False
    then have "fr tmp = f" using Suc.prems(1) [of tmp] lt by auto
    then show ?thesis using False lt assms(1) by (subst other_frame.simps) auto
  qed
qed

lemma page_or_next:
  assumes "a \<le> -4097" and "a \<le> x" and "x < a + (4096 :: u64)"
  shows "x div 4096 = a div 4096 \<or> x div 4096 = (a + 4095) div 4096"
proof -
  have u: "unat (a + 4096) = unat a + 4096" "unat (a + 4095) = unat a + 4095"
    using assms(1) by (simp_all add: word_le_nat_alt unat_word_ariths)
  have "unat a \<le> unat x" "unat x < unat a + 4096" using assms(2,3) u by (simp_all add: word_le_nat_alt word_less_nat_alt)
  then have "unat x div 4096 = unat a div 4096 \<or> unat x div 4096 = (unat a + 4095) div 4096" by linarith
  then show ?thesis using u(2) by (simp add: word_unat_eq_iff unat_div)
qed

text \<open>
  C30. The frame of an address is what bits 0 to 54 of its pagemap entry hold, although only seven
  bytes of the entry are read; and the two frames that \<open>get_page_frames\<close> gives for the 4096
  addresses from \<open>a\<close> on are those of its first and last address, with 0 for the second when
  they are the same.
\<close>
theorem page_frames_found:
  assumes "pagemap_ok os pid entry" and "malloc al 16 s = (p, s1)" and "p \<noteq> 0" and "a \<le> -4097"
  shows "get_page_frame_number_of_address os pid a = Inr (Ret (take_bit 55 (entry (a div 4096)))) \<and>
    get_page_frames al os pid a s = Inr (Ret ((frame_of entry a,
      if frame_of entry (a + 4095) \<noteq> frame_of entry a then frame_of entry (a + 4095) else 0), s1))"
proof (rule conjI)
  let ?fr = "frame_of entry"
  note fr = frame_lookup [OF assms(1)]
  show "get_page_frame_number_of_address os pid a = Inr (Ret (take_bit 55 (entry (a div 4096))))"
    using fr by (simp add: frame_of_def)
  have u: "unat (a + 4096) = unat a + 4096" "unat (a + 4095) = unat a + 4095" "unat (a + 1) = unat a + 1"
    using assms(4) by (simp_all add: word_le_nat_alt unat_word_ariths)
  then have o: "a + 1 \<le> a + 4096" "a + 1 \<le> a + 4095" "a + 4095 < a + 4096" by (simp_all add: word_le_nat_alt word_less_nat_alt)
  have two: "?fr x = ?fr a \<or> ?fr x = ?fr (a + 4095)" if "a + 1 \<le> x" "x < a + 4096" for x
    using page_or_next [OF assms(4), of x] that u by (auto simp: frame_of_def word_le_nat_alt)
  have "other_frame os pid (a + 4096) (?fr a) (a + 1) =
      Inr (Ret (if \<exists>x. a + 1 \<le> x \<and> x < a + 4096 \<and> ?fr x \<noteq> ?fr a then ?fr (a + 4095) else 0))"
    using fr two o(1) by (rule other_frame_first)
  moreover have "(\<exists>x. a + 1 \<le> x \<and> x < a + 4096 \<and> ?fr x \<noteq> ?fr a) \<longleftrightarrow> ?fr (a + 4095) \<noteq> ?fr a"
    using two o(2,3) by metis
  ultimately show "get_page_frames al os pid a s = Inr (Ret ((?fr a, if ?fr (a + 4095) \<noteq> ?fr a then ?fr (a + 4095) else 0), s1))"
    using assms(2,3) fr by (simp add: get_page_frames_def)
qed

section \<open>What the server does to physical memory\<close>

text \<open>The contents of a frame, written onto the frame behind it.\<close>
definition copy_page :: "u64 \<Rightarrow> phys \<Rightarrow> phys" where
  "copy_page f ph = (\<lambda>x. if x - (f + 1) * 4096 < 4096 then ph (x - 4096) else ph x)"

definition dev_full :: "'o os_scheme \<Rightarrow> bool" where
  "dev_full os \<longleftrightarrow> dev_open os \<noteq> -1 \<and> (\<forall>p. dev_lseek os p = p \<and> 4096 \<le> dev_read os p \<and> 4096 \<le> dev_write os p)"

definition used_frames :: "sarea list \<Rightarrow> u64 list" where
  "used_frames areas = map (\<lambda>r. the (page_frame r)) (filter (\<lambda>r. sa_len r \<noteq> -1) areas)"

lemma page_not_minus_1: "sint (ucast (f * 4096 :: u64) :: u32) \<noteq> -1"
proof
  assume "sint (ucast (f * 4096 :: u64) :: u32) = -1"
  then have "(ucast (f * 4096 :: u64) :: u32) = -1" by (subst word_eq_iff_signed) simp
  then have "bit (ucast (f * 4096 :: u64) :: u32) 0" by simp
  then have "bit (f * 4096) 0" by (simp add: bit_simps)
  then show False by (simp add: bit_0)
qed

lemma write_behind:
  assumes "dev_full os"
  shows "(case dev_mem_read os ph (f * 4096) buf of (b, off) \<Rightarrow> dev_mem_write os ph off b) = copy_page f ph"
proof
  fix x :: u64
  have "unat (x - (f + 1) * 4096) < 4096 \<Longrightarrow> f * 4096 + of_nat (unat (x - (f + 1) * 4096)) = x - 4096"
    by (simp add: algebra_simps)
  moreover have "y < 4096 \<longleftrightarrow> unat y < 4096" for y :: u64 by (simp add: word_less_nat_alt)
  moreover have "f * 4096 + of_nat 4096 = (f + 1) * 4096" by (simp add: algebra_simps)
  moreover have "min 4096 (dev_read os p) = 4096" "min 4096 (dev_write os p) = 4096" for p
    using assms by (simp_all add: dev_full_def min_def)
  ultimately show "(case dev_mem_read os ph (f * 4096) buf of (b, off) \<Rightarrow> dev_mem_write os ph off b) x = copy_page f ph x"
    by (simp add: dev_mem_read_def dev_mem_write_def copy_page_def store_bytes_def Let_def del: of_nat_numeral)
qed

lemma encrypt_areas_copies:
  assumes "dev_full os" and "\<forall>r \<in> set ts. sa_len r \<noteq> -1 \<longrightarrow> page_frame r \<noteq> None"
  shows "encrypt_areas os ts buf ph = Inr (0, fold copy_page (used_frames ts) ph)"
  using assms(2)
proof (induction ts arbitrary: buf ph)
  case (Cons t ts)
  have d: "dev_open os \<noteq> -1" "dev_lseek os p = p" for p using assms(1) by (simp_all add: dev_full_def)
  show ?case
  proof (cases "sa_len t = -1")
    case True
    then show ?thesis using Cons by (simp add: used_frames_def)
  next
    case False
    then obtain f where f: "page_frame t = Some f" using Cons.prems by auto
    obtain b off where r: "dev_mem_read os ph (f * 4096) buf = (b, off)" by fastforce
    have "dev_mem_write os ph off b = copy_page f ph" using write_behind [OF assms(1), of ph f buf] r by simp
    then show ?thesis
      using False f d r Cons page_not_minus_1 [of f] by (simp add: used_frames_def Let_def)
  qed
qed (simp add: used_frames_def)

lemma copies_elsewhere:
  "(\<forall>f \<in> set fs. \<not> x - (f + 1) * 4096 < 4096) \<Longrightarrow> fold copy_page fs ph x = ph x"
  by (induction fs arbitrary: ph) (auto simp: copy_page_def)

lemma tiles_frames: "tiles fr a rs b \<Longrightarrow> r \<in> set rs \<Longrightarrow> page_frame r \<noteq> None"
  by (induction rs arbitrary: a) auto

text \<open>
  C28. With a physical memory device that can be read and written everywhere, the server's
  \<open>encrypt_stack\<close> returns 0 and encrypts nothing: a page is read, left as it is, and written
  where the read has stopped, onto the frame behind it. The memory changes in those following
  frames and nowhere else.
\<close>
theorem server_copies_pages:
  assumes "pagemap_ok os pid entry" and "dev_full os" and "top_addr < bottom_addr"
    and "get_stack_areas al os pid top_addr bottom_addr s = Inr (Ret (areas, s1))"
  shows "\<exists>ph'. srv_encrypt_stack al os buffer pid top_addr bottom_addr ph s = Inr (Ret (0, ph', s1)) \<and>
    ph' = fold copy_page (used_frames areas) ph \<and>
    (\<forall>x. (\<forall>f \<in> set (used_frames areas). \<not> x - (f + 1) * 4096 < 4096) \<longrightarrow> ph' x = ph x)"
proof -
  obtain p s2 where m: "malloc al 240 s = (p, s2)" by fastforce
  then have p: "p \<noteq> 0" using assms(4) by (auto simp: get_stack_areas_def)
  have "top_addr \<noteq> -1" using assms(3) by (auto simp: word_order.not_eq_extremum [symmetric])
  from assms(1) m p this obtain rs where rs: "tiles (frame_of entry) top_addr rs (max bottom_addr (top_addr + 1))"
    "get_stack_areas al os pid top_addr bottom_addr s =
      (if length rs \<le> 10 then Inr (Ret (rs @ replicate (10 - length rs) no_area, s2)) else Inl OutOfBounds)"
    by (rule stack_areas_runs)
  then have "\<forall>r \<in> set areas. sa_len r \<noteq> -1 \<longrightarrow> page_frame r \<noteq> None"
    using tiles_frames [OF rs(1)] assms(4) by (fastforce split: if_splits)
  note encrypt_areas_copies [OF assms(2) this, of buffer ph]
  then show ?thesis using assms(4) copies_elsewhere by (simp add: srv_encrypt_stack_def)
qed

section \<open>A pagemap and a device\<close>

text \<open>The page number \<open>n\<close> is in the frame \<open>2 n\<close>, present (bit 63) and soft-dirty (bit 55).\<close>
definition demo_entry :: "u64 \<Rightarrow> u64" where
  "demo_entry n = 0x8080000000000000 + 2 * n"

definition demo_os :: os where
  "demo_os = \<lparr>pagemap = \<lambda>_. Some (\<lambda>_. 0, \<lambda>off. entry_bytes 7 (demo_entry (off div 8))), getpagesize = 4096,
     dev_open = 3, dev_lseek = id, dev_read = \<lambda>_. 4096, dev_write = \<lambda>_. 4096\<rparr>"

definition demo_process :: process where
  "demo_process = \<lparr>ulive = [], umallocs = 0\<rparr>"

lemma demo_pagemap: "pagemap_ok demo_os pid demo_entry"
proof -
  have "8 * n div 8 = n" if "unat n < 2 ^ 52" for n :: u64
    using that by (simp add: word_unat_eq_iff unat_div unat_word_ariths)
  then show ?thesis by (simp add: pagemap_ok_def demo_os_def entry_bytes_def)
qed

lemma demo_malloc: "malloc ubump n demo_process = (0x10000, \<lparr>ulive = [0x10000], umallocs = 1\<rparr>)"
  by (simp add: malloc_def ubump_def demo_process_def)

lemma demo_areas:
  "get_stack_areas ubump demo_os 7 0x1FFE 0x2003 demo_process =
     Inr (Ret (area_at 2 0xFFE 2 # area_at 4 0 3 # replicate 8 no_area, \<lparr>ulive = [0x10000], umallocs = 1\<rparr>))"
  by (simp add: get_stack_areas_def demo_malloc frame_lookup [OF demo_pagemap] frame_of_def demo_entry_def area_loop.simps
      set_area_def take_bit_eq_mod)

lemma demo_frames: "frames_differ (frame_of demo_entry) 0x1FFE 0x2003"
proof -
  have "x = 0x1FFF \<or> x = -1" if "0x1FFE \<le> x" "x + 1 < 0x2003" "x mod 4096 = 4095" for x :: u64
  proof (cases "x = -1")
    case False
    then have "unat (x + 1) = unat x + 1" using unat_plus_1 [of x "-1"] by (simp add: word_order.not_eq_extremum)
    then have "0x1FFE \<le> unat x" "unat x < 0x2002" using that(1,2) by (simp_all add: word_le_nat_alt word_less_nat_alt)
    moreover have "unat x mod 4096 = 4095" using arg_cong [OF that(3), of unat] by (simp add: unat_mod)
    then obtain q where q: "unat x = 4096 * q + 4095" by (metis mult_div_mod_eq)
    ultimately have "q = 1" by arith
    then have "unat x = 0x1FFF" using q by simp
    then show ?thesis by (simp add: word_unat_eq_iff)
  qed simp
  moreover have "frame_of demo_entry (x + 1) \<noteq> frame_of demo_entry x" if "x = 0x1FFF \<or> x = -1" for x
    using that by (auto simp: frame_of_def demo_entry_def take_bit_eq_mod)
  ultimately show ?thesis unfolding frames_differ_def by blast
qed

theorem stack_areas_tile_witness:
  "\<exists>rs. tiles (frame_of demo_entry) 0x1FFE rs (max 0x2003 (0x1FFE + 1)) \<and>
    get_stack_areas ubump demo_os 7 0x1FFE 0x2003 demo_process =
      (if length rs \<le> 10 then Inr (Ret (rs @ replicate (10 - length rs) no_area, \<lparr>ulive = [0x10000], umallocs = 1\<rparr>))
       else Inl OutOfBounds)"
  using stack_areas_tile [OF demo_pagemap [of 7] demo_malloc, of "0x1FFE" "0x2003"] by simp

theorem areas_within_pages_witness:
  "\<exists>f d. page_frame (area_at 2 0xFFE 2) = Some f \<and> sa_offset (area_at 2 0xFFE 2) = Some d \<and>
     unat d + unat (sa_len (area_at 2 0xFFE 2)) \<le> 4096"
  using areas_within_pages [OF demo_pagemap _ demo_frames demo_areas] by (simp add: area_at_def)

theorem page_frames_found_witness:
  "get_page_frame_number_of_address demo_os 7 0x1FFE = Inr (Ret (take_bit 55 (demo_entry (0x1FFE div 4096)))) \<and>
   get_page_frames ubump demo_os 7 0x1FFE demo_process = Inr (Ret ((2, 4), \<lparr>ulive = [0x10000], umallocs = 1\<rparr>))"
proof -
  have "(0x1FFE :: u64) \<le> -4097" "(0x10000 :: u64) \<noteq> 0" by simp_all
  note page_frames_found [OF demo_pagemap [of 7] demo_malloc this(2,1)]
  then show ?thesis by (simp add: frame_of_def demo_entry_def take_bit_eq_mod)
qed

theorem server_copies_pages_witness:
  "\<exists>ph'. srv_encrypt_stack ubump demo_os [] 7 0x1FFE 0x2003 (\<lambda>x. ucast (x div 4096)) demo_process =
      Inr (Ret (0, ph', \<lparr>ulive = [0x10000], umallocs = 1\<rparr>)) \<and> ph' 0x2FFE = 2 \<and> ph' 0x3000 = 2 \<and> ph' 0x5FFF = 4"
proof -
  have d: "dev_full demo_os" by (simp add: dev_full_def demo_os_def)
  have "used_frames (area_at 2 0xFFE 2 # area_at 4 0 3 # replicate 8 no_area) = [2, 4]"
    by (simp add: used_frames_def area_at_def)
  then show ?thesis
    using server_copies_pages [OF demo_pagemap d _ demo_areas, of "[]" "\<lambda>x. ucast (x div 4096)"]
    by (auto simp: copy_page_def)
qed

end
