(* ===== verification/Server.thy ===== *)
theory Server
  imports Hash_Map Pagemap
begin

text \<open>
  The programs on the two ends of the socket: \<open>main\<close> of \<open>clear_stack/stack_encrypt_server.c\<close>,
  and \<open>request_encrypt_stack\<close> and \<open>main\<close> of \<open>clear_stack/stack_encrypt_client.c\<close>. What the
  calls to the socket give is a parameter: a list of connections for the server, and the
  results of each call for the client. The server's loop never ends by itself; it is followed
  for as many connections as there are. A result \<open>None\<close> is one of a table operation that does
  not end, \<open>Exit\<close> is the end of the process.
\<close>

section \<open>Server\<close>

record htvalue =
  hv_op :: u8
  hv_rsp :: u64
  hv_rbp :: u64

text \<open>The 24 bytes of the structure; the seven bytes of padding are what the heap contained.\<close>
definition htvalue_bytes :: "u8 list \<Rightarrow> htvalue \<Rightarrow> u8 list" where
  "htvalue_bytes pad v =
     [hv_op v] @ map (\<lambda>i. if i < length pad then pad ! i else 0) [0 ..< 7] @ entry_bytes 8 (hv_rsp v) @ entry_bytes 8 (hv_rbp v)"

text \<open>
  A connection: what \<open>accept\<close> returns, what \<open>recv\<close> returns and stores, and what the variables
  that the code does not initialise happen to contain: \<open>hashval\<close> in \<open>htHash\<close>, the padding of
  the \<open>htvalue\<close> and the page buffer in \<open>encrypt_stack\<close>.
\<close>
record conn =
  c_fd :: int
  c_n :: int
  c_bytes :: "u8 list"
  c_hashval :: u64
  c_pad :: "u8 list"
  c_page :: "u8 list"

record srv =
  sv_table :: "hashtable option"
  sv_heap :: hst
  sv_phys :: phys
  sv_str :: "u8 list"

record request =
  rq_op :: u8
  rq_name :: cstring
  rq_pid :: u64
  rq_rsp :: u64
  rq_rbp :: u64
  rq_mark :: u8

text \<open>A token that is used at once: NULL is dereferenced.\<close>
definition next_token :: "u8 list \<Rightarrow> nat \<Rightarrow> (cstring \<times> u8 list \<times> nat) res" where
  "next_token str pos = bind_res (strtok str pos) (\<lambda>(t, str', pos').
     case t of None \<Rightarrow> Inl NullDeref | Some w \<Rightarrow> Inr (w, str', pos'))"

text \<open>
  The five words of a request. \<open>rq_mark\<close> is the character \<open>*p\<close> that is tested afterwards, where
  \<open>p\<close> is the last token. The copy of the name is allocated and never freed.
\<close>
definition parse_request :: "ualloc \<Rightarrow> u8 list \<Rightarrow> 'a process_scheme \<Rightarrow> (request \<times> u8 list \<times> 'a process_scheme) res" where
  "parse_request al str s =
     bind_res (next_token str 0) (\<lambda>(op, str1, p1).
     bind_res (next_token str1 p1) (\<lambda>(name, str2, p2).
     let (func_name, s1) = malloc al (of_nat (length name + 1)) s
     in if func_name = 0 then Inl NullDeref
     else
     bind_res (next_token str2 p2) (\<lambda>(pid, str3, p3).
     bind_res (next_token str3 p3) (\<lambda>(rsp, str4, p4).
     bind_res (next_token str4 p4) (\<lambda>(rbp, str5, p5).
     Inr (\<lparr>rq_op = hd op, rq_name = name, rq_pid = word_of_int (atol pid), rq_rsp = word_of_int (atol rsp),
           rq_rbp = word_of_int (atol rbp), rq_mark = hd rbp\<rparr>, str5, s1))))))"

text \<open>The branch for 'e': the value is stored with the size of a pointer to it.\<close>
definition do_encrypt ::
  "ualloc \<Rightarrow> 'o os_scheme \<Rightarrow> conn \<Rightarrow> request \<Rightarrow> hashtable option \<Rightarrow> phys \<Rightarrow> hst
     \<Rightarrow> (hashtable option \<times> phys \<times> hst) run res option" where
  "do_encrypt al os c r table ph s =
     (let (htv, s1) = malloc al 24 s
      in if htv = 0 then Some (Inl NullDeref)
      else case table of
        None \<Rightarrow> Some (Inl NullDeref)
      | Some ht \<Rightarrow>
          (case htSet al (c_hashval c) ht (rq_name r)
                  (htvalue_bytes (c_pad c) \<lparr>hv_op = rq_op r, hv_rsp = rq_rsp r, hv_rbp = rq_rbp r\<rparr>) 8 s1 of
             None \<Rightarrow> None
           | Some (Inl e) \<Rightarrow> Some (Inl e)
           | Some (Inr (ht', s2)) \<Rightarrow>
               Some (bind_run (srv_encrypt_stack al os (c_page c) (rq_pid r) (rq_rsp r) (rq_rbp r) ph s2)
                 (\<lambda>(ret, ph', s3). Inr (Ret (Some ht', ph', s3))))))"

text \<open>The branch for 'd': an unknown name leaves the loop, which ends the server.\<close>
definition do_decrypt ::
  "conn \<Rightarrow> request \<Rightarrow> hashtable option \<Rightarrow> hst \<Rightarrow> unit run res option" where
  "do_decrypt c r table s =
     (case table of
        None \<Rightarrow> Some (Inl NullDeref)
      | Some ht \<Rightarrow>
          map_option (\<lambda>res. bind_res res (\<lambda>v. if v = 0 then Inr (Exit 0) else Inr (Ret ())))
            (htGet (c_hashval c) ht (rq_name r) s))"

text \<open>
  One turn of the loop: the next state and what is sent back. A \<open>recv\<close> that fails or gets
  nothing only prints; the buffer is then used as it was.
\<close>
definition serve_one :: "ualloc \<Rightarrow> 'o os_scheme \<Rightarrow> conn \<Rightarrow> srv \<Rightarrow> (srv \<times> u8 list) run res option" where
  "serve_one al os c sv =
     (if c_fd c = -1 then Some (Inr (Exit 1))
      else let str = c_bytes c @ drop (length (c_bytes c)) (sv_str sv)
      in case parse_request al str (sv_heap sv) of
        Inl e \<Rightarrow> Some (Inl e)
      | Inr (r, str', s1) \<Rightarrow>
          let reply = (\<lambda>sv'. if c_n c < 0 then Inl OutOfBounds else Inr (Ret (sv', take (nat (c_n c)) str')));
              sv1 = sv\<lparr>sv_heap := s1, sv_str := str'\<rparr>
          in if rq_mark r = 0x65
             then map_option (\<lambda>res. bind_run res (\<lambda>(table, ph, s2).
                    reply (sv1\<lparr>sv_table := table, sv_phys := ph, sv_heap := s2\<rparr>)))
                    (do_encrypt al os c r (sv_table sv) (sv_phys sv) s1)
             else if rq_mark r = 0x64
             then map_option (\<lambda>res. bind_run res (\<lambda>_. reply sv1)) (do_decrypt c r (sv_table sv) s1)
             else Some (reply sv1))"

text \<open>The replies to the connections, one after the other.\<close>
fun serve :: "ualloc \<Rightarrow> 'o os_scheme \<Rightarrow> conn list \<Rightarrow> srv \<Rightarrow> (srv \<times> u8 list list) run res option" where
  "serve al os [] sv = Some (Inr (Ret (sv, [])))"
| "serve al os (c # cs) sv =
     (case serve_one al os c sv of
        None \<Rightarrow> None
      | Some (Inl e) \<Rightarrow> Some (Inl e)
      | Some (Inr (Exit k)) \<Rightarrow> Some (Inr (Exit k))
      | Some (Inr (Ret (sv', out))) \<Rightarrow>
          map_option (\<lambda>res. bind_run res (\<lambda>(sv'', outs). Inr (Ret (sv'', out # outs)))) (serve al os cs sv'))"

text \<open>\<open>str\<close> is what the array of the server happens to contain at first.\<close>
definition server_main ::
  "ualloc \<Rightarrow> 'o os_scheme \<Rightarrow> int \<Rightarrow> int \<Rightarrow> int \<Rightarrow> conn list \<Rightarrow> u8 list \<Rightarrow> phys \<Rightarrow> hst \<Rightarrow> (srv \<times> u8 list list) run res option" where
  "server_main al os sock bound listening cs str ph s =
     (let (ht, s1) = htCreate al 10 s
      in if sock = -1 then Some (Inr (Exit 1))
         else if bound = -1 then Some (Inr (Exit 1))
         else if listening = -1 then Some (Inr (Exit 1))
         else serve al os cs \<lparr>sv_table = ht, sv_heap = s1, sv_phys = ph, sv_str = str\<rparr>)"

section \<open>Client\<close>

record net =
  n_socket :: int
  n_connect :: int
  n_send :: int
  n_recv :: int
  n_bytes :: "u8 list"

text \<open>\<open>%d\<close> takes the low 32 bits of the \<open>size_t\<close>, and \<open>%lld\<close> prints the addresses as signed.\<close>
definition request_text :: "u64 \<Rightarrow> addr \<Rightarrow> addr \<Rightarrow> cstring" where
  "request_text pid top_addr bottom_addr =
     map of_char ''e f1 '' @ dec_int (sint (ucast pid :: u32)) @ [0x20] @ dec_int (sint top_addr) @ [0x20] @
     dec_int (sint bottom_addr) @ [0x0a]"

text \<open>The array after \<open>sprintf\<close>, \<open>recv\<close> and the NUL behind the answer; \<open>str\<close> is its first content.\<close>
definition request_encrypt_stack :: "net \<Rightarrow> u8 list \<Rightarrow> u64 \<Rightarrow> addr \<Rightarrow> addr \<Rightarrow> (int \<times> cstring \<times> u8 list) run res" where
  "request_encrypt_stack net str pid top_addr bottom_addr =
     (let msg = request_text pid top_addr bottom_addr
      in if n_socket net = -1 then Inr (Exit 1)
      else if n_connect net = -1 then Inr (Exit 1)
      else if 100 < length msg + 1 then Inl OutOfBounds
      else let str1 = msg @ [0] @ drop (length msg + 1) str
      in if n_send net = -1 then Inr (Exit 1)
      else if 0 < n_recv net
      then let str2 = n_bytes net @ drop (length (n_bytes net)) str1
           in if 100 \<le> n_recv net then Inl OutOfBounds
              else Inr (Ret (0, msg, str2[nat (n_recv net) := 0]))
      else Inr (Exit 1))"

fun fill_arr :: "nat \<Rightarrow> u8 list" where
  "fill_arr 0 = []"
| "fill_arr (Suc n) = fill_arr n @ [0x61]"

text \<open>
  \<open>pid\<close> is a variable that is never written; \<open>j\<close> is the number that is read. An array of no
  elements or fewer is out of bounds. The array and the answer are what the program shows.
\<close>
definition client_main :: "net \<Rightarrow> u8 list \<Rightarrow> u32 \<Rightarrow> int \<Rightarrow> u64 \<Rightarrow> u64 \<Rightarrow> (u8 list \<times> cstring \<times> u8 list) run res" where
  "client_main net str pid j rsp rbp =
     (if j \<le> 0 then Inl OutOfBounds
      else let arr = fill_arr (nat j)
      in bind_run (request_encrypt_stack net str (scast (pid + 2)) rsp rbp) (\<lambda>(ret, msg, answer).
         Inr (Ret (arr, msg, answer))))"

section \<open>Requests\<close>

lemma next_token_word:
  assumes "length pre = pos" and "word_ok w" and "c = 0x20 \<or> c = 0"
  shows "next_token (pre @ w @ c # rest) pos =
    Inr (w, pre @ w @ 0 # rest, if c = 0 then pos + length w else Suc (pos + length w))"
proof -
  have "drop pos (pre @ w @ c # rest) = w @ c # rest" using assms(1) by simp
  from strtok_word(1) [OF this assms(2,3)] show ?thesis
    using assms(1) by (simp add: next_token_def list_update_append)
qed

lemma next_token_open:
  assumes "length pre = pos" and "word_ok w"
  shows "next_token (pre @ w) pos = Inl OutOfBounds"
proof -
  obtain a as where w: "w = a # as" "a \<noteq> 0x20" "a \<noteq> 0" using assms(2) by (cases w) (auto simp: word_ok_def)
  have "takeWhile (\<lambda>c. c \<noteq> 0x20 \<and> c \<noteq> 0) w = w"
    using assms(2) by (simp add: takeWhile_eq_all_conv word_ok_def) metis
  then have "takeWhile (\<lambda>c. c \<noteq> 0x20 \<and> c \<noteq> 0) as = as" using w by simp
  note arg_cong [OF this, of length]
  then show ?thesis using assms(1) w by (simp add: next_token_def strtok_def nth_append Let_def)
qed

text \<open>Four words, each followed by a space; what is left is the fifth.\<close>
lemma parse_four:
  assumes "word_ok w1" and "word_ok w2" and "word_ok w3" and "word_ok w4"
    and "malloc al (of_nat (length w2 + 1)) s = (p, s1)" and "p \<noteq> 0"
  shows "parse_request al (w1 @ 0x20 # w2 @ 0x20 # w3 @ 0x20 # w4 @ 0x20 # r) s =
    bind_res (next_token (w1 @ 0 # w2 @ 0 # w3 @ 0 # w4 @ 0 # r) (length w1 + length w2 + length w3 + length w4 + 4))
      (\<lambda>(w5, str5, p5). Inr (\<lparr>rq_op = hd w1, rq_name = w2, rq_pid = word_of_int (atol w3),
        rq_rsp = word_of_int (atol w4), rq_rbp = word_of_int (atol w5), rq_mark = hd w5\<rparr>, str5, s1))"
proof -
  have 1: "next_token (w1 @ 0x20 # r) 0 = Inr (w1, w1 @ 0 # r, Suc (length w1))" for r
    using next_token_word [of "[]" 0 w1 "0x20" r] assms(1) by simp
  have 2: "next_token (w1 @ 0 # w2 @ 0x20 # r) (Suc (length w1)) = Inr (w2, w1 @ 0 # w2 @ 0 # r, length w1 + length w2 + 2)" for r
    using next_token_word [of "w1 @ [0]" "Suc (length w1)" w2 "0x20" r] assms(2) by simp
  have 3: "next_token (w1 @ 0 # w2 @ 0 # w3 @ 0x20 # r) (length w1 + length w2 + 2) =
      Inr (w3, w1 @ 0 # w2 @ 0 # w3 @ 0 # r, length w1 + length w2 + length w3 + 3)" for r
    using next_token_word [of "w1 @ 0 # w2 @ [0]" "length w1 + length w2 + 2" w3 "0x20" r] assms(3) by simp
  have 4: "next_token (w1 @ 0 # w2 @ 0 # w3 @ 0 # w4 @ 0x20 # r) (length w1 + length w2 + length w3 + 3) =
      Inr (w4, w1 @ 0 # w2 @ 0 # w3 @ 0 # w4 @ 0 # r, length w1 + length w2 + length w3 + length w4 + 4)" for r
    using next_token_word [of "w1 @ 0 # w2 @ 0 # w3 @ [0]" "length w1 + length w2 + length w3 + 3" w4 "0x20" r] assms(4) by simp
  show ?thesis using 1 2 3 4 assms(5,6) by (auto simp: parse_request_def simp del: One_nat_def)
qed

lemma parse_five:
  assumes "word_ok w1" and "word_ok w2" and "word_ok w3" and "word_ok w4" and "word_ok w5"
    and "malloc al (of_nat (length w2 + 1)) s = (p, s1)" and "p \<noteq> 0"
  shows "c = 0x20 \<or> c = 0 \<Longrightarrow> parse_request al (w1 @ 0x20 # w2 @ 0x20 # w3 @ 0x20 # w4 @ 0x20 # w5 @ c # rest) s =
    Inr (\<lparr>rq_op = hd w1, rq_name = w2, rq_pid = word_of_int (atol w3), rq_rsp = word_of_int (atol w4),
          rq_rbp = word_of_int (atol w5), rq_mark = hd w5\<rparr>,
         w1 @ 0 # w2 @ 0 # w3 @ 0 # w4 @ 0 # w5 @ 0 # rest, s1)"
    and "parse_request al (w1 @ 0x20 # w2 @ 0x20 # w3 @ 0x20 # w4 @ 0x20 # w5) s = Inl OutOfBounds"
  using next_token_word [of "w1 @ 0 # w2 @ 0 # w3 @ 0 # w4 @ [0]" "length w1 + length w2 + length w3 + length w4 + 4" w5 c rest]
    next_token_open [of "w1 @ 0 # w2 @ 0 # w3 @ 0 # w4 @ [0]" "length w1 + length w2 + length w3 + length w4 + 4" w5]
    assms(5) parse_four [OF assms(1-4,6,7)]
  by simp_all

lemma word_ok_dec: "word_ok (dec n)"
proof -
  have "\<not> is_digit 0x20" "\<not> is_digit 0" by (simp_all add: is_digit_def)
  then show ?thesis using dec_digits dec_nonempty unfolding word_ok_def by metis
qed

lemma word_ok_dec_int: "word_ok (dec_int i)"
  using word_ok_dec by (auto simp: dec_int_def word_ok_def)

lemma dec_head: "is_digit (hd (dec n))"
  using dec_nonempty dec_digits by (meson hd_in_set)

lemma dec_int_head: "hd (dec_int i) \<noteq> 0x65 \<and> hd (dec_int i) \<noteq> 0x64"
proof -
  have "\<not> is_digit 0x65" "\<not> is_digit 0x64" by (simp_all add: is_digit_def)
  then show ?thesis using dec_head by (auto simp: dec_int_def) metis+
qed

lemma long_range: "- (2 ^ 63) \<le> sint (x :: u64)" "sint x < 2 ^ 63"
  using sint_ge [of x] sint_lt [of x] by simp_all

lemma sint_pid_range: "- (2 ^ 63) \<le> sint (x :: u32)" "sint x < 2 ^ 63"
  using sint_ge [of x] sint_lt [of x] by simp_all

lemma no_spaces: "word_ok w \<Longrightarrow> map (\<lambda>c. if c = 0x20 then 0 else c) w = w"
  by (auto simp: word_ok_def intro: map_idI)

text \<open>What the server makes of the client's request.\<close>
definition client_request :: "u64 \<Rightarrow> addr \<Rightarrow> addr \<Rightarrow> request" where
  "client_request pid rsp rbp =
     \<lparr>rq_op = 0x65, rq_name = f1, rq_pid = scast (ucast pid :: u32), rq_rsp = rsp, rq_rbp = rbp,
      rq_mark = hd (dec_int (sint rbp))\<rparr>"

lemma request_words:
  "request_text pid rsp rbp =
     [0x65] @ 0x20 # f1 @ 0x20 # dec_int (sint (ucast pid :: u32)) @ 0x20 # dec_int (sint rsp) @ 0x20 #
     (dec_int (sint rbp) @ [0x0a])"
  by (simp add: request_text_def f1_def)

lemma request_round_trip_eq:
  assumes "malloc al 3 s = (p, s1)" and "p \<noteq> 0"
  shows "parse_request al (request_text pid rsp rbp @ tail) s =
    (if \<exists>c \<in> set tail. c = 0x20 \<or> c = 0
     then Inr (client_request pid rsp rbp,
       map (\<lambda>c. if c = 0x20 then 0 else c) (request_text pid rsp rbp) @ takeWhile (\<lambda>c. c \<noteq> 0x20 \<and> c \<noteq> 0) tail @
       0 # tl (dropWhile (\<lambda>c. c \<noteq> 0x20 \<and> c \<noteq> 0) tail), s1)
     else Inl OutOfBounds)"
proof -
  let ?P = "\<lambda>c :: u8. c \<noteq> 0x20 \<and> c \<noteq> 0"
  let ?p = "dec_int (sint (ucast pid :: u32))" and ?u = "takeWhile ?P tail"
  let ?b = "dec_int (sint rbp) @ 0x0a # ?u"
  have b: "word_ok ?b" using word_ok_dec_int [of "sint rbp"] by (auto simp: word_ok_def dest: set_takeWhileD)
  have f: "word_ok [0x65]" "word_ok f1" by (simp_all add: word_ok_def f1_def)
  have m: "malloc al (of_nat (length f1 + 1)) s = (p, s1)" using assms(1) by (simp add: f1_def)
  note parse = parse_five [OF f word_ok_dec_int [of "sint (ucast pid :: u32)"] word_ok_dec_int [of "sint rsp"] b m assms(2)]
  have nums: "atol ?p = sint (ucast pid :: u32)" "atol (dec_int (sint rsp)) = sint rsp" "atol ?b = sint rbp"
    using atol_dec_int [OF sint_pid_range, of "[]"] atol_dec_int [OF long_range, of "[]"]
      atol_dec_int [OF long_range, of "0x0a # ?u"] by (simp_all add: is_digit_def)
  have str: "request_text pid rsp rbp @ tail =
      [0x65] @ 0x20 # f1 @ 0x20 # ?p @ 0x20 # dec_int (sint rsp) @ 0x20 # ?b @ dropWhile ?P tail"
    by (simp add: request_words)
  have spaces: "map (\<lambda>c. if c = 0x20 then 0 else c) (request_text pid rsp rbp) =
      [0x65] @ 0 # f1 @ 0 # ?p @ 0 # dec_int (sint rsp) @ 0 # dec_int (sint rbp) @ [0x0a]"
    by (simp add: request_words no_spaces word_ok_dec_int f)
  show ?thesis
  proof (cases "dropWhile ?P tail")
    case Nil
    then have "\<not> (\<exists>c \<in> set tail. c = 0x20 \<or> c = 0)" by (simp add: dropWhile_eq_Nil_conv)
    then show ?thesis using parse(2) unfolding str Nil by simp
  next
    case (Cons c rest)
    then have "c \<in> set (dropWhile ?P tail)" by simp
    then have c: "c \<in> set tail" by (rule set_dropWhileD)
    have c': "c = 0x20 \<or> c = 0" using hd_dropWhile [of ?P tail] Cons by simp
    have "hd ?b = hd (dec_int (sint rbp))" using word_ok_dec_int [of "sint rbp"] by (simp add: word_ok_def)
    then have r: "\<lparr>rq_op = hd [0x65], rq_name = f1, rq_pid = word_of_int (atol ?p), rq_rsp = word_of_int (atol (dec_int (sint rsp))),
        rq_rbp = word_of_int (atol ?b), rq_mark = hd ?b\<rparr> = client_request pid rsp rbp"
      unfolding client_request_def nums by (simp add: of_int_sint)
    have "parse_request al (request_text pid rsp rbp @ tail) s =
        Inr (client_request pid rsp rbp, [0x65] @ 0 # f1 @ 0 # ?p @ 0 # dec_int (sint rsp) @ 0 # ?b @ 0 # rest, s1)"
      unfolding str Cons using parse(1) [OF c', of rest] unfolding r .
    then show ?thesis unfolding spaces Cons using c c' by auto
  qed
qed

section \<open>Properties of the server\<close>

lemma length_dec_int: "\<bar>i\<bar> < 10 ^ Suc k \<Longrightarrow> length (dec_int i) \<le> Suc (Suc k)"
  using length_dec [of "nat \<bar>i\<bar>" k] by (auto simp: dec_int_def nat_less_iff)

lemma request_length: "length (request_text pid rsp rbp) \<le> 59"
proof -
  have "\<bar>sint (x :: u64)\<bar> < 10 ^ Suc 18" for x using long_range [of x] by auto
  moreover have "\<bar>sint (x :: u32)\<bar> < 10 ^ Suc 9" for x using sint_ge [of x] sint_lt [of x] by auto
  ultimately show ?thesis
    using length_dec_int [of "sint (ucast pid :: u32)" 9] length_dec_int [of "sint rsp" 18] length_dec_int [of "sint rbp" 18]
    by (simp add: request_text_def)
qed

text \<open>A connection over which the client's request comes in one piece.\<close>
definition client_conn :: "conn \<Rightarrow> bool" where
  "client_conn c \<longleftrightarrow> c_fd c \<noteq> -1 \<and> c_n c = int (length (c_bytes c)) \<and> (\<exists>pid rsp rbp. c_bytes c = request_text pid rsp rbp)"

definition echo :: "conn \<Rightarrow> u8 list" where
  "echo c = map (\<lambda>ch. if ch = 0x20 then 0 else ch) (c_bytes c)"

text \<open>An end of the last word at a place that no request reaches.\<close>
definition end_behind :: "u8 list \<Rightarrow> bool" where
  "end_behind str \<longleftrightarrow> (\<exists>i < length str. 59 \<le> i \<and> (str ! i = 0x20 \<or> str ! i = 0))"

lemma cut_keeps:
  assumes "i < length t" and "t ! i = 0x20 \<or> t ! i = (0 :: u8)"
  shows "let u = takeWhile (\<lambda>c. c \<noteq> 0x20 \<and> c \<noteq> 0) t @ 0 # tl (dropWhile (\<lambda>c. c \<noteq> 0x20 \<and> c \<noteq> 0) t)
    in i < length u \<and> (u ! i = 0x20 \<or> u ! i = 0)"
  using assms
proof (induction t arbitrary: i)
  case (Cons a t)
  then show ?case by (cases i) (auto simp: Let_def)
qed simp

lemma serve_client:
  assumes "client_conn c" and "end_behind (sv_str sv)" and "malloc al 3 (sv_heap sv) = (p, s1)" and "p \<noteq> 0"
  obtains str' where "serve_one al os c sv = Some (Inr (Ret (sv\<lparr>sv_heap := s1, sv_str := str'\<rparr>, echo c)))"
    and "end_behind str'"
proof -
  obtain pid rsp rbp where b: "c_bytes c = request_text pid rsp rbp" using assms(1) by (auto simp: client_conn_def)
  let ?n = "length (c_bytes c)"
  let ?t = "drop ?n (sv_str sv)"
  let ?u = "takeWhile (\<lambda>c. c \<noteq> 0x20 \<and> c \<noteq> 0) ?t @ 0 # tl (dropWhile (\<lambda>c. c \<noteq> 0x20 \<and> c \<noteq> 0) ?t)"
  have n: "?n \<le> 59" using request_length b by metis
  obtain i where i: "i < length (sv_str sv)" "59 \<le> i" "sv_str sv ! i = 0x20 \<or> sv_str sv ! i = 0"
    using assms(2) by (auto simp: end_behind_def)
  then have t: "i - ?n < length ?t" "?t ! (i - ?n) = 0x20 \<or> ?t ! (i - ?n) = 0" using n by auto
  then have "\<exists>ch \<in> set ?t. ch = 0x20 \<or> ch = 0" by (meson nth_mem)
  then have parse: "parse_request al (c_bytes c @ ?t) (sv_heap sv) = Inr (client_request pid rsp rbp, echo c @ ?u, s1)"
    using request_round_trip_eq [OF assms(3,4), of pid rsp rbp ?t] b by (simp add: echo_def)
  have "rq_mark (client_request pid rsp rbp) \<noteq> 0x65" "rq_mark (client_request pid rsp rbp) \<noteq> 0x64"
    using dec_int_head by (simp_all add: client_request_def)
  then have "serve_one al os c sv = Some (Inr (Ret (sv\<lparr>sv_heap := s1, sv_str := echo c @ ?u\<rparr>, echo c)))"
    using assms(1) parse by (simp add: serve_one_def client_conn_def echo_def Let_def)
  moreover have "end_behind (echo c @ ?u)"
    unfolding end_behind_def using cut_keeps [OF t] i n
    by (intro exI [of _ i]) (auto simp: Let_def echo_def nth_append)
  ultimately show ?thesis using that by blast
qed

text \<open>
  C26. What the client sends, the server reads: the words of the request are the operation, the
  name and the numbers the client printed, although addresses above \<open>2^63\<close> are printed as
  negative numbers; of the process id the low 32 bits come back, extended with their sign. This
  needs a space or a NUL in the part of the array that the request leaves; without one the
  search for the end of the last word runs out of the array. After the request the spaces in it
  are NULs.
\<close>
theorem request_round_trip:
  assumes "malloc al 3 s = (p, s1)" and "p \<noteq> 0"
  shows "parse_request al (request_text pid rsp rbp @ tail) s =
    (if \<exists>c \<in> set tail. c = 0x20 \<or> c = 0
     then Inr (client_request pid rsp rbp,
       map (\<lambda>c. if c = 0x20 then 0 else c) (request_text pid rsp rbp) @ takeWhile (\<lambda>c. c \<noteq> 0x20 \<and> c \<noteq> 0) tail @
       0 # tl (dropWhile (\<lambda>c. c \<noteq> 0x20 \<and> c \<noteq> 0) tail), s1)
     else Inl OutOfBounds)"
  using assms by (rule request_round_trip_eq)

text \<open>
  The server answers every request of its client and acts on none of them: as long as memory
  for the name is found, all connections are served, the answer is the request with NULs for the
  spaces, and the table, its entries and values and the physical memory stay as they are. The
  branches are taken on the first character of the last word, which in the client's request is a
  digit or a minus sign. One block of memory is lost for each request.
\<close>
lemma serve_clients:
  assumes "\<forall>c \<in> set cs. client_conn c" and "\<forall>k l. al k l 3 \<noteq> 0" and "end_behind (sv_str sv)"
  shows "\<exists>sv'. serve al os cs sv = Some (Inr (Ret (sv', map echo cs))) \<and>
    sv_table sv' = sv_table sv \<and> sv_phys sv' = sv_phys sv \<and>
    entries (sv_heap sv') = entries (sv_heap sv) \<and> blobs (sv_heap sv') = blobs (sv_heap sv) \<and>
    length (ulive (sv_heap sv')) = length (ulive (sv_heap sv)) + length cs"
  using assms
proof (induction cs arbitrary: sv)
  case (Cons c cs)
  obtain p s1 where m: "malloc al 3 (sv_heap sv) = (p, s1)" by fastforce
  then have p: "p \<noteq> 0" and s1: "entries s1 = entries (sv_heap sv)" "blobs s1 = blobs (sv_heap sv)"
    "length (ulive s1) = Suc (length (ulive (sv_heap sv)))"
    using Cons.prems(2) by (auto simp: malloc_def Let_def)
  have "client_conn c" using Cons.prems(1) by simp
  then obtain str' where one: "serve_one al os c sv = Some (Inr (Ret (sv\<lparr>sv_heap := s1, sv_str := str'\<rparr>, echo c)))"
    "end_behind str'" using Cons.prems(3) m p by (rule serve_client)
  from Cons.IH [of "sv\<lparr>sv_heap := s1, sv_str := str'\<rparr>"] Cons.prems(1,2) one(2) obtain sv' where
    "serve al os cs (sv\<lparr>sv_heap := s1, sv_str := str'\<rparr>) = Some (Inr (Ret (sv', map echo cs)))"
    "sv_table sv' = sv_table sv" "sv_phys sv' = sv_phys sv"
    "entries (sv_heap sv') = entries s1" "blobs (sv_heap sv') = blobs s1"
    "length (ulive (sv_heap sv')) = length (ulive s1) + length cs" by auto
  then show ?case using one(1) s1 by (intro exI [of _ sv']) simp
qed simp

lemma next_token_nonempty: "next_token str pos = Inr (w, str', pos') \<Longrightarrow> w \<noteq> []"
proof -
  assume a: "next_token str pos = Inr (w, str', pos')"
  define t where "t = takeWhile (\<lambda>c. c = 0x20) (drop pos str)"
  have "str ! (pos + length t) \<noteq> 0x20" if "pos + length t < length str"
    using that nth_length_takeWhile [of "\<lambda>c. c = 0x20" "drop pos str"] unfolding t_def [symmetric] by simp
  then show ?thesis
    using a unfolding next_token_def strtok_def t_def [symmetric]
    by (auto simp: Let_def bind_res_def takeWhile_eq_Nil_iff hd_drop_conv_nth split: if_splits)
qed

lemma atol_letter: "c = 0x65 \<or> c = 0x64 \<Longrightarrow> atol (c # cs) = 0"
  by (auto simp: atol_def isspace_def is_digit_def)

lemma parse_mark:
  assumes "parse_request al str s = Inr (r, str', s')" and "rq_mark r = 0x65 \<or> rq_mark r = 0x64"
  shows "rq_rbp r = 0"
proof -
  obtain str4 p4 rbp p5 where "next_token str4 p4 = Inr (rbp, str', p5)" "rq_rbp r = word_of_int (atol rbp)" "rq_mark r = hd rbp"
    using assms(1) by (auto simp: parse_request_def bind_res_def Let_def split: sum.splits prod.splits if_splits)
  then show ?thesis using assms(2) next_token_nonempty atol_letter by (metis list.collapse of_int_0)
qed

text \<open>
  C31. A request that does enter one of the branches has no end address: its last word begins with
  a letter, so \<open>atol\<close> gives 0. The stack that is encrypted for it is the single byte at \<open>rsp\<close>.
\<close>
theorem marked_request_one_byte:
  assumes "parse_request al str s = Inr (r, str', s')" and "rq_mark r = 0x65 \<or> rq_mark r = 0x64"
    and "pagemap_ok os (rq_pid r) entry" and "malloc al 240 s' = (p, s1)" and "p \<noteq> 0" and "rq_rsp r \<noteq> -1"
  shows "rq_rbp r = 0 \<and> get_stack_areas al os (rq_pid r) (rq_rsp r) (rq_rbp r) s' =
    Inr (Ret (area_at (frame_of entry (rq_rsp r)) (rq_rsp r mod 4096) 1 # replicate 9 no_area, s1))"
proof -
  have z: "rq_rbp r = 0" using assms(1,2) by (rule parse_mark)
  have "\<not> rq_rsp r + 1 < 0" by simp
  then show ?thesis
    using z assms(4-6) by (simp add: get_stack_areas_def frame_lookup [OF assms(3)] area_loop.simps [of _ _ 0] set_area_def)
qed

text \<open>
  C32. The text of the request always fits the client's array. The only way the client leaves the
  array is an answer of a hundred bytes, behind which it writes a NUL; any failing call of the
  socket interface ends it with status 1.
\<close>
theorem client_bounds:
  assumes "n_recv net \<le> 100"
  shows "request_encrypt_stack net str pid top_addr bottom_addr =
    (let msg = request_text pid top_addr bottom_addr
     in if n_socket net = -1 \<or> n_connect net = -1 \<or> n_send net = -1 \<or> n_recv net \<le> 0 then Inr (Exit 1)
        else if n_recv net = 100 then Inl OutOfBounds
        else Inr (Ret (0, msg, (n_bytes net @ drop (length (n_bytes net)) (msg @ [0] @ drop (length msg + 1) str))
                               [nat (n_recv net) := 0])))"
  using assms request_length [of pid top_addr bottom_addr] by (auto simp: request_encrypt_stack_def Let_def)

section \<open>Witnesses\<close>

definition demo_srv :: srv where
  "demo_srv = \<lparr>sv_table = Some ten_bins, sv_heap = no_heap, sv_phys = (\<lambda>_. 0), sv_str = replicate 100 0\<rparr>"

definition demo_conn :: conn where
  "demo_conn = (let m = request_text 7 0x1FFE 0xFFFF800000000000
     in \<lparr>c_fd = 4, c_n = int (length m), c_bytes = m, c_hashval = 0, c_pad = [], c_page = []\<rparr>)"

lemma demo_conn_ok: "client_conn demo_conn" "end_behind (sv_str demo_srv)" "\<forall>k l. (\<lambda>_ _ _. 0x5000) k l 3 \<noteq> (0 :: addr)"
proof -
  show "client_conn demo_conn" by (auto simp: client_conn_def demo_conn_def Let_def)
  show "end_behind (sv_str demo_srv)"
    unfolding end_behind_def by (rule exI [of _ 60]) (simp add: demo_srv_def del: replicate_num)
qed simp

theorem request_round_trip_witness:
  "parse_request ubump (request_text 7 0x1FFE 0xFFFF800000000000 @ [0x78, 0]) demo_process =
     Inr (\<lparr>rq_op = 0x65, rq_name = f1, rq_pid = 7, rq_rsp = 0x1FFE, rq_rbp = 0xFFFF800000000000, rq_mark = 0x2d\<rparr>,
       map (\<lambda>c. if c = 0x20 then 0 else c) (request_text 7 0x1FFE 0xFFFF800000000000) @ [0x78, 0],
       \<lparr>ulive = [0x10000], umallocs = 1\<rparr>)"
  using request_round_trip [OF demo_malloc, of 7 "0x1FFE" "0xFFFF800000000000" "[0x78, 0]"]
  by (simp add: client_request_def dec_int_def)

text \<open>"d f1 7 8 e" and a NUL.\<close>
definition marked_str :: "u8 list" where
  "marked_str = [0x64, 0x20, 0x66, 0x31, 0x20, 0x37, 0x20, 0x38, 0x20, 0x65, 0]"

theorem marked_request_one_byte_witness:
  "\<exists>r str' s'. parse_request ubump marked_str demo_process = Inr (r, str', s') \<and> rq_mark r = 0x65 \<and> rq_rbp r = 0 \<and>
    get_stack_areas ubump demo_os 7 8 (rq_rbp r) s' =
      Inr (Ret (area_at 0 8 1 # replicate 9 no_area, \<lparr>ulive = [0x20000, 0x10000], umallocs = 2\<rparr>))"
proof -
  let ?r = "\<lparr>rq_op = 0x64, rq_name = f1, rq_pid = 7, rq_rsp = 8, rq_rbp = 0, rq_mark = 0x65\<rparr>"
  let ?s = "\<lparr>ulive = [0x10000], umallocs = 1\<rparr> :: process"
  have words: "word_ok [0x64]" "word_ok f1" "word_ok [0x37]" "word_ok [0x38]" "word_ok [0x65]"
    by (simp_all add: word_ok_def f1_def)
  have parse: "parse_request ubump marked_str demo_process = Inr (?r, [0x64, 0, 0x66, 0x31, 0, 0x37, 0, 0x38, 0, 0x65, 0], ?s)"
    using parse_five(1) [OF words, of ubump demo_process "0x10000" ?s 0 "[]"] demo_malloc
    by (simp add: marked_str_def f1_def atol_def isspace_def is_digit_def)
  have "malloc ubump 240 ?s = (0x20000, \<lparr>ulive = [0x20000, 0x10000], umallocs = 2\<rparr>)"
    by (simp add: malloc_def ubump_def)
  from marked_request_one_byte [OF parse _ demo_pagemap this] parse show ?thesis
    by (simp add: frame_of_def demo_entry_def take_bit_eq_mod)
qed

theorem client_bounds_witness:
  "request_encrypt_stack \<lparr>n_socket = 3, n_connect = 0, n_send = 20, n_recv = 100, n_bytes = replicate 100 0x41\<rparr>
     (replicate 100 0) 7 0x1FFE 0x2003 = Inl OutOfBounds"
  using client_bounds [of "\<lparr>n_socket = 3, n_connect = 0, n_send = 20, n_recv = 100, n_bytes = replicate 100 0x41\<rparr>"
    "replicate 100 0" 7 "0x1FFE" "0x2003"] by simp

end
