(* ===== verification/Readmem.thy ===== *)
theory Readmem
  imports Pagemap
begin

text \<open>
  The reader of physical memory, \<open>kernel_probe/readmem.c\<close>. It shares its routines with the
  encryption server, but shows a page in hexadecimal. The files are the parameter \<open>os\<close> of
  \<open>Pagemap\<close>.
\<close>

section \<open>Operations\<close>

text \<open>\<open>pid\<close> is cast to an \<open>int\<close> before it is printed.\<close>
definition rm_pagemap_path :: "u64 \<Rightarrow> cstring" where
  "rm_pagemap_path pid =
     (let i = sint (ucast pid :: u32) in map of_char ''/proc/'' @ dec_int i @ map of_char ''/pagemap'')"

definition rm_frame_number :: "'o os_scheme \<Rightarrow> u64 \<Rightarrow> addr \<Rightarrow> u64 run res" where
  "rm_frame_number os pid a =
     (let path = rm_pagemap_path pid
      in if 50 \<le> length path then Inl OutOfBounds
      else if getpagesize os = 0 then Inl DivByZero
      else case pagemap os path of
        None \<Rightarrow> Inl NullDeref
      | Some (seek, bytes) \<Rightarrow>
          (let off = a div word_of_int (getpagesize os) * PAGEMAP_LENGTH
           in if seek off \<noteq> 0 then Inr (Exit 1)
              else Inr (Ret (from_le (take 7 (bytes off)) AND 0x7FFFFFFFFFFFFF))))"

text \<open>The loop from \<open>tmp_addr\<close> on.\<close>
function rm_search :: "'o os_scheme \<Rightarrow> u64 \<Rightarrow> addr \<Rightarrow> u64 \<Rightarrow> addr \<Rightarrow> u64 run res" where
  "rm_search os pid lim pre_offset tmp_addr =
     (if lim \<le> tmp_addr then Inr (Ret 0)
      else bind_run (rm_frame_number os pid tmp_addr) (\<lambda>off.
           if off \<noteq> pre_offset then Inr (Ret off) else rm_search os pid lim pre_offset (tmp_addr + 1)))"
  by pat_completeness auto
termination
proof (relation "measure (\<lambda>(os, pid, lim, pre, tmp). unat lim - unat tmp)", goal_cases)
  case (2 os pid lim pre tmp)
  then have "tmp < lim" by simp
  then show ?case by (auto simp: unat_plus_1 word_less_nat_alt)
qed simp

declare rm_search.simps [simp del]

definition rm_get_page_frames ::
  "ualloc \<Rightarrow> 'o os_scheme \<Rightarrow> u64 \<Rightarrow> addr \<Rightarrow> 'a process_scheme \<Rightarrow> ((u64 \<times> u64) \<times> 'a process_scheme) run res" where
  "rm_get_page_frames al os pid a s =
     (let (ret, s1) = malloc al 16 s
      in bind_run (rm_frame_number os pid a) (\<lambda>pre_offset.
         if ret = 0 then Inl NullDeref
         else bind_run (rm_search os pid (a + 4096) pre_offset (a + 1)) (\<lambda>other.
              Inr (Ret ((pre_offset, other), s1)))))"

definition hex_digit :: "u8 \<Rightarrow> u8" where
  "hex_digit d = (if d < 10 then 0x30 + d else 0x57 + d)"

text \<open>\<open>%02x\<close> and a space.\<close>
definition hex_byte :: "u8 \<Rightarrow> cstring" where
  "hex_byte b = [hex_digit (b div 16), hex_digit (b mod 16), 0x20]"

text \<open>The descriptor that is returned, and what is printed.\<close>
definition rm_read_memory_page :: "'o os_scheme \<Rightarrow> u8 list \<Rightarrow> u64 \<Rightarrow> phys \<Rightarrow> int \<times> cstring" where
  "rm_read_memory_page os buffer frame_num ph =
     (let fd = dev_open os
      in if fd = -1 then (fd, [])
      else let pos = dev_lseek os (frame_num * 4096)
      in if pos = -1 then (sint (ucast pos :: u32), [])
      else (fd, concat (map hex_byte (fst (dev_mem_read os ph pos buffer))) @ [0x0a, 0x0a, 0x0a]))"

definition readmem_main :: "'o os_scheme \<Rightarrow> u8 list \<Rightarrow> phys \<Rightarrow> cstring" where
  "readmem_main os buffer ph = snd (rm_read_memory_page os buffer 340417 ph)"

section \<open>Reading a dump back\<close>

definition hex_val :: "u8 \<Rightarrow> u8" where
  "hex_val c = (if c < 0x3a then c - 0x30 else c - 0x57)"

fun undump :: "cstring \<Rightarrow> u8 list" where
  "undump (a # b # c # rest) = (if c = 0x20 then (16 * hex_val a + hex_val b) # undump rest else [])"
| "undump _ = []"

lemma hex_val_digit: "d < 16 \<Longrightarrow> hex_val (hex_digit d) = d"
proof -
  assume "d < 16"
  then have "unat d \<in> set [0 ..< 16]" by (simp add: word_less_nat_alt)
  then have "of_nat (unat d) \<in> set (map (of_nat :: nat \<Rightarrow> u8) [0 ..< 16])" unfolding set_map by (rule imageI)
  moreover have "of_nat (unat d) = d" by simp
  ultimately have "d \<in> set (map of_nat [0 ..< 16])" by metis
  then show ?thesis by (auto simp: upt_rec hex_val_def hex_digit_def)
qed

lemma undump_page: "undump (concat (map hex_byte bs) @ [0x0a, 0x0a, 0x0a]) = bs"
proof (induction bs)
  case (Cons b bs)
  have "b div 16 < 16" "b mod 16 < 16"
    using unat_u8_less [of b] by (simp_all add: word_less_nat_alt unat_div unat_mod)
  moreover have "16 * (b div 16) + b mod 16 = b" using word_mod_div_equality [of b 16] by (simp add: mult.commute)
  ultimately show ?case using Cons by (simp add: hex_byte_def hex_val_digit)
qed simp

lemma rm_frame_number_eq: "rm_frame_number os pid a = get_page_frame_number_of_address os pid a"
  by (auto simp: rm_frame_number_def get_page_frame_number_of_address_def rm_pagemap_path_def pagemap_path_def Let_def)

lemma rm_search_eq: "rm_search os pid lim pre tmp = other_frame os pid lim pre tmp"
proof (induction os pid lim pre tmp rule: rm_search.induct)
  case (1 os pid lim pre tmp)
  then show ?case
    by (subst rm_search.simps, subst other_frame.simps)
      (auto simp: rm_frame_number_eq not_le not_less intro!: bind_run_cong)
qed

lemma minus_1_int: "sint (ucast (- 1 :: u64) :: u32) = - 1"
proof -
  have "(ucast (- 1 :: u64) :: u32) = - 1" by (rule bit_word_eqI) (simp add: bit_simps)
  then show ?thesis by simp
qed

text \<open>
  C38. The dump can be read back: from the hexadecimal text the page is recovered byte for byte,
  and with every byte printed as a printable character instead it is what the server's \<open>read_memory_page\<close>
  shows for the same frame; the result of the two routines is the same on every path, and so are
  the frames that the two programs find.
\<close>
theorem readmem_agrees_with_server:
  "fst (rm_read_memory_page os buffer f ph) = fst (read_memory_page os buffer f ph) \<and>
   snd (read_memory_page os buffer f ph) =
     (if snd (rm_read_memory_page os buffer f ph) = [] then []
      else concat (map char_cell (undump (snd (rm_read_memory_page os buffer f ph)))) @ [0x0a, 0x0a, 0x0a]) \<and>
   (dev_open os \<noteq> -1 \<and> dev_lseek os (f * 4096) \<noteq> -1 \<longrightarrow>
      undump (snd (rm_read_memory_page os buffer f ph)) = fst (dev_mem_read os ph (dev_lseek os (f * 4096)) buffer)) \<and>
   rm_get_page_frames al os pid a s = get_page_frames al os pid a s"
  by (simp add: rm_read_memory_page_def read_memory_page_def undump_page Let_def rm_get_page_frames_def get_page_frames_def
      rm_frame_number_eq rm_search_eq minus_1_int cong: if_cong)

theorem readmem_agrees_with_server_witness:
  "undump (snd (rm_read_memory_page (demo_os\<lparr>dev_read := \<lambda>_. 2\<rparr>) [] 340417 (\<lambda>x. ucast (x div 4096)))) = [0xc1, 0xc1]"
proof -
  let ?os = "demo_os\<lparr>dev_read := \<lambda>_. 2\<rparr>" and ?ph = "\<lambda>x. ucast (x div 4096)"
  have "undump (snd (rm_read_memory_page ?os [] 340417 ?ph)) = fst (dev_mem_read ?os ?ph (dev_lseek ?os (340417 * 4096)) [])"
    by (rule readmem_agrees_with_server [of ?os "[]" 340417 ?ph ubump 7 0 demo_process,
          THEN conjunct2, THEN conjunct2, THEN conjunct1, THEN mp]) (simp add: demo_os_def)
  then show ?thesis by (simp add: demo_os_def dev_mem_read_def upt_rec)
qed

end
