(* ===== verification/Kprobe.thy ===== *)
theory Kprobe
  imports Pagemap
begin

text \<open>
  The example of a kernel probe, \<open>kernel_probe/kprobe.c\<close>: a module that puts a probe on
  \<open>vfs_write\<close>. The kernel's symbol table and its registration of probes are parameters; the
  state has the module's probe, whether it is registered, and the kernel log.
\<close>

datatype handler = Handler_pre | Handler_post | Handler_fault

datatype message =
    PrePrinted
  | PostPrinted
  | FaultPrinted
  | NoAddress
  | RegisterFailed int
  | Registered
  | Unregistered

record kprobe =
  pre_handler :: "handler option"
  post_handler :: "handler option"
  fault_handler :: "handler option"
  kp_addr :: addr

record kmodule =
  kp :: kprobe
  planted :: bool
  klog :: "message list"

text \<open>A second copy of the routine of the server; the character is signed in both.\<close>
definition kp_safechar :: "u8 \<Rightarrow> u8" where
  "kp_safechar c =
     (if 0x61 \<le> sint c \<and> sint c \<le> 0x7a then c
      else if 0x41 \<le> sint c \<and> sint c \<le> 0x5a then c
      else if 0x30 \<le> sint c \<and> sint c \<le> 0x39 then c
      else if c = 0x20 then c
      else if c = 0x2e then c
      else if c = 0x2d then c
      else if c = 0x2c then c
      else if c = 0x28 then c
      else if c = 0x29 then c
      else if c = 0x5b then c
      else if c = 0x5d then c
      else if c = 0x7b then c
      else if c = 0x7d then c
      else 0x40)"

definition handler_pre :: "kmodule \<Rightarrow> int \<times> kmodule" where
  "handler_pre m = (0, m\<lparr>klog := klog m @ [PrePrinted]\<rparr>)"

definition handler_post :: "kmodule \<Rightarrow> kmodule" where
  "handler_post m = m\<lparr>klog := klog m @ [PostPrinted]\<rparr>"

definition handler_fault :: "kmodule \<Rightarrow> int \<times> kmodule" where
  "handler_fault m = (0, m\<lparr>klog := klog m @ [FaultPrinted]\<rparr>)"

text \<open>
  In the condition the comparison binds more tightly than the assignment, so \<open>ret\<close> is the
  truth value of \<open>register_kprobe(&kp) < 0\<close>.
\<close>
definition init_module :: "(string \<Rightarrow> addr) \<Rightarrow> (kprobe \<Rightarrow> int) \<Rightarrow> kmodule \<Rightarrow> int \<times> kmodule" where
  "init_module kallsyms_lookup_name register_kprobe m =
     (let k = \<lparr>pre_handler = Some Handler_pre, post_handler = Some Handler_post,
               fault_handler = Some Handler_fault, kp_addr = kallsyms_lookup_name ''vfs_write''\<rparr>;
          m1 = m\<lparr>kp := k\<rparr>
      in if kp_addr k = 0 then (-1, m1\<lparr>klog := klog m1 @ [NoAddress]\<rparr>)
      else let r = register_kprobe k;
               ret = (if r < 0 then 1 else 0 :: int);
               m2 = m1\<lparr>planted := 0 \<le> r\<rparr>
      in if ret \<noteq> 0 then (-1, m2\<lparr>klog := klog m2 @ [RegisterFailed ret]\<rparr>)
         else (0, m2\<lparr>klog := klog m2 @ [Registered]\<rparr>))"

definition cleanup_module :: "kmodule \<Rightarrow> kmodule" where
  "cleanup_module m = m\<lparr>planted := False, klog := klog m @ [Unregistered]\<rparr>"

text \<open>A hit of the probe: the handler before and the one after the instruction.\<close>
definition probe_hit :: "kmodule \<Rightarrow> kmodule" where
  "probe_hit m = (if planted m then handler_post (snd (handler_pre m)) else m)"

section \<open>Life of the module\<close>

text \<open>Loading, hits of the probe, unloading.\<close>
inductive module_step :: "(string \<Rightarrow> addr) \<Rightarrow> (kprobe \<Rightarrow> int) \<Rightarrow> bool \<times> kmodule \<Rightarrow> bool \<times> kmodule \<Rightarrow> bool"
  for look reg where
  load: "init_module look reg m = (r, m') \<Longrightarrow> module_step look reg (False, m) (r = 0, m')"
| hit: "module_step look reg (b, m) (b, probe_hit m)"
| unload: "module_step look reg (True, m) (False, cleanup_module m)"

inductive_cases module_stepE: "module_step look reg x y"

lemma init_planted: "init_module look reg m = (r, m') \<Longrightarrow> \<not> planted m \<Longrightarrow> planted m' \<longleftrightarrow> r = 0"
  by (auto simp: init_module_def Let_def split: if_splits)

lemma module_step_planted: "module_step look reg x y \<Longrightarrow> (planted (snd x) \<longleftrightarrow> fst x) \<Longrightarrow> (planted (snd y) \<longleftrightarrow> fst y)"
  by (erule module_stepE)
    (auto simp: probe_hit_def handler_pre_def handler_post_def cleanup_module_def dest: init_planted)

text \<open>
  C39. The probe is planted exactly while the module is loaded: whatever the sequence of loads,
  hits and unloads, and whether or not a load fails, no probe is left behind by a module that is
  not there and none is missing under one that is.
\<close>
theorem probe_planted_iff_loaded:
  assumes "(module_step look reg)\<^sup>*\<^sup>* (False, m) (b, m')" and "\<not> planted m"
  shows "planted m' \<longleftrightarrow> b"
proof -
  have "planted (snd y) \<longleftrightarrow> fst y" if "(module_step look reg)\<^sup>*\<^sup>* x y" "planted (snd x) \<longleftrightarrow> fst x" for x y
    using that by (induction rule: rtranclp_induct) (simp_all add: module_step_planted)
  from this [OF assms(1)] assms(2) show ?thesis by simp
qed

lemma signed_char_range:
  assumes "0 \<le> a" and "b < 128"
  shows "a \<le> sint (c :: u8) \<and> sint c \<le> b \<longleftrightarrow> a \<le> uint c \<and> uint c \<le> b"
proof (cases "uint c < 128")
  case True
  have "0 \<le> uint c" by simp
  then have "- 128 \<le> uint c" by linarith
  then have "sint c = uint c" using True signed_take_bit_int_eq_self [of 7 "uint c"] by (simp add: sint_uint)
  then show ?thesis by simp
next
  case False
  have "uint c = sint c mod 256" using uint_word_of_int [where 'a = 8, of "sint c"] by simp
  then have "sint c < 0" using False sint_lt [of c] by (cases "0 \<le> sint c") simp_all
  then show ?thesis using False assms by simp
qed

lemma safechars: "kp_safechar = safechar"
proof
  fix c
  show "kp_safechar c = safechar c"
    unfolding kp_safechar_def safechar_def
    by (simp only: signed_char_range [of "0x61" "0x7a"] signed_char_range [of "0x41" "0x5a"] signed_char_range [of "0x30" "0x39"]
        word_le_def) simp
qed

text \<open>
  What a failed registration leaves in the log is always the number 1, whatever error the
  kernel gave; the load still fails with -1. The two copies of \<open>safechar\<close> are the same function.
\<close>
lemma register_error_lost:
  assumes "look ''vfs_write'' \<noteq> 0" and "\<And>k. reg k = e" and "e < 0"
  shows "fst (init_module look reg m) = -1 \<and> \<not> planted (snd (init_module look reg m)) \<and>
    klog (snd (init_module look reg m)) = klog m @ [RegisterFailed 1] \<and> kp_safechar = safechar"
  using assms by (simp add: init_module_def Let_def safechars)

section \<open>Witnesses\<close>

definition fresh_module :: kmodule where
  "fresh_module = \<lparr>kp = \<lparr>pre_handler = None, post_handler = None, fault_handler = None, kp_addr = 0\<rparr>, planted = False, klog = []\<rparr>"

theorem probe_planted_iff_loaded_witness:
  "\<exists>m. (module_step (\<lambda>_. 0x1000) (\<lambda>_. 0))\<^sup>*\<^sup>* (False, fresh_module) (True, m) \<and> planted m \<and> klog m = [Registered, PrePrinted, PostPrinted]"
proof -
  let ?i = "init_module (\<lambda>_. 0x1000) (\<lambda>_. 0) fresh_module"
  have i: "?i = (0, snd ?i)" by (simp add: init_module_def Let_def)
  have "module_step (\<lambda>_. 0x1000) (\<lambda>_. 0) (False, fresh_module) (True, snd ?i)"
    using module_step.load [OF i] by simp
  moreover have "module_step (\<lambda>_. 0x1000) (\<lambda>_. 0) (True, snd ?i) (True, probe_hit (snd ?i))" by (rule module_step.hit)
  ultimately have steps: "(module_step (\<lambda>_. 0x1000) (\<lambda>_. 0))\<^sup>*\<^sup>* (False, fresh_module) (True, probe_hit (snd ?i))" by simp
  then have "planted (probe_hit (snd ?i))" using probe_planted_iff_loaded by (simp add: fresh_module_def)
  moreover have "klog (probe_hit (snd ?i)) = [Registered, PrePrinted, PostPrinted]"
    by (simp add: init_module_def Let_def fresh_module_def probe_hit_def handler_pre_def handler_post_def)
  ultimately show ?thesis using steps by blast
qed

end
