(* ===== verification/Stack_Clear.thy ===== *)
theory Stack_Clear
  imports Prelude
begin

text \<open>
  The stack clearing at user level, \<open>clear_stack/stack_clear.c\<close>: a program compiled with
  \<open>-finstrument-functions\<close>, whose exit hook overwrites a part of the stack each time a function
  returns. The register \<open>rbp\<close> of the hook is a parameter; the word it points to is the frame
  pointer of the function that returns.
\<close>

section \<open>Hooks\<close>

definition cyg_profile_func_enter :: "memory \<Rightarrow> memory" where
  "cyg_profile_func_enter m = m"

text \<open>The loop from \<open>i\<close> to the limit, which stores the character '0'.\<close>
function clear_loop :: "u64 \<Rightarrow> u64 \<Rightarrow> memory \<Rightarrow> memory" where
  "clear_loop lim i m = (if i < lim then clear_loop lim (i + 1) (m(i := 0x30)) else m)"
  by pat_completeness auto
termination
proof (relation "measure (\<lambda>(lim, i, m). unat lim - unat i)", goal_cases)
  case (2 lim i m)
  then show ?case by (simp add: unat_plus_1 word_less_nat_alt)
qed simp

declare clear_loop.simps [simp del]

definition cyg_profile_func_exit :: "u64 \<Rightarrow> memory \<Rightarrow> memory" where
  "cyg_profile_func_exit rbp m =
     (let pre_rbp = load64 m rbp
      in clear_loop (pre_rbp - 64) (rbp + 64) m)"

section \<open>The example program\<close>

text \<open>An \<open>int\<close> sum; it is undefined when it leaves the type.\<close>
definition foo :: "u32 \<Rightarrow> u32 \<Rightarrow> u32 option" where
  "foo x y = (if sint x + sint y = sint (x + y) then Some (x + y) else None)"

text \<open>
  The hooks run around \<open>foo\<close> and around \<open>main\<close>; \<open>r1\<close> and \<open>r2\<close> are the frame pointers of the two
  runs of the exit hook. The result is the status of the program and the memory it leaves.
\<close>
definition clear_main :: "u64 \<Rightarrow> u64 \<Rightarrow> memory \<Rightarrow> (u32 \<times> memory) option" where
  "clear_main r1 r2 m =
     (let m1 = cyg_profile_func_enter (cyg_profile_func_enter m)
      in case foo 35 64 of
        None \<Rightarrow> None
      | Some b \<Rightarrow> Some (b, cyg_profile_func_exit r2 (cyg_profile_func_exit r1 m1)))"

section \<open>Properties\<close>

lemma clear_loop_eq: "clear_loop lim i m = (\<lambda>x. if i \<le> x \<and> x < lim then 0x30 else m x)"
proof (induction lim i m rule: clear_loop.induct)
  case (1 lim i m)
  show ?case
  proof (cases "i < lim")
    case True
    have up: "i \<le> x \<longleftrightarrow> x = i \<or> i + 1 \<le> x" for x
      using unat_plus_1 [OF True] by (auto simp: word_le_nat_alt word_unat_eq_iff)
    have "clear_loop lim i m = clear_loop lim (i + 1) (m(i := 0x30))" using True by (subst clear_loop.simps) simp
    also have "\<dots> = (\<lambda>x. if i + 1 \<le> x \<and> x < lim then 0x30 else (m(i := 0x30)) x)" by (rule 1 [OF True])
    also have "\<dots> = (\<lambda>x. if i \<le> x \<and> x < lim then 0x30 else m x)" using True up by (auto simp: fun_eq_iff)
    finally show ?thesis .
  next
    case False
    then show ?thesis by (subst clear_loop.simps) (auto simp: fun_eq_iff)
  qed
qed

text \<open>
  C36. The hook ends, and what it leaves is the character '0' in every byte from 64 above its own
  frame pointer to 64 below that of the function that returns, with every other byte as it was.
  So the 64 bytes next to each of the two frame pointers keep what the function left there, and
  when the two are at most 128 bytes apart nothing is cleared at all.
\<close>
theorem exit_hook_clears:
  assumes "64 \<le> unat (load64 m rbp)" and "unat rbp + 64 < 2 ^ 64"
  shows "cyg_profile_func_exit rbp m =
      (\<lambda>x. if rbp + 64 \<le> x \<and> x < load64 m rbp - 64 then 0x30 else m x) \<and>
    (\<forall>x. unat x < unat rbp + 64 \<or> unat (load64 m rbp) \<le> unat x + 64 \<longrightarrow> cyg_profile_func_exit rbp m x = m x) \<and>
    (unat (load64 m rbp) \<le> unat rbp + 128 \<longrightarrow> cyg_profile_func_exit rbp m = m)"
proof -
  let ?q = "load64 m rbp"
  have e: "cyg_profile_func_exit rbp m = (\<lambda>x. if rbp + 64 \<le> x \<and> x < ?q - 64 then 0x30 else m x)"
    by (simp add: cyg_profile_func_exit_def clear_loop_eq)
  have u: "unat (rbp + 64) = unat rbp + 64" "unat (?q - 64) = unat ?q - 64"
    using assms unat_u64_less [of ?q] by (simp_all add: unat_word_ariths unat_sub word_le_nat_alt)
  show ?thesis unfolding e using assms by (auto simp: word_le_nat_alt word_less_nat_alt u fun_eq_iff)
qed

text \<open>
  The distance is not checked. For a saved frame pointer below 64 the limit wraps around, and
  the hook overwrites everything from 64 above its frame pointer almost to the end of the address
  space.
\<close>
lemma exit_hook_wraps:
  assumes "load64 m rbp < 64" and "rbp \<le> x - 64" and "64 \<le> x" and "x < - 64"
  shows "cyg_profile_func_exit rbp m x = 0x30"
proof -
  let ?q = "load64 m rbp"
  have "unat (x - 64) = unat x - 64" using assms(3) by (simp add: unat_sub)
  then have r: "unat rbp + 64 \<le> unat x" using assms(2,3) by (simp add: word_le_nat_alt)
  then have "unat (rbp + 64) = unat rbp + 64" using unat_u64_less [of x] by (simp add: unat_word_ariths)
  then have low: "rbp + 64 \<le> x" using r by (simp add: word_le_nat_alt)
  have lim: "-64 \<le> ?q - 64"
  proof -
    have "unat (?q - 64) = unat ?q + (2 ^ 64 - 64)"
      using assms(1) by (simp add: unat_sub_if_size word_less_nat_alt word_size)
    then show ?thesis by (simp add: word_le_nat_alt)
  qed
  have "x < ?q - 64" using lim assms(4) by (rule order_less_le_trans [rotated])
  then show ?thesis using low by (simp add: cyg_profile_func_exit_def clear_loop_eq)
qed

section \<open>Witnesses\<close>

definition frame_mem :: "u64 \<Rightarrow> memory" where
  "frame_mem q = store64 (\<lambda>_. 7) 0x1000 q"

lemma frame_mem_load: "load64 (frame_mem q) 0x1000 = q"
  by (simp add: frame_mem_def load64_store64)

theorem exit_hook_clears_witness:
  "cyg_profile_func_exit 0x1000 (frame_mem 0x1100) 0x1050 = 0x30 \<and> cyg_profile_func_exit 0x1000 (frame_mem 0x1100) 0x10d0 = 7 \<and>
   cyg_profile_func_exit 0x1000 (frame_mem 0x1080) = frame_mem 0x1080"
proof -
  have out: "frame_mem q 0x10d0 = 7" for q by (simp add: frame_mem_def store64_def in_region_def)
  have a: "cyg_profile_func_exit 0x1000 (frame_mem 0x1100) =
      (\<lambda>x. if 0x1040 \<le> x \<and> x < 0x10c0 then 0x30 else frame_mem 0x1100 x)"
    using exit_hook_clears [of "frame_mem 0x1100" "0x1000"] by (simp add: frame_mem_load)
  have "cyg_profile_func_exit 0x1000 (frame_mem 0x1080) = frame_mem 0x1080"
    by (rule exit_hook_clears [THEN conjunct2, THEN conjunct2, THEN mp]) (simp_all add: frame_mem_load)
  then show ?thesis using a out by simp
qed

end
