(* ===== verification/Elf_User.thy ===== *)
theory Elf_User
  imports Parse_Elf Libc
begin

text \<open>
  The ELF reader for user space, \<open>parse_elf/elf.c\<close>, which the reader of the module was made
  from. It maps the file instead of reading it into a block, and ends the process on an error.
  The calls to the system are the fields of the parameter \<open>sys\<close>; the mapping is the list of
  its bytes, and a pointer that leaves it is a fault. The handle is the one of \<open>Parse_Elf\<close>.
\<close>

section \<open>The system and the mapping\<close>

record usys =
  us_malloc :: addr
  us_open :: "cstring \<Rightarrow> int"
  us_fstat :: "int \<Rightarrow> int \<times> u64"
  us_mmap :: "u64 \<Rightarrow> int \<Rightarrow> addr"
  us_file :: "int \<Rightarrow> u8 list"
  us_munmap :: "addr \<Rightarrow> u64 \<Rightarrow> int"

fun le_nat :: "u8 list \<Rightarrow> nat" where
  "le_nat [] = 0"
| "le_nat (c # cs) = unat c + 256 * le_nat cs"

text \<open>\<open>k\<close> bytes at an address, where the bytes \<open>img\<close> are mapped at \<open>base\<close>.\<close>
definition img_load :: "u8 list \<Rightarrow> addr \<Rightarrow> nat \<Rightarrow> addr \<Rightarrow> u8 list res" where
  "img_load img base k a =
     (if unat base \<le> unat a \<and> unat a + k \<le> unat base + length img
      then Inr (take k (drop (unat a - unat base) img)) else Inl OutOfBounds)"

definition img_str :: "u8 list \<Rightarrow> addr \<Rightarrow> addr \<Rightarrow> cstring res" where
  "img_str img base p =
     (let bs = drop (unat p - unat base) img
      in if unat base \<le> unat p \<and> 0 \<in> set bs then Inr (takeWhile (\<lambda>c. c \<noteq> 0) bs) else Inl OutOfBounds)"

definition u_shdr_at :: "u8 list \<Rightarrow> addr \<Rightarrow> addr \<Rightarrow> Elf64_Shdr res" where
  "u_shdr_at img base a =
     bind_res (img_load img base 64 a) (\<lambda>bs. Inr
       \<lparr>sh_type = of_nat (le_nat (take 4 (drop 4 bs))), sh_offset = of_nat (le_nat (take 8 (drop 0x18 bs))),
        sh_size = of_nat (le_nat (take 8 (drop 0x20 bs))), sh_link = of_nat (le_nat (take 4 (drop 0x28 bs)))\<rparr>)"

definition u_sym_at :: "u8 list \<Rightarrow> addr \<Rightarrow> addr \<Rightarrow> Elf64_Sym res" where
  "u_sym_at img base a =
     bind_res (img_load img base 24 a) (\<lambda>bs. Inr
       \<lparr>st_name = of_nat (le_nat (take 4 bs)), st_info = bs ! 4,
        st_shndx = of_nat (le_nat (take 2 (drop 6 bs))), st_value = of_nat (le_nat (take 8 (drop 8 bs))),
        st_size = of_nat (le_nat (take 8 (drop 16 bs)))\<rparr>)"

section \<open>Opening and closing\<close>

text \<open>The loop over the section headers, from section \<open>i\<close> on.\<close>
fun u_scan :: "u8 list \<Rightarrow> nat \<Rightarrow> nat \<Rightarrow> addr \<Rightarrow> Elf_obj \<Rightarrow> Elf_obj res" where
  "u_scan img 0 i shdr ep = Inr ep"
| "u_scan img (Suc n) i shdr ep =
     bind_res (u_shdr_at img (maddr ep) (shdr + 64 * of_nat i)) (\<lambda>h.
     bind_res (if sh_type h = SHT_SYMTAB
               then bind_res (u_shdr_at img (maddr ep) (shdr + 64 * ucast (sh_link h))) (\<lambda>l.
                    Inr (ep\<lparr>symtab := Some (maddr ep + sh_offset h),
                            symtab_end := Some (maddr ep + sh_offset h + sh_size h),
                            strtab := Some (maddr ep + sh_offset l)\<rparr>))
               else Inr ep) (\<lambda>ep1.
     bind_res (if sh_type h = SHT_DYNSYM
               then bind_res (u_shdr_at img (maddr ep) (shdr + 64 * ucast (sh_link h))) (\<lambda>l.
                    Inr (ep1\<lparr>dsymtab := Some (maddr ep + sh_offset h),
                             dsymtab_end := Some (maddr ep + sh_offset h + sh_size h),
                             dstrtab := Some (maddr ep + sh_offset l)\<rparr>))
               else Inr ep1) (\<lambda>ep2.
     u_scan img n (Suc i) shdr ep2)))"

text \<open>From the mapping on; \<open>None\<close> when the magic number is not there.\<close>
definition u_elf_header :: "u8 list \<Rightarrow> Elf_obj \<Rightarrow> Elf_obj option res" where
  "u_elf_header img ep =
     bind_res (img_load img (maddr ep) 4 (ehdr ep)) (\<lambda>magic.
     if magic \<noteq> ELFMAG then Inr None
     else bind_res (img_load img (maddr ep) 8 (ehdr ep + 0x28)) (\<lambda>e_shoff.
          bind_res (img_load img (maddr ep) 2 (ehdr ep + 0x3c)) (\<lambda>e_shnum.
          bind_res (u_scan img (le_nat e_shnum) 0 (maddr ep + of_nat (le_nat e_shoff)) ep) (\<lambda>ep'.
          Inr (Some ep')))))"

text \<open>The length of the file is kept in an \<open>int\<close>, and it is this length that is mapped.\<close>
definition u_elf_open :: "'x usys_scheme \<Rightarrow> cstring \<Rightarrow> (Elf_obj \<times> u8 list) run res" where
  "u_elf_open sys filename =
     (let p = us_malloc sys
      in if p = 0 then Inr (Exit 1)
      else let fd = us_open sys filename
      in if fd = -1 then Inr (Exit 1)
      else let (ret, sz) = us_fstat sys fd
      in if ret = -1 then Inr (Exit 1)
      else if sz < 64 then Inr (Exit 1)
      else let len = ucast sz :: u32; a = us_mmap sys (scast len) fd
      in if a = -1 then Inr (Exit 1)
      else let img = take (unat (scast len :: u64)) (us_file sys fd);
               ep = \<lparr>ep_self = p, maddr = a, mlen = len, ehdr = a, symtab = None, symtab_end = None, strtab = None,
                     dsymtab = None, dsymtab_end = None, dstrtab = None\<rparr>
      in bind_res (u_elf_header img ep) (\<lambda>r. case r of None \<Rightarrow> Inr (Exit 1) | Some ep' \<Rightarrow> Inr (Ret (ep', img))))"

definition u_elf_close :: "'x usys_scheme \<Rightarrow> Elf_obj \<Rightarrow> unit run res" where
  "u_elf_close sys ep = (if us_munmap sys (maddr ep) (scast (mlen ep)) < 0 then Inr (Exit 1) else Inr (Ret ()))"

section \<open>Symbols\<close>

definition u_elf_symname :: "u8 list \<Rightarrow> Elf_obj \<Rightarrow> addr \<Rightarrow> addr res" where
  "u_elf_symname img ep sy =
     bind_res (field (strtab ep)) (\<lambda>t. bind_res (u_sym_at img (maddr ep) sy) (\<lambda>y. Inr (t + ucast (st_name y))))"

definition u_elf_symvalue :: "u8 list \<Rightarrow> Elf_obj \<Rightarrow> addr \<Rightarrow> u64 res" where
  "u_elf_symvalue img ep sy = bind_res (u_sym_at img (maddr ep) sy) (\<lambda>y. Inr (st_value y))"

definition u_elf_symsize :: "u8 list \<Rightarrow> Elf_obj \<Rightarrow> addr \<Rightarrow> u64 res" where
  "u_elf_symsize img ep sy = bind_res (u_sym_at img (maddr ep) sy) (\<lambda>y. Inr (st_size y))"

definition u_elf_dsymname :: "u8 list \<Rightarrow> Elf_obj \<Rightarrow> addr \<Rightarrow> addr res" where
  "u_elf_dsymname img ep sy =
     bind_res (field (dstrtab ep)) (\<lambda>t. bind_res (u_sym_at img (maddr ep) sy) (\<lambda>y. Inr (t + ucast (st_name y))))"

definition u_elf_firstsym :: "Elf_obj \<Rightarrow> addr res" where
  "u_elf_firstsym ep = field (symtab ep)"

definition u_elf_nextsym :: "Elf_obj \<Rightarrow> addr \<Rightarrow> addr res" where
  "u_elf_nextsym ep sy =
     bind_res (field (symtab_end ep)) (\<lambda>e. let sy1 = sy + 24 in Inr (if sy1 < e then sy1 else 0))"

definition u_elf_firstdsym :: "Elf_obj \<Rightarrow> addr res" where
  "u_elf_firstdsym ep = field (dsymtab ep)"

definition u_elf_nextdsym :: "Elf_obj \<Rightarrow> addr \<Rightarrow> addr res" where
  "u_elf_nextdsym ep sy =
     bind_res (field (dsymtab_end ep)) (\<lambda>e. let sy1 = sy + 24 in Inr (if sy1 < e then sy1 else 0))"

definition u_elf_isfunc :: "u8 list \<Rightarrow> Elf_obj \<Rightarrow> addr \<Rightarrow> bool res" where
  "u_elf_isfunc img ep sy =
     bind_res (u_sym_at img (maddr ep) sy) (\<lambda>y. Inr (ELF32_ST_TYPE (st_info y) = STT_FUNC \<and> st_shndx y \<noteq> SHT_NULL))"

definition u_elf_isdfunc :: "u8 list \<Rightarrow> Elf_obj \<Rightarrow> addr \<Rightarrow> bool res" where
  "u_elf_isdfunc img ep sy =
     bind_res (u_sym_at img (maddr ep) sy) (\<lambda>y. Inr (ELF32_ST_TYPE (st_info y) = STT_FUNC))"

text \<open>The arguments of \<open>printf\<close>: the name, the value and the size of a symbol.\<close>
definition sym_args :: "u8 list \<Rightarrow> Elf_obj \<Rightarrow> addr \<Rightarrow> (cstring \<times> u64 \<times> u64) res" where
  "sym_args img ep sy =
     bind_res (u_elf_symname img ep sy) (\<lambda>p.
     bind_res (u_elf_symvalue img ep sy) (\<lambda>v.
     bind_res (u_elf_symsize img ep sy) (\<lambda>z.
     bind_res (img_str img (maddr ep) p) (\<lambda>nm. Inr (nm, v, z)))))"

text \<open>One line of the listing; the size is an unsigned long, but printed with \<open>%d\<close>.\<close>
definition printed :: "cstring \<times> u64 \<times> u64 \<Rightarrow> cstring \<times> u64 \<times> int" where
  "printed a = (case a of (nm, v, z) \<Rightarrow> (nm, v, sint (ucast z :: u32)))"

definition list_sym :: "u8 list \<Rightarrow> Elf_obj \<Rightarrow> addr \<Rightarrow> (cstring \<times> u64 \<times> int) res" where
  "list_sym img ep sy = bind_res (sym_args img ep sy) (\<lambda>a. Inr (printed a))"

lemma list_sym_advances:
  assumes "list_sym img ep sy = Inr x" and "unat (maddr ep) + length img < 2 ^ 64"
  shows "unat (sy + 24) = unat sy + 24"
proof -
  have "unat sy + 24 \<le> unat (maddr ep) + length img"
    using assms(1) by (auto simp: list_sym_def sym_args_def u_elf_symname_def u_sym_at_def img_load_def bind_res_eq_Inr split: if_splits)
  then show ?thesis using assms(2) by (simp add: unat_word_ariths)
qed

text \<open>The loop of \<open>main\<close>, whose body runs at least once. A mapping does not wrap around.\<close>
function list_syms :: "u8 list \<Rightarrow> Elf_obj \<Rightarrow> addr \<Rightarrow> (cstring \<times> u64 \<times> int) list res" where
  "list_syms img ep sy =
     (if \<not> unat (maddr ep) + length img < 2 ^ 64 then Inl BadAccess
      else bind_res (list_sym img ep sy) (\<lambda>l.
           bind_res (u_elf_nextsym ep sy) (\<lambda>sym.
           if sym = 0 then Inr [l] else bind_res (list_syms img ep sym) (\<lambda>ls. Inr (l # ls)))))"
  by pat_completeness auto
termination
proof (relation "measure (\<lambda>(img, ep, sy). 2 ^ 64 - unat sy)", goal_cases)
  case (2 img ep sy l sym)
  then show ?case
    using list_sym_advances [of img ep sy l] unat_u64_less [of sym]
    by (auto simp: u_elf_nextsym_def bind_res_eq_Inr Let_def split: if_splits)
qed simp

declare list_syms.simps [simp del]

definition u_elf_main :: "'x usys_scheme \<Rightarrow> (cstring \<times> u64 \<times> int) list run res" where
  "u_elf_main sys =
     bind_run (u_elf_open sys (map of_char ''fopen'')) (\<lambda>(ep, img).
     bind_res (u_elf_firstsym ep) (\<lambda>sy.
     bind_res (list_syms img ep sy) (\<lambda>ls.
     bind_run (u_elf_close sys ep) (\<lambda>_. Inr (Ret ls)))))"

section \<open>The two readers on the same file\<close>

text \<open>The module has the bytes \<open>img\<close> in the block \<open>(b, n)\<close>; the process has them mapped at \<open>base\<close>.\<close>
definition same_file :: "u8 list \<Rightarrow> addr \<Rightarrow> addr \<Rightarrow> u64 \<Rightarrow> 'a machine_scheme \<Rightarrow> bool" where
  "same_file img base b n s \<longleftrightarrow> heap_ok (live s) \<and> (b, n) \<in> set (live s) \<and> length img \<le> unat n \<and>
     load_bytes (mem s) b (length img) = img \<and> unat base + length img < 2 ^ 64"

text \<open>The address in the block that corresponds to one in the mapping, and the handle.\<close>
definition there :: "addr \<Rightarrow> addr \<Rightarrow> addr \<Rightarrow> addr" where
  "there base b a = b + (a - base)"

definition moved :: "addr \<Rightarrow> addr \<Rightarrow> addr \<Rightarrow> Elf_obj \<Rightarrow> Elf_obj" where
  "moved base b p ep = ep\<lparr>ep_self := p, maddr := there base b (maddr ep), ehdr := there base b (ehdr ep),
     symtab := map_option (there base b) (symtab ep), symtab_end := map_option (there base b) (symtab_end ep),
     strtab := map_option (there base b) (strtab ep), dsymtab := map_option (there base b) (dsymtab ep),
     dsymtab_end := map_option (there base b) (dsymtab_end ep), dstrtab := map_option (there base b) (dstrtab ep)\<rparr>"

lemma there_add: "there base b (a + d) = there base b a + d"
  by (simp add: there_def)

lemma load_le_as_list: "load_le k m a = le_nat (load_bytes m a k)"
proof (induction k arbitrary: a)
  case (Suc k)
  have "load_bytes m a (Suc k) = m a # load_bytes m (a + 1) k"
    by (simp add: load_bytes_def upt_conv_Cons map_Suc_upt [symmetric] add.assoc del: upt_Suc)
  then show ?case using Suc by simp
qed (simp add: load_bytes_def)

lemma load_bytes_slice:
  assumes "load_bytes m b (length img) = img" and "d + k \<le> length img"
  shows "load_bytes m (b + of_nat d) k = take k (drop d img)"
proof (rule nth_equalityI)
  show "length (load_bytes m (b + of_nat d) k) = length (take k (drop d img))" using assms(2) by (simp add: load_bytes_def)
  fix i assume "i < length (load_bytes m (b + of_nat d) k)"
  then have i: "i < k" by (simp add: load_bytes_def)
  have "img ! (d + i) = load_bytes m b (length img) ! (d + i)" using assms(1) by simp
  also have "\<dots> = m (b + of_nat (d + i))" using i assms(2) by (simp add: load_bytes_def)
  finally show "load_bytes m (b + of_nat d) k ! i = take k (drop d img) ! i"
    using i assms(2) by (simp add: load_bytes_def add.assoc)
qed

lemma load_bytes_append:
  "k \<le> r \<Longrightarrow> load_bytes m a r = load_bytes m a k @ load_bytes m (a + of_nat k) (r - k)"
  by (rule nth_equalityI) (auto simp: load_bytes_def nth_append add.assoc of_nat_diff)

lemma in_block:
  assumes "same_file img base b n s" and "unat base \<le> unat a" and "unat a + k \<le> unat base + length img"
  shows "there base b a = b + of_nat (unat a - unat base)" and "unat (there base b a) = unat b + (unat a - unat base)"
    and "unat b \<le> unat (there base b a)" and "unat (there base b a) + k \<le> unat b + unat n"
proof -
  let ?d = "unat a - unat base"
  have nw: "unat b + unat n < 2 ^ 64" "length img \<le> unat n"
    using assms(1) heap_ok_block by (auto simp: same_file_def no_wrap_def)
  have "unat (a - base) = ?d" using assms(2) by (simp add: unat_sub word_le_nat_alt)
  then show e: "there base b a = b + of_nat ?d" unfolding there_def by (metis of_nat_unat ucast_id)
  have "?d + k \<le> length img" using assms(2,3) by simp
  then show u: "unat (there base b a) = unat b + ?d" unfolding e using nw by (simp add: unat_word_ariths unat_of_nat)
  show "unat b \<le> unat (there base b a)" "unat (there base b a) + k \<le> unat b + unat n"
    using u assms(2,3) nw(2) by simp_all
qed

lemma load_there:
  assumes "same_file img base b n s" and "img_load img base k a = Inr bs"
  shows "hload k (there base b a) s = Inr (le_nat bs)" and "load_bytes (mem s) (there base b a) k = bs" and "length bs = k"
proof -
  have r: "unat base \<le> unat a" "unat a + k \<le> unat base + length img" and bs: "bs = take k (drop (unat a - unat base) img)"
    using assms(2) by (auto simp: img_load_def split: if_splits)
  have s: "heap_ok (live s)" "(b, n) \<in> set (live s)" "load_bytes (mem s) b (length img) = img"
    using assms(1) by (simp_all add: same_file_def)
  note ib = in_block [OF assms(1) r]
  show lb: "load_bytes (mem s) (there base b a) k = bs"
    unfolding ib(1) bs by (rule load_bytes_slice [OF s(3)]) (use r in simp)
  show "length bs = k" using r bs by simp
  show "hload k (there base b a) s = Inr (le_nat bs)"
    using hload_in_block [OF s(1,2) ib(3,4)] lb by (simp add: load_le_as_list)
qed

lemma load_bytes_part:
  assumes "load_bytes m a k = bs" and "d + j \<le> k"
  shows "load_bytes m (a + of_nat d) j = take j (drop d bs)"
  using assms by (intro load_bytes_slice) (auto simp: load_bytes_def)

lemma shdr_there:
  assumes "same_file img base b n s" and "u_shdr_at img base a = Inr h"
  shows "shdr_at (there base b a) s = Inr h"
proof -
  obtain bs where bs: "img_load img base 64 a = Inr bs" using assms(2) by (auto simp: u_shdr_at_def bind_res_eq_Inr)
  note l = load_there [OF assms(1) bs]
  note part = load_bytes_part [OF l(2), unfolded load_le_as_list]
  show ?thesis
    using assms(2) bs l(1) part [of 4 4] part [of "0x18" 8] part [of "0x20" 8] part [of "0x28" 4]
    by (simp add: u_shdr_at_def shdr_at_def load64_def load_le_as_list)
qed

lemma sym_there:
  assumes "same_file img base b n s" and "u_sym_at img base a = Inr y"
  shows "sym_at (there base b a) s = Inr y"
proof -
  obtain bs where bs: "img_load img base 24 a = Inr bs" using assms(2) by (auto simp: u_sym_at_def bind_res_eq_Inr)
  note l = load_there [OF assms(1) bs]
  note part = load_bytes_part [OF l(2)]
  have "mem s (there base b a + 4) = bs ! 4" using arg_cong [OF l(2), of "\<lambda>x. x ! 4"] by (simp add: load_bytes_def)
  then show ?thesis
    using assms(2) bs l(1) part [of 0 4] part [of 6 2] part [of 8 8] part [of 16 8]
    by (simp add: u_sym_at_def sym_at_def load64_def load_le_as_list)
qed

lemma moved_fields [simp]:
  "maddr (moved base b p ep) = there base b (maddr ep)" "ehdr (moved base b p ep) = there base b (ehdr ep)"
  "strtab (moved base b p ep) = map_option (there base b) (strtab ep)"
  "symtab (moved base b p ep) = map_option (there base b) (symtab ep)"
  "symtab_end (moved base b p ep) = map_option (there base b) (symtab_end ep)"
  by (simp_all add: moved_def)

lemma moved_set_symtab:
  "moved base b p (ep\<lparr>symtab := Some x, symtab_end := Some y, strtab := Some z\<rparr>) =
     (moved base b p ep)\<lparr>symtab := Some (there base b x), symtab_end := Some (there base b y), strtab := Some (there base b z)\<rparr>"
  "moved base b p (ep\<lparr>dsymtab := Some x, dsymtab_end := Some y, dstrtab := Some z\<rparr>) =
     (moved base b p ep)\<lparr>dsymtab := Some (there base b x), dsymtab_end := Some (there base b y), dstrtab := Some (there base b z)\<rparr>"
  by (simp_all add: moved_def)

lemma scan_there:
  assumes "same_file img (maddr ep) b n s" and "u_scan img k i shdr ep = Inr ep'"
  shows "scan_shdrs k i (there (maddr ep) b shdr) (moved (maddr ep) b p ep) s = Inr (moved (maddr ep) b p ep')"
  using assms
proof (induction k arbitrary: i ep)
  case (Suc k)
  let ?m = "maddr ep"
  obtain h where h: "u_shdr_at img ?m (shdr + 64 * of_nat i) = Inr h" using Suc.prems(2) by (auto simp: bind_res_eq_Inr)
  note sh = shdr_there [OF Suc.prems(1)]
  note h' = sh [OF h, unfolded there_add]
  show ?case
  proof (cases "sh_type h = SHT_SYMTAB \<or> sh_type h = SHT_DYNSYM")
    case False
    then show ?thesis using Suc.prems h h' Suc.IH [OF Suc.prems(1)] by simp
  next
    case True
    then obtain l where l: "u_shdr_at img ?m (shdr + 64 * ucast (sh_link h)) = Inr l"
      using Suc.prems(2) h by (auto simp: bind_res_eq_Inr SHT_SYMTAB_def SHT_DYNSYM_def)
    note l' = sh [OF l, unfolded there_add]
    have neq: "SHT_SYMTAB \<noteq> SHT_DYNSYM" by (simp add: SHT_SYMTAB_def SHT_DYNSYM_def)
    define ep1 where "ep1 = (if sh_type h = SHT_SYMTAB
      then ep\<lparr>symtab := Some (?m + sh_offset h), symtab_end := Some (?m + sh_offset h + sh_size h), strtab := Some (?m + sh_offset l)\<rparr>
      else ep\<lparr>dsymtab := Some (?m + sh_offset h), dsymtab_end := Some (?m + sh_offset h + sh_size h), dstrtab := Some (?m + sh_offset l)\<rparr>)"
    have m1: "maddr ep1 = ?m" by (simp add: ep1_def)
    have u: "u_scan img k (Suc i) shdr ep1 = Inr ep'" using Suc.prems(2) h l True neq by (auto simp: ep1_def)
    from Suc.IH [of ep1, unfolded m1, OF Suc.prems(1) u] h' l' True neq
    show ?thesis by (auto simp: ep1_def moved_set_symtab there_add)
  qed
qed simp

lemma header_there:
  assumes "same_file img (maddr ep) b n s" and "u_elf_header img ep = Inr r"
  shows "elf_header (moved (maddr ep) b p ep) s = Inr (map_option (moved (maddr ep) b p) r)"
proof -
  let ?m = "maddr ep"
  obtain magic where mg: "img_load img ?m 4 (ehdr ep) = Inr magic" using assms(2) by (auto simp: u_elf_header_def bind_res_eq_Inr)
  note mg' = load_there [OF assms(1) mg]
  show ?thesis
  proof (cases "magic = ELFMAG")
    case False
    then show ?thesis using assms(2) mg mg' by (simp add: u_elf_header_def elf_header_def)
  next
    case True
    then obtain off num ep' where o: "img_load img ?m 8 (ehdr ep + 0x28) = Inr off" "img_load img ?m 2 (ehdr ep + 0x3c) = Inr num"
      "u_scan img (le_nat num) 0 (?m + of_nat (le_nat off)) ep = Inr ep'" "r = Some ep'"
      using assms(2) mg by (auto simp: u_elf_header_def bind_res_eq_Inr)
    note o' = load_there(1) [OF assms(1) o(1)] load_there(1) [OF assms(1) o(2)]
    show ?thesis
      using True mg' o' scan_there [OF assms(1) o(3), of p] o(4) by (simp add: elf_header_def there_add)
  qed
qed

lemma str_there:
  assumes "same_file img base b n s" and "img_str img base p = Inr nm"
  shows "cstr_at (there base b p) s = Inr nm" and "there base b p \<noteq> 0"
proof -
  let ?d = "unat p - unat base"
  have p: "unat base \<le> unat p" "0 \<in> set (drop ?d img)" and nm: "nm = takeWhile (\<lambda>c. c \<noteq> 0) (drop ?d img)"
    using assms(2) by (auto simp: img_str_def Let_def split: if_splits)
  have d: "?d < length img" using p(2) by (cases "?d < length img") simp_all
  have s: "heap_ok (live s)" "(b, n) \<in> set (live s)" "load_bytes (mem s) b (length img) = img" "length img \<le> unat n"
    using assms(1) by (simp_all add: same_file_def)
  have one: "unat p + 1 \<le> unat base + length img" using d p(1) by simp
  note ib = in_block [OF assms(1) p(1) one]
  define r where "r = unat b + unat n - unat (there base b p)"
  have r: "length img - ?d \<le> r" using ib(2) s(4) d by (simp add: r_def)
  have "load_bytes (mem s) (there base b p) (length img - ?d) = drop ?d img"
    unfolding ib(1) using load_bytes_slice [OF s(3), of ?d "length img - ?d"] d by simp
  moreover have "load_bytes (mem s) (there base b p) r =
      load_bytes (mem s) (there base b p) (length img - ?d) @ load_bytes (mem s) (there base b p + of_nat (length img - ?d)) (r - (length img - ?d))"
    by (rule load_bytes_append [OF r])
  ultimately obtain z where z: "load_bytes (mem s) (there base b p) r = drop ?d img @ z" by metis
  have "takeWhile (\<lambda>c. c \<noteq> 0) (drop ?d img @ z) = takeWhile (\<lambda>c. c \<noteq> 0) (drop ?d img)"
    using p(2) by (metis (mono_tags, lifting) takeWhile_append1)
  then show "cstr_at (there base b p) s = Inr nm"
    using cstr_at_block [OF s(1,2) ib(3)] ib(4) z p(2) nm by (simp add: r_def [symmetric] Let_def)
  have "b \<noteq> 0" using heap_ok_block [OF s(1,2)] kernel_nonzero by auto
  then show "there base b p \<noteq> 0" using ib(3) by (auto simp: unat_eq_0)
qed

lemma sym_args_there:
  assumes "same_file img (maddr ep) b n s" and "sym_args img ep sy = Inr (nm, v, z)"
  shows "sym_entry (moved (maddr ep) b p ep) (there (maddr ep) b sy) s = Inr (if z = 0 then [] else [(nm, v, z)])"
proof -
  obtain t y where t: "strtab ep = Some t" "u_sym_at img (maddr ep) sy = Inr y" "v = st_value y" "z = st_size y"
    "img_str img (maddr ep) (t + ucast (st_name y)) = Inr nm"
    using assms(2) by (auto simp: sym_args_def u_elf_symname_def u_elf_symvalue_def u_elf_symsize_def bind_res_eq_Inr field_def split: option.splits)
  note y = sym_there [OF assms(1) t(2)] and nm = str_there [OF assms(1) t(5), unfolded there_add]
  then show ?thesis
    using t by (simp add: sym_entry_def elf_symname_def elf_symsize_def elf_symvalue_def field_def)
qed

text \<open>The end of the symbol table lies in the file.\<close>
definition end_in_file :: "u8 list \<Rightarrow> Elf_obj \<Rightarrow> bool" where
  "end_in_file img ep \<longleftrightarrow>
     (case symtab_end ep of
        None \<Rightarrow> False
      | Some e \<Rightarrow> unat (maddr ep) \<le> unat e \<and> unat e \<le> unat (maddr ep) + length img)"

text \<open>Then both readers go on to the next symbol, or neither does.\<close>
lemma nextsym_there:
  assumes "same_file img (maddr ep) b n s" and "end_in_file img ep" and "sym_args img ep sy = Inr x"
    and "unat (maddr ep) + length img < 2 ^ 64" and "u_elf_nextsym ep sy = Inr y1"
  shows "elf_nextsym (moved (maddr ep) b p ep) (there (maddr ep) b sy) =
      Inr (if y1 = 0 then 0 else there (maddr ep) b sy + 24)"
    and "y1 \<noteq> 0 \<Longrightarrow> y1 = sy + 24 \<and> there (maddr ep) b sy + 24 \<noteq> 0"
proof -
  let ?m = "maddr ep"
  obtain e where e: "symtab_end ep = Some e" "unat ?m \<le> unat e" "unat e \<le> unat ?m + length img"
    using assms(2) by (auto simp: end_in_file_def split: option.splits)
  have sy: "unat ?m \<le> unat sy" "unat sy + 24 \<le> unat ?m + length img"
    using assms(3) by (auto simp: sym_args_def u_elf_symname_def u_sym_at_def img_load_def bind_res_eq_Inr split: if_splits)
  have u: "unat (sy + 24) = unat sy + 24" using sy(2) assms(4) by (simp add: unat_word_ariths)
  have r1: "unat ?m \<le> unat (sy + 24)" "unat (sy + 24) + 0 \<le> unat ?m + length img" using sy u by simp_all
  have r2: "unat e + 0 \<le> unat ?m + length img" using e(3) by simp
  note a = in_block(2) [OF assms(1) r1] and c = in_block(2) [OF assms(1) e(2) r2]
  have "there ?m b (sy + 24) < there ?m b e \<longleftrightarrow> sy + 24 < e"
    using a c r1(1) e(2) by (auto simp: word_less_nat_alt)
  then have lt: "there ?m b sy + 24 < there ?m b e \<longleftrightarrow> sy + 24 < e" by (simp add: there_add)
  have y1: "y1 = (if sy + 24 < e then sy + 24 else 0)" using assms(5) e(1) by (simp add: u_elf_nextsym_def field_def Let_def)
  have nz: "sy + 24 \<noteq> 0" using u by (metis add_is_0 unat_0 zero_neq_numeral)
  show "elf_nextsym (moved ?m b p ep) (there ?m b sy) = Inr (if y1 = 0 then 0 else there ?m b sy + 24)"
    using lt y1 nz e(1) by (simp add: elf_nextsym_def field_def)
  have "b \<noteq> 0" using assms(1) heap_ok_block kernel_nonzero by (metis same_file_def)
  then have "0 < unat (there ?m b (sy + 24))" using a by (simp add: unat_gt_0 word_neq_0_conv)
  then have "there ?m b sy + 24 \<noteq> 0" unfolding there_add [symmetric] by (auto simp: unat_gt_0)
  then show "y1 \<noteq> 0 \<Longrightarrow> y1 = sy + 24 \<and> there ?m b sy + 24 \<noteq> 0" using y1 by (auto split: if_splits)
qed

text \<open>The file stays where it is while the table grows.\<close>
lemma same_file_stable:
  "same_file img base b n s \<Longrightarrow> heap_ok (live s') \<Longrightarrow> (b, n) \<in> set (live s') \<Longrightarrow> mem s' = mem s \<Longrightarrow> same_file img base b n s'"
  by (simp add: same_file_def)

abbreviation sized :: "(cstring \<times> u64 \<times> u64) list \<Rightarrow> (cstring \<times> u64 \<times> u64) list" where
  "sized l \<equiv> filter (\<lambda>(nm, v, z). z \<noteq> 0) l"

text \<open>The symbols of a table from an address on, which the bytes of the file determine.\<close>
definition syms_at :: "u8 list \<Rightarrow> Elf_obj \<Rightarrow> addr \<Rightarrow> (cstring \<times> u64 \<times> u64) list \<Rightarrow> bool" where
  "syms_at img ep sy l \<longleftrightarrow> map (\<lambda>i. sym_args img ep (sy + 24 * of_nat i)) [0 ..< length l] = map Inr l"

lemma syms_at_unique: "syms_at img ep sy l \<Longrightarrow> syms_at img ep sy l' \<Longrightarrow> length l' = length l \<Longrightarrow> l' = l"
  unfolding syms_at_def by (metis (no_types, lifting) inj_Inr inj_map_eq_map)

lemma syms_at_Cons [simp]: "syms_at img ep sy (x # l) \<longleftrightarrow> sym_args img ep sy = Inr x \<and> syms_at img ep (sy + 24) l"
proof -
  have "map (\<lambda>i. sym_args img ep (sy + 24 * of_nat i)) [0 ..< Suc (length l)] =
      sym_args img ep sy # map (\<lambda>i. sym_args img ep (sy + 24 + 24 * of_nat i)) [0 ..< length l]"
    by (simp add: map_upt_Suc algebra_simps del: upt_Suc)
  then show ?thesis by (simp add: syms_at_def)
qed

lemma syms_at_Nil [simp]: "syms_at img ep sy []"
  by (simp add: syms_at_def)

text \<open>The module's loop inserts what the program lists, one after the other.\<close>
lemma list_syms_there:
  fixes s :: "'a machine_scheme"
  assumes "alloc_ok al"
  shows "\<lbrakk>list_syms img ep sy = Inr ls; end_in_file img ep; same_file img (maddr ep) b n s; mapper_ok mp s; b \<notin> owned mp;
      \<forall>a \<in> set ls. short_str (fst a)\<rbrakk> \<Longrightarrow>
    \<exists>l. ls = map printed l \<and> syms_at img ep sy l \<and>
      parse_syms al (moved (maddr ep) b p ep) (there (maddr ep) b sy) (Some mp) s =
        bind_res (insert_all (insert_mapper al) (sized l) (Some mp) s) (\<lambda>(r, mo, s'). Inr (r \<noteq> -1, mo, s'))"
proof (induction img ep sy arbitrary: ls mp s rule: list_syms.induct)
  case (1 img ep sy)
  let ?m = "maddr ep" and ?ep = "moved (maddr ep) b p ep" and ?sy = "there (maddr ep) b sy"
  have small: "unat ?m + length img < 2 ^ 64" using 1(2) by (subst (asm) list_syms.simps) (auto split: if_splits)
  obtain x y1 where x: "sym_args img ep sy = Inr x" and nxt: "u_elf_nextsym ep sy = Inr y1"
    using 1(2) by (subst (asm) list_syms.simps) (auto simp: bind_res_eq_Inr list_sym_def split: if_splits)
  then have ls: "list_sym img ep sy = Inr (printed x)" by (simp add: list_sym_def)
  obtain nm v z where nvz: "x = (nm, v, z)" by (cases x)
  have e: "sym_entry ?ep ?sy s = Inr (sized [x])" using sym_args_there [OF 1(4), of sy nm v z p] x nvz by simp
  note nx = nextsym_there [OF 1(4,3) x small nxt]
  have unfold: "parse_syms al ?ep ?sy (Some mp) s =
      bind_res (insert_all (insert_mapper al) (sized [x]) (Some mp) s) (\<lambda>(ret, mo1, s1).
        if ret = -1 then Inr (False, mo1, s1)
        else if y1 = 0 then Inr (True, mo1, s1) else parse_syms al ?ep (?sy + 24) mo1 s1)"
    using nx by (subst parse_syms.simps) (auto simp: parse_sym_eq e bind_res_def split: sum.splits prod.splits)
  show ?case
  proof (cases "y1 = 0")
    case True
    then have "ls = [printed x]" using 1(2) small ls nxt by (subst (asm) list_syms.simps) simp
    then show ?thesis
      using True x unfold
      by (intro exI [of _ "[x]"]) (auto simp: bind_res_def split: sum.splits prod.splits)
  next
    case False
    then obtain ls' where ls': "list_syms img ep y1 = Inr ls'" "ls = printed x # ls'"
      using 1(2) small ls nxt by (subst (asm) list_syms.simps) (auto simp: bind_res_eq_Inr)
    have sy': "y1 = sy + 24" using nx(2) False by simp
    have str: "\<forall>a \<in> set (sized [x]). short_str (fst a)" "\<forall>a \<in> set ls'. short_str (fst a)"
      using 1(7) ls'(2) nvz by (auto simp: printed_def)
    have ih: "\<exists>l. ls' = map printed l \<and> syms_at img ep y1 l \<and>
        parse_syms al ?ep (there ?m b y1) (Some mp') s' =
          bind_res (insert_all (insert_mapper al) (sized l) (Some mp') s') (\<lambda>(r, mo, s'). Inr (r \<noteq> -1, mo, s'))"
      if "same_file img ?m b n s'" "mapper_ok mp' s'" "b \<notin> owned mp'" for mp' and s' :: "'a machine_scheme"
      by (rule 1(1) [OF _ ls nxt False ls'(1) 1(3) that str(2)]) (use small in simp)
    from ih [OF 1(4-6)] obtain l where l: "ls' = map printed l" "syms_at img ep y1 l" by blast
    have only: "l' = l" if "ls' = map printed l'" "syms_at img ep y1 l'" for l'
      using syms_at_unique [OF l(2) that(2)] that(1) l(1) by (metis length_map)
    have args: "syms_at img ep sy (x # l)" using l(2) x sy' by simp
    have "parse_syms al ?ep ?sy (Some mp) s =
        bind_res (insert_all (insert_mapper al) (sized [x] @ sized l) (Some mp) s) (\<lambda>(r, mo, s'). Inr (r \<noteq> -1, mo, s'))"
    proof (cases "insert_all (insert_mapper al) (sized [x]) (Some mp) s")
      case (Inl f)
      then show ?thesis using unfold by (simp add: insert_all_append)
    next
      case (Inr i)
      obtain r mo1 s1 where i: "i = (r, mo1, s1)" by (cases i)
      have blk: "(b, n) \<in> set (live s)" using 1(4) by (simp add: same_file_def)
      have len: "length (sized [x]) \<le> 1" by simp
      from assms 1(5) blk 1(6) len str(1) Inr [unfolded i] obtain mp1 where
        m: "mo1 = Some mp1" "mapper_ok mp1 s1" "(b, n) \<in> set (live s1)" "b \<notin> owned mp1" "mem s1 = mem s"
        by (rule insert_entry_keeps)
      have "same_file img ?m b n s1"
        using same_file_stable [OF 1(4) mapper_okD(1) [OF m(2)] m(3,5)] .
      from ih [OF this m(2,4)] only obtain "parse_syms al ?ep (there ?m b y1) (Some mp1) s1 =
          bind_res (insert_all (insert_mapper al) (sized l) (Some mp1) s1) (\<lambda>(r, mo, s'). Inr (r \<noteq> -1, mo, s'))"
        by metis
      then show ?thesis
        using unfold Inr i m(1) False by (simp add: insert_all_append sy' there_add)
    qed
    moreover have "sized (x # l) = sized [x] @ sized l" by simp
    ultimately show ?thesis using args ls'(2) l(1) by (intro exI [of _ "x # l"]) (simp only: list.map simp_thms)
  qed
qed

text \<open>
  C8. On the same file the module's reader finds what the reader for user space finds: when the
  latter runs without a fault, the former accepts or refuses the bytes in the same way, and its
  handle has the symbol and string tables at the same offsets, for any two places the file is at.
\<close>
theorem elf_readers_agree:
  assumes "same_file img (maddr ep) b n s" and "u_elf_header img ep = Inr r"
  shows "elf_header (moved (maddr ep) b p ep) s = Inr (map_option (moved (maddr ep) b p) r)"
  using assms by (rule header_there)

text \<open>
  C23. What the module enters into its function table is what the program for user space lists
  of the same file: for every symbol that is listed, in the same order, the module inserts the
  name, the value and the size, except for symbols of size 0. All of them are in the table behind
  the old entries, unless an insertion fails, then a proper part of them is, or the allocation of
  a name gives NULL. The listing shows of a size only its low 32 bits, as a signed number. The
  end of the symbol table has to lie in the file.
\<close>
theorem listing_is_table:
  assumes "alloc_ok al" and "list_syms img ep sy = Inr ls" and "end_in_file img ep"
    and "same_file img (maddr ep) b n s" and "mapper_ok mp s" and "b \<notin> owned mp" and "\<forall>a \<in> set ls. short_str (fst a)"
  shows "\<exists>l. ls = map printed l \<and> syms_at img ep sy l \<and>
    (let r = parse_syms al (moved (maddr ep) b p ep) (there (maddr ep) b sy) (Some mp) s
     in r = Inl NullDeref \<or>
        (\<exists>mo s'. r = Inr (True, mo, s') \<and> table_entries mo = entries mp @ sized l) \<or>
        (\<exists>mo s' j. r = Inr (False, mo, s') \<and> j < length (sized l) \<and> table_entries mo = entries mp @ take j (sized l)))"
proof -
  obtain l where l: "ls = map printed l" "syms_at img ep sy l"
    and eq: "parse_syms al (moved (maddr ep) b p ep) (there (maddr ep) b sy) (Some mp) s =
        bind_res (insert_all (insert_mapper al) (sized l) (Some mp) s) (\<lambda>(r, mo, s'). Inr (r \<noteq> -1, mo, s'))"
    using list_syms_there [OF assms] by blast
  have t: "table_ok al (Some mp) s" using assms(1,5) by (simp add: table_ok_def)
  have str: "\<forall>e \<in> set (sized l). short_str (fst e)" using assms(7) l(1) by (auto simp: printed_def)
  have ents: "table_entries (Some mp) = entries mp" by (simp add: table_entries_def)
  show ?thesis
  proof (intro exI conjI)
    show "ls = map printed l" "syms_at img ep sy l" by (fact l)+
    show "let r = parse_syms al (moved (maddr ep) b p ep) (there (maddr ep) b sy) (Some mp) s
     in r = Inl NullDeref \<or>
        (\<exists>mo s'. r = Inr (True, mo, s') \<and> table_entries mo = entries mp @ sized l) \<or>
        (\<exists>mo s' j. r = Inr (False, mo, s') \<and> j < length (sized l) \<and> table_entries mo = entries mp @ take j (sized l))"
    proof (cases "insert_all (insert_mapper al) (sized l) (Some mp) s")
      case (Inl f)
      then show ?thesis using ft.insert_all_fault [OF Inl t str] eq by simp
    next
      case (Inr x)
      obtain r mo s' where x: "x = (r, mo, s')" by (cases x)
      show ?thesis using ft.insert_all_ok [OF Inr [unfolded x] t str] Inr x eq ents by (cases "r = 0") auto
    qed
  qed
qed

lemma u_scan_no_symtab:
  assumes "u_scan img k i shdr ep = Inr ep'"
    and "\<And>j h. i \<le> j \<Longrightarrow> j < i + k \<Longrightarrow> u_shdr_at img (maddr ep) (shdr + 64 * of_nat j) = Inr h \<Longrightarrow> sh_type h \<noteq> SHT_SYMTAB"
  shows "symtab ep' = symtab ep \<and> maddr ep' = maddr ep"
  using assms
proof (induction k arbitrary: i ep)
  case (Suc k)
  obtain h where h: "u_shdr_at img (maddr ep) (shdr + 64 * of_nat i) = Inr h" using Suc.prems(1) by (auto simp: bind_res_eq_Inr)
  have "sh_type h \<noteq> SHT_SYMTAB" using Suc.prems(2) [of i] h by simp
  with h Suc.prems(1) obtain ep1 where e: "u_scan img k (Suc i) shdr ep1 = Inr ep'" "symtab ep1 = symtab ep" "maddr ep1 = maddr ep"
    by (auto simp: bind_res_eq_Inr split: if_splits)
  have "sh_type h' \<noteq> SHT_SYMTAB"
    if "Suc i \<le> j" "j < Suc i + k" "u_shdr_at img (maddr ep1) (shdr + 64 * of_nat j) = Inr h'" for j h'
    using Suc.prems(2) [of j h'] that e(3) by simp
  from Suc.IH [OF e(1) this] e(2,3) show ?case by simp
qed simp

lemma scan_maddr: "u_scan img k i shdr ep = Inr ep' \<Longrightarrow> maddr ep' = maddr ep"
proof (induction k arbitrary: i ep)
  case (Suc k)
  then obtain ep1 where "u_scan img k (Suc i) shdr ep1 = Inr ep'" "maddr ep1 = maddr ep"
    by (auto simp: bind_res_eq_Inr split: if_splits)
  then show ?case using Suc.IH by metis
qed simp

lemma img_load_at:
  assumes "img_load img a k (a + of_nat d) = Inr bs" and "d < 2 ^ 64"
  shows "bs = take k (drop d img)"
proof -
  have r: "unat a \<le> unat (a + of_nat d)" "bs = take k (drop (unat (a + of_nat d) - unat a) img)"
    using assms(1) by (auto simp: img_load_def split: if_splits)
  have "unat (a + of_nat d) - unat a = unat (a + of_nat d - a)"
    using unat_sub [of a "a + of_nat d"] r(1) by (simp only: word_le_nat_alt)
  then show ?thesis using r(2) assms(2) by (simp add: unat_of_nat)
qed

text \<open>
  The program reports no symbol of a file without a symbol table, and does not stop either:
  \<open>elf_open\<close> returns a handle whose fields it has not written, and the first of them is used.
\<close>
lemma user_stripped:
  assumes "u_elf_open sys (map of_char ''fopen'') = Inr (Ret (ep, img))"
    and "\<forall>j h. j < le_nat (take 2 (drop 0x3c img)) \<longrightarrow>
      u_shdr_at img (maddr ep) (maddr ep + of_nat (le_nat (take 8 (drop 0x28 img))) + 64 * of_nat j) = Inr h \<longrightarrow> sh_type h \<noteq> SHT_SYMTAB"
  shows "u_elf_main sys = Inl Uninitialised"
proof -
  obtain a ep0 where h: "u_elf_header img ep0 = Inr (Some ep)" "maddr ep0 = a" "ehdr ep0 = a" "symtab ep0 = None"
    using assms(1) by (auto simp: u_elf_open_def bind_res_eq_Inr Let_def split: if_splits prod.splits option.splits)
  obtain off num where o: "img_load img a 8 (a + 0x28) = Inr off" "img_load img a 2 (a + 0x3c) = Inr num"
    "u_scan img (le_nat num) 0 (a + of_nat (le_nat off)) ep0 = Inr ep"
    using h by (auto simp: u_elf_header_def bind_res_eq_Inr split: if_splits)
  have e: "off = take 8 (drop 0x28 img)" "num = take 2 (drop 0x3c img)"
    using img_load_at [of img a 8 "0x28"] img_load_at [of img a 2 "0x3c"] o(1,2) by simp_all
  have m: "maddr ep = a" using scan_maddr [OF o(3)] h(2) by simp
  have "symtab ep = None" using u_scan_no_symtab [OF o(3)] assms(2) h(2,4) m e by auto
  then show ?thesis using assms(1) by (simp add: u_elf_main_def u_elf_firstsym_def field_def)
qed

section \<open>Witnesses\<close>

text \<open>The files of \<open>Parse_Elf\<close>, mapped at 0x5000.\<close>

definition map_obj :: "u32 \<Rightarrow> Elf_obj" where
  "map_obj len = \<lparr>ep_self = 0x100, maddr = 0x5000, mlen = len, ehdr = 0x5000, symtab = None, symtab_end = None,
     strtab = None, dsymtab = None, dsymtab_end = None, dstrtab = None\<rparr>"

definition map_sym_obj :: Elf_obj where
  "map_sym_obj = (map_obj 28)\<lparr>symtab := Some 0x5000, symtab_end := Some 0x5018, strtab := Some 0x5018\<rparr>"

lemma map_sym_file: "same_file sym_bytes 0x5000 sym_base 28 sym_state"
proof -
  have "length sym_bytes = 28" by (simp add: sym_bytes_def)
  moreover have "load_bytes (mem sym_state) sym_base (length sym_bytes) = sym_bytes"
    using load_store_bytes [of sym_bytes "\<lambda>_. 0" sym_base] calculation by (simp add: sym_state_def)
  ultimately show ?thesis
    using sym_table_ok by (simp add: same_file_def mapper_ok_def) (simp add: sym_defs)
qed

lemma map_sym_args: "sym_args sym_bytes map_sym_obj 0x5000 = Inr ([0x6d], 0x400600, 16)"
  by (simp add: sym_args_def u_elf_symname_def u_elf_symvalue_def u_elf_symsize_def
      u_sym_at_def img_load_def img_str_def field_def map_sym_obj_def map_obj_def sym_bytes_def)

lemma map_sym_list: "list_syms sym_bytes map_sym_obj 0x5000 = Inr [([0x6d], 0x400600, 16)]"
  by (simp add: list_syms.simps list_sym_def map_sym_args printed_def u_elf_nextsym_def field_def)
    (simp add: map_sym_obj_def map_obj_def sym_bytes_def)

lemma map_sym_only:
  assumes "[([0x6d], 0x400600, 16)] = map printed l"
    and "syms_at sym_bytes map_sym_obj 0x5000 l"
  shows "l = [([0x6d], 0x400600, 16)]"
proof -
  obtain x where "l = [x]" using assms(1) by (cases l) auto
  then show ?thesis using assms(2) map_sym_args by simp
qed

theorem listing_is_table_witness:
  "\<exists>mo s'. parse_syms bump (moved 0x5000 sym_base 0 map_sym_obj) sym_base (Some demo_table) sym_state = Inr (True, mo, s') \<and>
     table_entries mo = entries demo_table @ [([0x6d], 0x400600, 16)]"
proof -
  have m: "maddr map_sym_obj = 0x5000" by (simp add: map_sym_obj_def map_obj_def)
  have e: "end_in_file sym_bytes map_sym_obj" by (simp add: end_in_file_def map_sym_obj_def map_obj_def sym_bytes_def)
  have own: "sym_base \<notin> owned demo_table" by (simp add: sym_defs owned_def written_def)
  have str: "\<forall>a \<in> set [([0x6d :: u8], 0x400600 :: u64, 16 :: int)]. short_str (fst a)" by (simp add: short_str_def)
  have t: "there 0x5000 sym_base 0x5000 = sym_base" by (simp add: there_def)
  from listing_is_table [of bump _ map_sym_obj, unfolded m, OF alloc_ok_bump map_sym_list e map_sym_file sym_table_ok own str, of 0]
  obtain l where l: "[([0x6d], 0x400600, 16)] = map printed l"
    "syms_at sym_bytes map_sym_obj 0x5000 l"
    and r: "let r = parse_syms bump (moved 0x5000 sym_base 0 map_sym_obj) (there 0x5000 sym_base 0x5000) (Some demo_table) sym_state
     in r = Inl NullDeref \<or>
        (\<exists>mo s'. r = Inr (True, mo, s') \<and> table_entries mo = entries demo_table @ sized l) \<or>
        (\<exists>mo s' j. r = Inr (False, mo, s') \<and> j < length (sized l) \<and> table_entries mo = entries demo_table @ take j (sized l))"
    by (elim exE conjE)
  note only = map_sym_only [OF l]
  obtain l' where l': "[([0x6d], 0x400600, 16)] = map printed l'"
    "syms_at sym_bytes map_sym_obj 0x5000 l'"
    and p: "parse_syms bump (moved 0x5000 sym_base 0 map_sym_obj) (there 0x5000 sym_base 0x5000) (Some demo_table) sym_state =
      bind_res (insert_all (insert_mapper bump) (sized l') (Some demo_table) sym_state) (\<lambda>(r, mo, s'). Inr (r \<noteq> -1, mo, s'))"
    using list_syms_there [of bump _ map_sym_obj, unfolded m, OF alloc_ok_bump map_sym_list e map_sym_file sym_table_ok own str, of 0]
    by (elim exE conjE)
  have "\<exists>mo s'. parse_syms bump (moved 0x5000 sym_base 0 map_sym_obj) sym_base (Some demo_table) sym_state = Inr (True, mo, s')"
    using p sym_insert unfolding map_sym_only [OF l'] t by auto
  then show ?thesis using r unfolding t Let_def only by auto
qed

lemma map_stripped_file: "same_file stripped_file 0x5000 (kernel_base + 72) 128 stripped_state"
proof -
  have "load_bytes (mem stripped_state) (kernel_base + 72) (length stripped_file) = stripped_file"
    using load_store_bytes [of stripped_file "\<lambda>_. 0" "kernel_base + 72"] by (simp add: stripped_state_def)
  then show ?thesis
    by (simp add: same_file_def heap_ok_def apart_def no_wrap_def) (simp add: stripped_defs)
qed

lemma map_stripped_shdr: "\<exists>h. u_shdr_at stripped_file 0x5000 0x5040 = Inr h \<and> sh_type h = 1"
  by (simp add: u_shdr_at_def img_load_def) (simp add: stripped_file_def ELFMAG_def)

lemma map_stripped_header: "u_elf_header stripped_file (map_obj 128) = Inr (Some (map_obj 128))"
proof -
  have l: "img_load stripped_file 0x5000 4 0x5000 = Inr ELFMAG" "img_load stripped_file 0x5000 8 0x5028 = Inr [64, 0, 0, 0, 0, 0, 0, 0]"
    "img_load stripped_file 0x5000 2 0x503c = Inr [1, 0]"
    by (simp_all add: img_load_def) (simp_all add: stripped_file_def ELFMAG_def)
  obtain h where h: "u_shdr_at stripped_file 0x5000 0x5040 = Inr h" "sh_type h = 1" using map_stripped_shdr by blast
  have m: "maddr (map_obj 128) = 0x5000" "ehdr (map_obj 128) = 0x5000" by (simp_all add: map_obj_def)
  have n: "le_nat [64, 0, 0, 0, 0, 0, 0, 0] = 64" "le_nat [1, 0] = Suc 0" by simp_all
  have scan: "u_scan stripped_file (Suc 0) 0 (0x5000 + of_nat 64) (map_obj 128) = Inr (map_obj 128)"
    using h by (simp add: m SHT_SYMTAB_def SHT_DYNSYM_def)
  have "(0x5000 :: u64) + 0x28 = 0x5028" "(0x5000 :: u64) + 0x3c = 0x503c" by simp_all
  then show ?thesis using l by (simp only: u_elf_header_def m n scan bind_res_Inr simp_thms if_False refl)
qed

theorem elf_readers_agree_witness:
  "elf_header (moved 0x5000 (kernel_base + 72) kernel_base (map_obj 128)) stripped_state =
     Inr (Some (moved 0x5000 (kernel_base + 72) kernel_base (map_obj 128)))"
proof -
  have m: "maddr (map_obj 128) = 0x5000" by (simp add: map_obj_def)
  from elf_readers_agree [of _ "map_obj 128", unfolded m, OF map_stripped_file map_stripped_header]
  show ?thesis by simp
qed

end
