(* ===== verification/Hello_Pass.thy ===== *)
theory Hello_Pass
  imports Prelude
begin

text \<open>
  The compiler pass, \<open>llvm/Hello.cpp\<close>: behind every direct call to \<open>multi\<close> it puts a system
  call as inline assembly and a call to \<open>invoke\<close> with a constant string. LLVM is not part of the
  repository; of its representation the model has what the pass looks at and creates: functions
  with a name, basic blocks and instructions, where a call has an operand that is a function, an
  address or a piece of assembly.
\<close>

section \<open>Code\<close>

datatype callee = Named string | Indirect | InlineAsm string

datatype operand = Str string | Int32 u32 | Int64 u64 | Opaque nat

datatype instr = CallInst callee "operand list" | OtherInst string nat

record func =
  fname :: string
  blocks :: "instr list list"

text \<open>\<open>getCalledFunction\<close>: NULL for a call through a pointer and for assembly.\<close>
fun getCalledFunction :: "callee \<Rightarrow> string option" where
  "getCalledFunction (Named f) = Some f"
| "getCalledFunction Indirect = None"
| "getCalledFunction (InlineAsm a) = None"

definition is_multi :: "instr \<Rightarrow> bool" where
  "is_multi i = (case i of CallInst c args \<Rightarrow> getCalledFunction c = Some ''multi'' | OtherInst opcode n \<Rightarrow> False)"

section \<open>The pass\<close>

text \<open>The call \<open>ci\<close> of the function that was found, and the system call \<open>asmi\<close> with number 316.\<close>
definition ci :: instr where
  "ci = CallInst (Named ''invoke'') [Str ''hahaha'']"

definition asmi :: instr where
  "asmi = CallInst (InlineAsm ''syscall'') [Int32 316, Int64 0x56465f0]"

text \<open>
  The iterator over the instructions of a block. \<open>found\<close> says that \<open>insert_func\<close> is set; both new
  instructions are put behind the call at which the iterator is, the second one before the first,
  and the iterator goes on to them. The number of new global strings is counted. A call can only
  be created for a function that was found.
\<close>
function walk_block :: "bool \<Rightarrow> instr list \<Rightarrow> (instr list \<times> nat) res" where
  "walk_block found [] = Inr ([], 0)"
| "walk_block found (i # is) =
     (if is_multi i
      then if \<not> found then Inl NullDeref
           else bind_res (walk_block found (asmi # ci # is)) (\<lambda>(is', n). Inr (i # is', Suc n))
      else bind_res (walk_block found is) (\<lambda>(is', n). Inr (i # is', n)))"
  by pat_completeness auto
termination
  by (relation "measure (\<lambda>(found, is). \<Sum>i\<leftarrow>is. if is_multi i then 4 else 1)")
    (simp_all add: is_multi_def asmi_def ci_def)

fun walk_blocks :: "bool \<Rightarrow> instr list list \<Rightarrow> (instr list list \<times> nat) res" where
  "walk_blocks found [] = Inr ([], 0)"
| "walk_blocks found (b # bs) =
     bind_res (walk_block found b) (\<lambda>(b', n). bind_res (walk_blocks found bs) (\<lambda>(bs', k). Inr (b' # bs', n + k)))"

text \<open>
  The result, which says whether the function was changed, the new state of \<open>insert_func\<close>, the
  function and the number of new globals.
\<close>
definition runOnFunction :: "bool \<Rightarrow> func \<Rightarrow> (bool \<times> bool \<times> func \<times> nat) res" where
  "runOnFunction insert_func F =
     (let found = (insert_func \<or> fname F = ''invoke'')
      in bind_res (walk_blocks found (blocks F)) (\<lambda>(bs, n). Inr (False, found, F\<lparr>blocks := bs\<rparr>, n)))"

text \<open>The pass is run on the functions of a module one after the other.\<close>
fun run_functions :: "bool \<Rightarrow> func list \<Rightarrow> (func list \<times> nat) res" where
  "run_functions insert_func [] = Inr ([], 0)"
| "run_functions insert_func (F # Fs) =
     bind_res (runOnFunction insert_func F) (\<lambda>(changed, found, F', n).
     bind_res (run_functions found Fs) (\<lambda>(Fs', k). Inr (F' # Fs', n + k)))"

text \<open>The second pass of the file counts functions, in an \<open>unsigned\<close>.\<close>
definition hello2_runOnFunction :: "u32 \<Rightarrow> func \<Rightarrow> bool \<times> u32" where
  "hello2_runOnFunction HelloCounter F = (False, HelloCounter + 1)"

section \<open>Properties\<close>

text \<open>What becomes of one instruction.\<close>
definition expand :: "instr \<Rightarrow> instr list" where
  "expand i = (if is_multi i then [i, asmi, ci] else [i])"

definition multis :: "instr list list \<Rightarrow> nat" where
  "multis bs = length (filter is_multi (concat bs))"

lemma new_not_multi [simp]: "\<not> is_multi asmi" "\<not> is_multi ci"
  by (simp_all add: is_multi_def asmi_def ci_def)

lemma expand_simps: "is_multi i \<Longrightarrow> expand i = [i, asmi, ci]" "\<not> is_multi i \<Longrightarrow> expand i = [i]"
  by (simp_all add: expand_def)

lemma walk_block_eq:
  "walk_block found is = (if \<not> found \<and> (\<exists>i \<in> set is. is_multi i) then Inl NullDeref
     else Inr (concat (map expand is), length (filter is_multi is)))"
  by (induction found "is" rule: walk_block.induct) (auto simp: expand_def [of asmi] expand_def [of ci] expand_simps)

lemma walk_blocks_eq:
  "walk_blocks found bs = (if \<not> found \<and> 0 < multis bs then Inl NullDeref
     else Inr (map (\<lambda>b. concat (map expand b)) bs, multis bs))"
  by (induction bs) (auto simp: walk_block_eq multis_def filter_empty_conv split: if_splits)

text \<open>A function is reported as unchanged in any case.\<close>
lemma run_eq:
  "runOnFunction insert_func F =
     (let found = (insert_func \<or> fname F = ''invoke'')
      in if \<not> found \<and> 0 < multis (blocks F) then Inl NullDeref
         else Inr (False, found, F\<lparr>blocks := map (\<lambda>b. concat (map expand b)) (blocks F)\<rparr>, multis (blocks F)))"
  by (simp add: runOnFunction_def walk_blocks_eq Let_def)

text \<open>
  C37. On a module the pass succeeds exactly when no function before \<open>invoke\<close> calls \<open>multi\<close>. Then
  every instruction is kept in its place, and the system call and, behind it, the call to
  \<open>invoke\<close> follow each direct call to \<open>multi\<close> and nothing else, with one new string for each; the
  instructions that were put in are visited too and left alone.
\<close>
theorem pass_on_module:
  "run_functions False Fs =
     (if \<exists>F \<in> set (takeWhile (\<lambda>F. fname F \<noteq> ''invoke'') Fs). 0 < multis (blocks F) then Inl NullDeref
      else Inr (map (\<lambda>F. F\<lparr>blocks := map (\<lambda>b. concat (map expand b)) (blocks F)\<rparr>) Fs, \<Sum>F\<leftarrow>Fs. multis (blocks F)))"
proof -
  have found: "run_functions True Fs = Inr (map (\<lambda>F. F\<lparr>blocks := map (\<lambda>b. concat (map expand b)) (blocks F)\<rparr>) Fs,
      \<Sum>F\<leftarrow>Fs. multis (blocks F))" for Fs
    by (induction Fs) (simp_all add: run_eq)
  show ?thesis
  proof (induction Fs)
    case (Cons F Fs)
    then show ?case by (cases "fname F = ''invoke''") (auto simp: run_eq found Let_def)
  qed simp
qed

theorem pass_on_module_witness:
  "run_functions False [\<lparr>fname = ''invoke'', blocks = []\<rparr>,
      \<lparr>fname = ''main'', blocks = [[CallInst (Named ''multi'') [Opaque 1], OtherInst ''ret'' 0]]\<rparr>] =
    Inr ([\<lparr>fname = ''invoke'', blocks = []\<rparr>,
      \<lparr>fname = ''main'', blocks = [[CallInst (Named ''multi'') [Opaque 1], asmi, ci, OtherInst ''ret'' 0]]\<rparr>], 1)"
  by (subst pass_on_module) (simp add: multis_def expand_def is_multi_def)

end
