(* ===== verification/Spec2Isabelle.thy ===== *)
theory Spec2Isabelle
  imports Probes Write_Path Stack_Encrypt Server Readmem Kprobe Stack_Clear Elf_User Hello_Pass
begin

text \<open>
  A verification development for \<^emph>\<open>Cloud-Memory-Security\<close>: a Linux kernel module that hides the
  stack frames of a program's sensitive functions while they call code that is not trusted, and
  the programs around it. All paths below are under \<open>src/\<close>.

  \<^bold>\<open>The program.\<close> A patched kernel has two system calls that do nothing by themselves, \<open>encrypt_stack\<close>
  (number 316) and \<open>decrypt_stack\<close>; a program makes them around calls of untrusted functions, and an
  experimental compiler pass (\<open>llvm/Hello.cpp\<close>) inserts the first. The module (\<open>kernel_probe/\<close>)
  puts a probe on each. On the first call it reads the symbols of the executable (\<open>parse_elf.c\<close> with
  \<open>file_ops.c\<close>) into a table of functions (\<open>mapper.c\<close>). On \<open>encrypt_stack\<close> it finds the calling function in the table, saves the bytes of its frame that
  belong to no parameter (\<open>stack_buf.c\<close>), overwrites them and pushes the frame; on
  \<open>decrypt_stack\<close> it pops the frame and writes the bytes back. An older design encrypts the frame
  with a key in place (\<open>stack_encrypt.c\<close>), and a still older one asks a server at user level to
  encrypt the frame in physical memory (\<open>clear_stack/\<close>).

  \<^bold>\<open>Theories.\<close>
  \<^item> \<open>Prelude\<close>: machine words, faults as values (\<open>res\<close>), byte-addressed memory, C strings, and the
    lemmas on words, regions and memories that the others use. \<open>Machine\<close>: the state of the kernel
    that the module uses (memory, live blocks of \<open>kmalloc\<close>, address limit, descriptors), with the
    allocator as a parameter and \<open>alloc_ok\<close> as what is assumed of it; \<open>bump\<close> is an allocator that
    satisfies it. \<open>Params\<close>: the parameter list of \<open>kernel_patches/patch3.diff\<close>.
  \<^item> \<open>Mapper\<close> (\<open>mapper.c\<close>): the table of functions as the code keeps it, an invariant, and the locale
    \<open>func_table\<close>, the contract of a table of code ranges, interpreted on \<open>insert_mapper\<close> and
    \<open>get_func_name\<close>.
  \<^item> \<open>File_Ops\<close> (\<open>file_ops.c\<close>) and \<open>Parse_Elf\<close> (\<open>parse_elf.c\<close>): loading an executable and entering its
    symbols; the VFS is a parameter. \<open>Elf_User\<close> (\<open>parse_elf/elf.c\<close>): the reader for user space, which
    maps the file, and the proof that the two readers agree on a file.
  \<^item> \<open>Stack_Buf\<close> (\<open>stack_buf.c\<close>): arrays of saved segments with holes; the locale \<open>stack_store\<close> is what a
    client may rely on when it saves and restores, interpreted on \<open>copy_stack_buf\<close> and
    \<open>restore_stack_buf\<close>. The kernel's list sort is a parameter.
  \<^item> \<open>Jprobe\<close> (\<open>jprobe.c\<close>): the globals of the module as the record \<open>kst\<close>, both handlers with all their
    branches, loading and unloading. \<open>Vault\<close>: what the handlers do to the memory of the program.
    \<open>Pointers\<close>: what they do for parameters that are pointers, \<open>restore_pointers\<close>, which writes back
    the words and the object a pointer leads to and makes them holes of the saved frame.
    \<open>Probes\<close>: an abstract machine with a stack of hidden frames, and the proof that the handlers
    implement it, also for nested calls. \<open>Write_Path\<close>: the probes on the write path.
  \<^item> \<open>Stack_Encrypt\<close> (\<open>stack_encrypt.c\<close>): encryption with a key. \<open>Kprobe\<close> (\<open>kprobe.c\<close>): the example of a
    probe. \<open>Readmem\<close> (\<open>readmem.c\<close>): the reader of physical memory.
  \<^item> \<open>Libc\<close>: what the programs at user level use of the C library. \<open>Hash_Table\<close> and \<open>Hash_Map\<close>
    (\<open>clear_stack/hash.c\<close>): the linked hash table in an explicit store and the locale \<open>kv_store\<close>, the
    contract of a map, interpreted on \<open>htSet\<close> and \<open>htGet\<close>. \<open>Pagemap\<close> and \<open>Server\<close>
    (\<open>clear_stack/stack_encrypt_server.c\<close>, \<open>stack_encrypt_client.c\<close>): physical frames, the server's
    loop, and its client. \<open>Stack_Clear\<close> (\<open>clear_stack/stack_clear.c\<close>): the hooks that clear a stack.
  \<^item> \<open>Hello_Pass\<close> (\<open>llvm/Hello.cpp\<close>): the compiler pass.

  \<^bold>\<open>How code is modelled.\<close> A struct is a record, an array a list, a C integer a word of its width
  or, for an \<open>int\<close> that only counts, an integer or a natural number. Bytes are in one memory, except
  for what only one structure refers to: the names in the function table and on the call stack, the
  elements of the arrays of segments with their holes, and the entries of the hash table are values
  kept with the address of their block. The parameter list is a value too, so overwriting the frame does not change it. A NULL dereference, an access outside an array or a
  block, a use of freed or uninitialised memory, a bad \<open>free\<close> and a division by zero are values of
  \<open>fault\<close>; \<open>exit\<close> is the value \<open>Exit\<close> of \<open>run\<close>. Variables that the code does not initialise are
  parameters or unwritten fields. Loops are recursions with termination proofs. Three loops may run
  forever, and for them not returning is the value \<open>None\<close>: the scan of a frame (\<open>enc_loop\<close>), a
  walk along a bin of the hash table (\<open>walk\<close>), and the server's loop, which is followed for as many
  connections as arrive. For the first two the theorems say when they return. There is no fuel.

  \<^bold>\<open>What is shown.\<close> For the module: hiding and revealing refine the abstract machine, for nested calls
  and with any allocator that satisfies \<open>alloc_ok\<close>, and a round trip gives every hidden byte back. The
  calls are those with a frame of at most 2 GB, parameters at different addresses, fewer than 32
  of them passed by value and those not overlapping, and at most sixteen frames hidden at a time (\<open>call_ok\<close>); what pointer
  parameters lead to has to lie in the first saved segment and not to overlap (\<open>pointers_first\<close>), and
  a theorem shows that a frame can be revealed again exactly under this condition. The
  table of functions and the arrays of segments satisfy their contracts; the symbol loop ends and
  enters what the file has, which is what the reader for user space lists, without symbols of size
  0; the page shown by the probe on \<open>vfs_write\<close> is that of the last copy by the process that had
  then begun the latest write. For the other designs: encryption with a key is undone by decryption,
  and touches up to seven bytes beyond the frame; the hash table refines a map as long as the
  uninitialised start of its hash function leads a key to one bin, by having the same value in all
  calls or because the key is long enough to shift it out; the physical areas tile a stack; the
  server's answer to its client changes nothing. Where the code does not do what it means to do, a
  theorem says what it does: these are the findings of the manifest.

  \<^bold>\<open>Not modelled.\<close> What is printed, except where it is the purpose of a routine (the dumps of
  \<open>readmem.c\<close> and of the server, the listing of \<open>elf.c\<close>, the log of \<open>kprobe.c\<close>). Concurrency: the handlers of the module
  use globals without a lock, and are modelled one call at a time. \<open>kernel_patches/\<close> changes files of
  Linux that are not in the repository. \<open>parser.py\<close> is a script over the output of other tools.
  \<open>test/\<close> has programs that exercise the module. \<open>jprobe.c.bkp\<close> is an old copy.
\<close>

section \<open>Client and server\<close>

text \<open>The calls of a client whose request arrives over the connection \<open>c\<close> and is answered.\<close>
definition answered :: "net \<Rightarrow> conn \<Rightarrow> bool" where
  "answered net c \<longleftrightarrow> n_socket net \<noteq> -1 \<and> n_connect net \<noteq> -1 \<and> n_send net \<noteq> -1 \<and>
     n_recv net = int (length (echo c)) \<and> n_bytes net = echo c"

lemma client_sees_letter:
  assumes "answered net c" and "c_bytes c = request_text proc rsp rbp"
  shows "\<exists>str'. request_encrypt_stack net str proc rsp rbp = Inr (Ret (0, c_bytes c, str')) \<and>
    takeWhile (\<lambda>ch. ch \<noteq> 0) str' = [0x65]"
proof -
  have len: "length (request_text proc rsp rbp) \<le> 59" by (rule request_length)
  obtain rest where e: "echo c = 0x65 # 0 # rest" by (auto simp: echo_def assms(2) request_words)
  have n: "length (echo c) \<le> 59" using len assms(2) by (simp add: echo_def)
  have "0 < n_recv net" "n_recv net < 100" "nat (n_recv net) = Suc (Suc (length rest))"
    using assms(1) n e by (simp_all add: answered_def)
  then show ?thesis
    using assms len by (auto simp: request_encrypt_stack_def answered_def Let_def e)
qed

text \<open>
  C9. A session of the server with its clients: if the socket can be set up, the rest of its
  buffer, behind any request, has a blank or a NUL, and the three bytes for the copy of the
  function name can be allocated, it starts, serves every client, and leaves the
  physical memory and the empty table as they were at the start. Each client finds its request
  accepted, returns 0 and shows "e", the part of the echo before the first NUL. So a program that
  has asked for its stack to be encrypted is told that all went well, and nothing was encrypted.
\<close>
theorem client_server_session:
  assumes "\<forall>c \<in> set cs. client_conn c" and "\<forall>k l. al k l 3 \<noteq> 0" and "end_behind str"
    and "sock \<noteq> -1" and "bound \<noteq> -1" and "listening \<noteq> -1"
  shows "\<exists>sv'. server_main al os sock bound listening cs str ph s = Some (Inr (Ret (sv', map echo cs))) \<and>
    sv_phys sv' = ph \<and> sv_table sv' = fst (htCreate al 10 s) \<and>
    (\<forall>c \<in> set cs. \<forall>net cstr proc rsp rbp. answered net c \<longrightarrow> c_bytes c = request_text proc rsp rbp \<longrightarrow>
      (\<exists>str'. request_encrypt_stack net cstr proc rsp rbp = Inr (Ret (0, c_bytes c, str')) \<and>
        takeWhile (\<lambda>ch. ch \<noteq> 0) str' = [0x65]))"
proof -
  obtain ht s1 where h: "htCreate al 10 s = (ht, s1)" by fastforce
  let ?sv = "\<lparr>sv_table = ht, sv_heap = s1, sv_phys = ph, sv_str = str\<rparr>"
  have "end_behind (sv_str ?sv)" using assms(3) by simp
  from serve_clients [where al = al and sv = ?sv and os = os, OF assms(1,2) this] obtain sv' where
    "serve al os cs ?sv = Some (Inr (Ret (sv', map echo cs)))" "sv_table sv' = ht" "sv_phys sv' = ph" by auto
  then show ?thesis using client_sees_letter assms(4-6) h by (auto simp: server_main_def)
qed

theorem client_server_session_witness:
  "\<exists>sv'. server_main (\<lambda>_ _ _. 0x5000) demo_os 3 0 0 [demo_conn] (replicate 100 0) (\<lambda>_. 9) no_heap =
      Some (Inr (Ret (sv', [echo demo_conn]))) \<and> sv_phys sv' = (\<lambda>_. 9)"
proof -
  have "end_behind (replicate 100 0)" using demo_conn_ok(2) by (simp add: demo_srv_def del: replicate_num)
  from client_server_session [OF _ demo_conn_ok(3) this, of "[demo_conn]" 3 0 0 demo_os "\<lambda>_. 9" no_heap]
  show ?thesis using demo_conn_ok(1) by auto
qed

end
